(* ===== verification/Prelude.thy ===== *)
theory Prelude
  imports Main "HOL-Library.Word" "HOL-Library.AList" "HOL-Library.Multiset"
begin

text \<open>
  Shared vocabulary of the development: the Go types the service uses, the collections of
  simplification facts the component theories fill, and the generic lemmas on association
  lists, sorted lists and machine words that several components need.

  Go types and their models:
  \<^item> \<open>uint64\<close> is \<^typ>\<open>64 word\<close>: \<open>+\<close> and \<open>*\<close> wrap, \<open>div\<close> is Go's unsigned division;
  \<^item> \<open>string\<close> is a list of bytes (\<^typ>\<open>char\<close> is a byte), so \<open>length\<close> is Go's \<open>len\<close>;
  \<^item> \<open>time.Time\<close> is the number of nanoseconds since the epoch, \<open>*time.Time\<close> an option,
    \<open>time.Duration\<close> a number of nanoseconds;
  \<^item> a Go map or \<open>sync.Map\<close> is an association list whose keys are distinct: the list order is
    the order in which \<open>range\<close> visits the entries, and theorems about all such lists cover
    every order Go may choose.
\<close>

type_synonym uint64 = "64 word"
type_synonym time = int
type_synonym duration = int

named_theorems cache_simps \<open>definitions of the in-memory cache operations\<close>
named_theorems log_simps \<open>effects of the logging calls on the service state\<close>
named_theorems sql_simps \<open>the statements and their reference meaning\<close>

subsection \<open>Durations\<close>

definition Second :: duration where
  "Second = 1000000000"

definition Minute :: duration where
  "Minute = 60 * Second"

subsection \<open>Association lists as Go maps\<close>

lemma keys_update_absent: "k \<notin> fst ` set m \<Longrightarrow> AList.update k v m = m @ [(k, v)]"
  by (induction m) auto

lemma keys_update_present:
  "k \<in> fst ` set m \<Longrightarrow> map fst (AList.update k v m) = map fst m"
  by (induction m) auto

lemma length_update_present:
  "k \<in> fst ` set m \<Longrightarrow> length (AList.update k v m) = length m"
  by (metis keys_update_present length_map)

lemma keys_delete: "map fst (AList.delete k m) = filter (\<lambda>x. x \<noteq> k) (map fst m)"
  by (induction m) auto

lemma length_delete_present:
  assumes "distinct (map fst m)" and "k \<in> fst ` set m"
  shows "Suc (length (AList.delete k m)) = length m"
  using assms by (induction m) (auto simp: image_iff)

lemma map_of_None_notin: "map_of m k = None \<longleftrightarrow> k \<notin> fst ` set m"
  by (rule map_of_eq_None_iff)

lemma map_of_Some_in: "map_of m k = Some v \<Longrightarrow> k \<in> fst ` set m"
  by (metis map_of_eq_None_iff option.distinct(1))

subsection \<open>Sorted lists\<close>

lemma sort_key_take_less:
  assumes "distinct xs" and "x \<in> set (take n (sort xs))" and "y \<in> set (drop n (sort xs))"
  shows "x < y"
proof -
  have d: "distinct (take n (sort xs) @ drop n (sort xs))"
    and s: "sorted (take n (sort xs) @ drop n (sort xs))"
    using assms(1) by (simp_all only: append_take_drop_id distinct_sort sorted_sort)
  from s assms(2,3) have "x \<le> y" by (auto simp only: sorted_append)
  moreover from d assms(2,3) have "x \<noteq> y" by (auto simp only: distinct_append)
  ultimately show ?thesis by simp
qed

lemma Min_drop_sorted:
  assumes "sorted xs" and "n < length xs"
  shows "Min (set (drop n xs)) = xs ! n"
proof -
  have "drop n xs = xs ! n # drop (Suc n) xs"
    using assms(2) by (simp add: Cons_nth_drop_Suc)
  moreover have "sorted (drop n xs)" using assms(1) by (rule sorted_wrt_drop)
  ultimately show ?thesis
    by (metis List.finite_set Min_eqI list.set_intros(1) set_ConsD sorted_simps(2) order_refl)
qed

subsection \<open>Powers of two\<close>

lemma two_power_half: "0 < k \<Longrightarrow> (2::nat) ^ k = 2 * 2 ^ (k - 1)"
  by (cases k) simp_all

end
