(* ===== verification/Go_Std.thy ===== *)
theory Go_Std
  imports Prelude
begin

text \<open>
  The fragments of the Go language and of its standard library that the service calls:
  error values with \<open>errors.Is\<close> and \<open>errors.Join\<close>, \<open>strconv.ParseUint\<close> and decimal printing,
  and the byte-string functions of package \<open>strings\<close>. Each is written as the library
  implements it; the lemmas below characterise it for the component theories.
\<close>

subsection \<open>Errors\<close>

text \<open>
  One constructor per kind of error value that flows through the service. A sentinel created by
  a package-level \<open>errors.New\<close> is compared by identity, so it has a constructor of its own; an
  \<open>errors.New\<close> at a call site makes a value no other error equals, and only its text matters.
  \<open>Errorf p e\<close> is \<open>fmt.Errorf("p: %w", e)\<close>, \<open>JoinError\<close> is what \<open>errors.Join\<close> returns and
  \<open>ExtError\<close> an error made by code outside the repository (the driver, the JSON decoder).
\<close>

datatype num_error = ErrSyntax | ErrRange

record field_error =
  fe_Field :: string
  fe_Tag :: string
  fe_Param :: string

datatype goerror =
    ErrTaskNotFound
  | ErrInvalidStatusTransition
  | ErrUnknownStatus
  | ErrNoRows
  | ErrEmptyDSN
  | ErrNew string
  | Errorf string goerror
  | NumError string num_error
  | ValidationErrors "field_error list"
  | JoinError "goerror list"
  | ExtError string

text \<open>\<open>errors.Is\<close> for a sentinel target: equality, then the chain of wrapped errors.\<close>

fun errors_Is :: "goerror \<Rightarrow> goerror \<Rightarrow> bool" where
  "errors_Is (Errorf p e) t = errors_Is e t"
| "errors_Is (JoinError es) t = list_ex (\<lambda>e. errors_Is e t) es"
| "errors_Is e t = (e = t)"

text \<open>\<open>errors.Join\<close> drops the nil errors and returns nil when nothing is left.\<close>

definition errors_Join :: "goerror option list \<Rightarrow> goerror option" where
  "errors_Join errs =
     (let es = map the (filter (\<lambda>e. e \<noteq> None) errs)
      in if es = [] then None else Some (JoinError es))"

subsection \<open>Numbers and their text\<close>

definition is_digit :: "char \<Rightarrow> bool" where
  "is_digit c = (of_char (CHR ''0'') \<le> (of_char c :: nat) \<and> of_char c \<le> (of_char (CHR ''9'') :: nat))"

definition digit_val :: "char \<Rightarrow> nat" where
  "digit_val c = of_char c - of_char (CHR ''0'')"

text \<open>
  \<open>strconv.ParseUint(s, 10, 64)\<close>: the loop of the library on a 64-bit accumulator. \<open>cutoff\<close> is
  the least number whose product with the base overflows; the sum is checked after it wrapped.
  A byte that is a letter has a digit value of at least 10, so base 10 refuses it as it refuses
  any other byte that is no digit.
\<close>

definition cutoff :: uint64 where
  "cutoff = (- 1) div 10 + 1"

fun ParseUint_loop :: "string \<Rightarrow> uint64 \<Rightarrow> num_error + uint64" where
  "ParseUint_loop [] n = Inr n"
| "ParseUint_loop (c # cs) n =
     (if \<not> is_digit c then Inl ErrSyntax
      else if cutoff \<le> n then Inl ErrRange
      else (let m = n * 10; n1 = m + of_nat (digit_val c)
            in if n1 < m then Inl ErrRange else ParseUint_loop cs n1))"

definition ParseUint :: "string \<Rightarrow> goerror + uint64" where
  "ParseUint s =
     (if s = [] then Inl (NumError s ErrSyntax)
      else case ParseUint_loop s 0 of Inl e \<Rightarrow> Inl (NumError s e) | Inr n \<Rightarrow> Inr n)"

text \<open>The value of a digit string, and the decimal text \<open>%d\<close> prints.\<close>

definition decimal_value :: "string \<Rightarrow> nat" where
  "decimal_value s = foldl (\<lambda>n c. n * 10 + digit_val c) 0 s"

definition digit_char :: "nat \<Rightarrow> char" where
  "digit_char d = char_of (of_char (CHR ''0'') + d :: nat)"

fun show_nat :: "nat \<Rightarrow> string" where
  "show_nat n = (if n < 10 then [digit_char n] else show_nat (n div 10) @ [digit_char (n mod 10)])"

declare show_nat.simps [simp del]

definition show_uint64 :: "uint64 \<Rightarrow> string" where
  "show_uint64 n = show_nat (unat n)"

definition show_int :: "int \<Rightarrow> string" where
  "show_int i = (if i < 0 then ''-'' @ show_nat (nat (- i)) else show_nat (nat i))"

subsection \<open>The environment\<close>

text \<open>
  What the code observes and does not determine: the value of the \<open>n\<close>-th call of \<open>time.Now()\<close>,
  the text of \<open>debug.Stack()\<close>, the quoting of \<open>strconv.Quote\<close> (a table of printable Unicode
  characters) and the \<open>Error()\<close> text of the validation package's error list. They are
  parameters of every definition that uses them.
\<close>

record env =
  clock :: "nat \<Rightarrow> time"
  stack :: string
  quote :: "string \<Rightarrow> string"
  validation_text :: "field_error list \<Rightarrow> string"

text \<open>The \<open>Error()\<close> method of each kind of error value.\<close>

fun num_error_text :: "num_error \<Rightarrow> string" where
  "num_error_text ErrSyntax = ''invalid syntax''"
| "num_error_text ErrRange = ''value out of range''"

fun error_text :: "env \<Rightarrow> goerror \<Rightarrow> string" and join_text :: "env \<Rightarrow> goerror list \<Rightarrow> string" where
  "error_text env ErrTaskNotFound = ''task not found''"
| "error_text env ErrInvalidStatusTransition = ''invalid status transition''"
| "error_text env ErrUnknownStatus = ''unknown status''"
| "error_text env ErrNoRows = ''sql: no rows in result set''"
| "error_text env ErrEmptyDSN = ''postgres dsn is empty''"
| "error_text env (ErrNew s) = s"
| "error_text env (Errorf p e) = p @ '': '' @ error_text env e"
| "error_text env (NumError s k) =
     ''strconv.ParseUint: parsing '' @ quote env s @ '': '' @ num_error_text k"
| "error_text env (ValidationErrors fes) = validation_text env fes"
| "error_text env (JoinError es) = join_text env es"
| "error_text env (ExtError s) = s"
| "join_text env [] = []"
| "join_text env [e] = error_text env e"
| "join_text env (e # f # es) = error_text env e @ ''\<newline>'' @ join_text env (f # es)"

subsection \<open>Package strings\<close>

text \<open>\<open>strings.Split(s, sep)\<close> for a one-byte separator: always at least one part.\<close>

fun strings_Split :: "char \<Rightarrow> string \<Rightarrow> string list" where
  "strings_Split sep [] = [[]]"
| "strings_Split sep (c # cs) =
     (if c = sep then [] # strings_Split sep cs
      else case strings_Split sep cs of [] \<Rightarrow> [[c]] | p # ps \<Rightarrow> (c # p) # ps)"

text \<open>\<open>strings.Trim(s, cutset)\<close> for a cutset of ASCII bytes.\<close>

definition strings_TrimLeft :: "char list \<Rightarrow> string \<Rightarrow> string" where
  "strings_TrimLeft cutset s = dropWhile (\<lambda>c. c \<in> set cutset) s"

definition strings_TrimRight :: "char list \<Rightarrow> string \<Rightarrow> string" where
  "strings_TrimRight cutset s = rev (dropWhile (\<lambda>c. c \<in> set cutset) (rev s))"

definition strings_Trim :: "char list \<Rightarrow> string \<Rightarrow> string" where
  "strings_Trim cutset s = strings_TrimRight cutset (strings_TrimLeft cutset s)"

definition strings_HasPrefix :: "string \<Rightarrow> string \<Rightarrow> bool" where
  "strings_HasPrefix s p = (take (length p) s = p)"

definition strings_HasSuffix :: "string \<Rightarrow> string \<Rightarrow> bool" where
  "strings_HasSuffix s p = (length p \<le> length s \<and> drop (length s - length p) s = p)"

fun strings_Join :: "string \<Rightarrow> string list \<Rightarrow> string" where
  "strings_Join sep [] = []"
| "strings_Join sep [p] = p"
| "strings_Join sep (p # q # ps) = p @ sep @ strings_Join sep (q # ps)"

text \<open>\<open>strings.ToUpper\<close> on the ASCII letters; HTTP method names are ASCII tokens.\<close>

definition char_ToUpper :: "char \<Rightarrow> char" where
  "char_ToUpper c =
     (if of_char (CHR ''a'') \<le> (of_char c :: nat) \<and> of_char c \<le> (of_char (CHR ''z'') :: nat)
      then char_of (of_char c - 32 :: nat) else c)"

definition strings_ToUpper :: "string \<Rightarrow> string" where
  "strings_ToUpper s = map char_ToUpper s"

subsection \<open>Facts about errors\<close>

lemma errors_Is_Errorf [simp]: "errors_Is (Errorf p e) t = errors_Is e t"
  by simp

lemma errors_Join_None: "errors_Join errs = None \<longleftrightarrow> (\<forall>e \<in> set errs. e = None)"
  by (auto simp: errors_Join_def Let_def filter_empty_conv)

lemma errors_Is_Join:
  "errors_Join errs = Some e \<Longrightarrow> errors_Is e t \<longleftrightarrow> (\<exists>x. Some x \<in> set errs \<and> errors_Is x t)"
  by (auto simp: errors_Join_def Let_def list_ex_iff image_iff split: if_splits) force+

subsection \<open>Facts about decimal text\<close>

lemma digit_val_less: "is_digit c \<Longrightarrow> digit_val c < 10"
  unfolding is_digit_def digit_val_def by (simp, arith)

lemma digit_char_props:
  assumes "d < 10"
  shows "is_digit (digit_char d)" and "digit_val (digit_char d) = d"
  using assms by (simp_all add: is_digit_def digit_val_def digit_char_def)

lemma decimal_value_mono:
  "n \<le> foldl (\<lambda>n c. n * 10 + digit_val c) n s" for n :: nat
proof (induction s arbitrary: n)
  case (Cons c s)
  have "n \<le> n * 10 + digit_val c" by simp
  also have "\<dots> \<le> foldl (\<lambda>n c. n * 10 + digit_val c) (n * 10 + digit_val c) s" by (rule Cons.IH)
  finally show ?case by simp
qed simp

lemma decimal_value_snoc: "decimal_value (s @ [c]) = decimal_value s * 10 + digit_val c"
  by (simp add: decimal_value_def)

lemma show_nat_digits: "list_all is_digit (show_nat n) \<and> show_nat n \<noteq> []"
proof (induction n rule: show_nat.induct)
  case (1 n)
  then show ?case
    by (cases "n < 10") (auto simp: show_nat.simps [of n] digit_char_props)
qed

lemma decimal_value_show: "decimal_value (show_nat n) = n"
proof (induction n rule: show_nat.induct)
  case (1 n)
  show ?case
  proof (cases "n < 10")
    case True
    then show ?thesis
      by (simp add: show_nat.simps [of n] decimal_value_def digit_char_props)
  next
    case False
    with 1 have "decimal_value (show_nat (n div 10)) = n div 10" by simp
    with False show ?thesis
      by (simp add: show_nat.simps [of n] decimal_value_snoc digit_char_props)
  qed
qed

subsection \<open>ParseUint is exact\<close>

lemma cutoff_overflow: "cutoff \<le> n \<longleftrightarrow> 2 ^ 64 \<le> unat n * 10"
proof -
  have "unat cutoff = 1844674407370955162" by (simp add: cutoff_def)
  then show ?thesis by (simp add: word_le_nat_alt) arith
qed

lemma parse_step:
  assumes "is_digit c" and "\<not> cutoff \<le> n"
  defines "m \<equiv> n * 10" and "n1 \<equiv> n * 10 + of_nat (digit_val c)"
  shows "n1 < m \<longleftrightarrow> 2 ^ 64 \<le> unat n * 10 + digit_val c"
    and "\<not> n1 < m \<Longrightarrow> unat n1 = unat n * 10 + digit_val c"
proof -
  have d: "digit_val c < 10" using assms(1) by (rule digit_val_less)
  have m: "unat m = unat n * 10" and mb: "unat n * 10 < 2 ^ 64"
    using assms(2) by (simp_all add: m_def cutoff_overflow unat_word_ariths)
  have n1: "unat n1 = (unat n * 10 + digit_val c) mod 2 ^ 64"
    using m d by (simp add: n1_def m_def unat_word_ariths unat_of_nat)
  show iff: "n1 < m \<longleftrightarrow> 2 ^ 64 \<le> unat n * 10 + digit_val c"
  proof (cases "unat n * 10 + digit_val c < 2 ^ 64")
    case True
    then show ?thesis using n1 m by (simp add: word_less_nat_alt)
  next
    case False
    then have "(unat n * 10 + digit_val c) mod 2 ^ 64 = unat n * 10 + digit_val c - 2 ^ 64"
      using mb d by (simp add: mod_if)
    then show ?thesis using n1 m mb d False by (simp add: word_less_nat_alt)
  qed
  show "unat n1 = unat n * 10 + digit_val c" if "\<not> n1 < m"
    using that iff n1 by simp
qed

lemma ParseUint_loop_spec:
  "ParseUint_loop s n = Inr m \<longleftrightarrow>
     list_all is_digit s \<and> foldl (\<lambda>n c. n * 10 + digit_val c) (unat n) s < 2 ^ 64 \<and>
     m = of_nat (foldl (\<lambda>n c. n * 10 + digit_val c) (unat n) s)"
proof (induction s arbitrary: n)
  case Nil
  show ?case using unsigned_less [of n] by (auto simp: eq_commute)
next
  case (Cons c s)
  let ?v = "\<lambda>k. foldl (\<lambda>n c. n * 10 + digit_val c) k s"
  let ?k = "unat n * 10 + digit_val c"
  consider (bad) "\<not> is_digit c" | (over) "is_digit c" "2 ^ 64 \<le> ?k" | (ok) "is_digit c" "?k < 2 ^ 64"
    by linarith
  then show ?case
  proof cases
    case bad
    then show ?thesis by simp
  next
    case over
    have "2 ^ 64 \<le> ?v ?k" using over(2) decimal_value_mono by (rule order_trans)
    moreover have "ParseUint_loop (c # s) n = Inl ErrRange"
      using over parse_step(1) [OF over(1), of n] by (simp add: Let_def)
    ultimately show ?thesis by simp
  next
    case ok
    then have nc: "\<not> cutoff \<le> n" by (simp add: cutoff_overflow)
    have nl: "\<not> n * 10 + of_nat (digit_val c) < n * 10"
      using parse_step(1) [OF ok(1) nc] ok(2) by simp
    have u: "unat (n * 10 + of_nat (digit_val c)) = ?k"
      using parse_step(2) [OF ok(1) nc nl] .
    show ?thesis
      using ok(1) nc nl Cons.IH [of "n * 10 + of_nat (digit_val c)"] u by (simp add: Let_def)
  qed
qed

lemma ParseUint_ok_iff:
  "ParseUint s = Inr n \<longleftrightarrow>
     s \<noteq> [] \<and> list_all is_digit s \<and> decimal_value s < 2 ^ 64 \<and> n = of_nat (decimal_value s)"
  using ParseUint_loop_spec [of s 0 n]
  by (auto simp: ParseUint_def decimal_value_def split: sum.splits)

lemma ParseUint_show [simp]: "ParseUint (show_uint64 n) = Inr n"
  using show_nat_digits [of "unat n"] unsigned_less [of n]
  by (simp add: ParseUint_ok_iff show_uint64_def decimal_value_show)

subsection \<open>Split and Trim\<close>

lemma strings_Split_neq_Nil [simp]: "strings_Split sep s \<noteq> []"
  by (induction s) (auto split: list.splits)

lemma strings_Split_no_sep: "sep \<notin> set s \<Longrightarrow> strings_Split sep s = [s]"
  by (induction s) auto

lemma strings_Split_append:
  "strings_Split sep (s @ sep # t) = strings_Split sep s @ strings_Split sep t"
proof (induction s)
  case (Cons c s)
  then show ?case by (cases "strings_Split sep s") auto
qed simp

lemma strings_Split_parts: "p \<in> set (strings_Split sep s) \<Longrightarrow> sep \<notin> set p"
proof (induction s arbitrary: p)
  case (Cons c s)
  then show ?case
    by (cases "strings_Split sep s") (auto split: if_splits)
qed simp

lemma strings_Join_Split: "strings_Join [sep] (strings_Split sep s) = s"
proof (induction s)
  case (Cons c s)
  then show ?case
    by (cases "strings_Split sep s" rule: list.exhaust; cases "tl (strings_Split sep s)")
       (auto split: list.splits)
qed simp

lemma strings_Split_inj: "strings_Split sep s = strings_Split sep t \<Longrightarrow> s = t"
  by (metis strings_Join_Split)

end
