(* ===== verification/App_Config.thy ===== *)
theory App_Config
  imports Go_Std Complex_Main "HOL-Library.Log_Nat"
begin

text \<open>
  \<open>internal/config/config.go\<close>: the configuration, its struct tags as a list of environment variables,
  and the loading function. \<open>time.ParseDuration\<close>, which reads the durations, is modelled byte by byte.
  \<open>github.com/kelseyhightower/envconfig\<close> and \<open>github.com/joho/godotenv\<close> are arguments; the documented
  way envconfig treats the tags (the prefixed name, then the name in the tag, then the default, an
  error for a missing required variable or a text that cannot be converted) is the hypothesis
  \<open>reads_tags\<close>. The theorem computes the configuration of a process from its environment: the values in
  the \<open>default\<close> tags unless a variable is set, and an error without a data source.
\<close>

subsection \<open>The configuration\<close>

record HTTPServerConfig =
  hs_ListenPort :: string
  hs_KeepAliveTime :: duration
  hs_KeepAliveTimeout :: duration
  hs_ReadHeaderTimeout :: duration
  hs_ReadTimeout :: duration
  hs_WriteTimeout :: duration
  hs_MaxRequestBodyBytes :: int
  hs_IPRateLimit :: rat
  hs_IPRateBurst :: int
  hs_IPRateLimiterTTL :: duration

record DatabaseConfig =
  db_DSN :: string
  db_MaxOpenConns :: int
  db_MaxIdleConns :: int
  db_ConnMaxLifetime :: duration
  db_QueryTimeout :: duration

record CacheConfig =
  cc_MemoryCacheLimitMB :: int
  cc_MemoryMonitorCacheInterval :: duration

record Config =
  cfg_ServiceName :: string
  cfg_ReleaseID :: string
  cfg_LogLevel :: string
  cfg_RouteGroup :: string
  cfg_HTTPServer :: HTTPServerConfig
  cfg_Database :: DatabaseConfig
  cfg_Cache :: CacheConfig

text \<open>\<open>&Config{}\<close>: the zero value.\<close>

definition zero_Config :: Config where
  "zero_Config =
     \<lparr>cfg_ServiceName = [], cfg_ReleaseID = [], cfg_LogLevel = [], cfg_RouteGroup = [],
      cfg_HTTPServer = \<lparr>hs_ListenPort = [], hs_KeepAliveTime = 0, hs_KeepAliveTimeout = 0,
        hs_ReadHeaderTimeout = 0, hs_ReadTimeout = 0, hs_WriteTimeout = 0, hs_MaxRequestBodyBytes = 0,
        hs_IPRateLimit = 0, hs_IPRateBurst = 0, hs_IPRateLimiterTTL = 0\<rparr>,
      cfg_Database = \<lparr>db_DSN = [], db_MaxOpenConns = 0, db_MaxIdleConns = 0, db_ConnMaxLifetime = 0,
        db_QueryTimeout = 0\<rparr>,
      cfg_Cache = \<lparr>cc_MemoryCacheLimitMB = 0, cc_MemoryMonitorCacheInterval = 0\<rparr>\<rparr>"

text \<open>The values of the \<open>default\<close> tags, for a given DSN (the one required variable).\<close>

definition default_Config :: "string \<Rightarrow> Config" where
  "default_Config dsn =
     \<lparr>cfg_ServiceName = ''task-service-go'', cfg_ReleaseID = [], cfg_LogLevel = ''info'',
      cfg_RouteGroup = ''/api/v1/task-service'',
      cfg_HTTPServer = \<lparr>hs_ListenPort = ''8888'', hs_KeepAliveTime = 60 * Second, hs_KeepAliveTimeout = 10 * Second,
        hs_ReadHeaderTimeout = 10 * Second, hs_ReadTimeout = 10 * Second, hs_WriteTimeout = 10 * Second,
        hs_MaxRequestBodyBytes = 1048576, hs_IPRateLimit = 50, hs_IPRateBurst = 100,
        hs_IPRateLimiterTTL = 10 * Minute\<rparr>,
      cfg_Database = \<lparr>db_DSN = dsn, db_MaxOpenConns = 10, db_MaxIdleConns = 5, db_ConnMaxLifetime = 30 * Minute,
        db_QueryTimeout = 5 * Second\<rparr>,
      cfg_Cache = \<lparr>cc_MemoryCacheLimitMB = 1024, cc_MemoryMonitorCacheInterval = 5 * Second\<rparr>\<rparr>"

type_synonym environ = "string \<rightharpoonup> string"

text \<open>\<open>godotenv.Load\<close> on the process environment, and \<open>envconfig.Process\<close>.\<close>

record config_pkgs =
  dotenv_Load :: "string \<Rightarrow> environ \<Rightarrow> environ \<times> goerror option"
  envconfig_Process :: "string \<Rightarrow> environ \<Rightarrow> Config \<Rightarrow> goerror + Config"

definition DotEnvFilename :: string where
  "DotEnvFilename = ''.env''"

definition NewConfigFromFile :: "config_pkgs \<Rightarrow> string \<Rightarrow> environ \<Rightarrow> environ \<times> (goerror + Config)" where
  "NewConfigFromFile pkgs fileName e =
     (let e1 = fst (dotenv_Load pkgs fileName e)
      in case envconfig_Process pkgs [] e1 zero_Config of
           Inl err \<Rightarrow> (e1, Inl (Errorf ''process env'' err))
         | Inr cfg \<Rightarrow> (e1, Inr cfg))"

subsection \<open>Durations as text\<close>

text \<open>
  \<open>float64(r)\<close>, the nearest double, ties to the even significand: \<open>n / d\<close> lies between
  \<open>2 ^ (len n - len d - 1)\<close> and \<open>2 ^ (len n - len d + 1)\<close> where \<open>len\<close> counts binary digits. Only positive
  numbers in the normal range occur here.
\<close>

definition round_even :: "rat \<Rightarrow> int" where
  "round_even r =
     (let n = \<lfloor>r\<rfloor>; h = r - of_int n
      in if h < 1 / 2 then n else if 1 / 2 < h then n + 1 else if even n then n else n + 1)"

definition pow2 :: "int \<Rightarrow> rat" where
  "pow2 k = (if 0 \<le> k then 2 ^ nat k else 1 / 2 ^ nat (- k))"

definition float64 :: "rat \<Rightarrow> rat" where
  "float64 r =
     (let (n, d) = quotient_of r;
          e0 = int (floorlog 2 (nat n)) - int (floorlog 2 (nat d));
          e = (if r < pow2 e0 then e0 - 1 else e0)
      in of_int (round_even (r / pow2 (e - 52))) * pow2 (e - 52))"

text \<open>The helpers of \<open>time.ParseDuration\<close>: digits before the point, digits after it, the unit.\<close>

fun leadingInt :: "nat \<Rightarrow> string \<Rightarrow> (nat \<times> string) option" where
  "leadingInt x [] = Some (x, [])"
| "leadingInt x (c # s) =
     (if \<not> is_digit c then Some (x, c # s)
      else if 2 ^ 63 div 10 < x then None
      else (let y = x * 10 + digit_val c in if 2 ^ 63 < y then None else leadingInt y s))"

fun leadingFraction :: "nat \<Rightarrow> nat \<Rightarrow> bool \<Rightarrow> string \<Rightarrow> nat \<times> nat \<times> string" where
  "leadingFraction x scale overflow [] = (x, scale, [])"
| "leadingFraction x scale overflow (c # s) =
     (if \<not> is_digit c then (x, scale, c # s)
      else if overflow \<or> (2 ^ 63 - 1) div 10 < x then leadingFraction x scale True s
      else (let y = x * 10 + digit_val c
            in if 2 ^ 63 < y then leadingFraction x scale True s
               else leadingFraction y (scale * 10) False s))"

definition unitMap :: "(string \<times> nat) list" where
  "unitMap =
     [(''ns'', 1), (''us'', 1000), ([CHR 0xC2, CHR 0xB5, CHR ''s''], 1000), ([CHR 0xCE, CHR 0xBC, CHR ''s''], 1000),
      (''ms'', 1000000), (''s'', 1000000000), (''m'', 60000000000), (''h'', 3600000000000)]"

definition in_number :: "char \<Rightarrow> bool" where
  "in_number c \<longleftrightarrow> c = CHR ''.'' \<or> is_digit c"

text \<open>One \<open>number unit\<close> of the text: its value in nanoseconds and the rest of the text.\<close>

definition duration_item :: "string \<Rightarrow> (nat \<times> string) option" where
  "duration_item s =
     (case leadingInt 0 s of
        None \<Rightarrow> None
      | Some (v, s1) \<Rightarrow>
          (let pre = length s1 \<noteq> length s;
               dot = s1 \<noteq> [] \<and> hd s1 = CHR ''.'';
               (f, scale, s2) = (if dot then leadingFraction 0 1 False (tl s1) else (0, 1, s1));
               post = dot \<and> length s2 \<noteq> length (tl s1);
               u = takeWhile (\<lambda>c. \<not> in_number c) s2
           in if \<not> pre \<and> \<not> post \<or> u = [] then None
              else case map_of unitMap u of
                     None \<Rightarrow> None
                   | Some unit \<Rightarrow>
                       (if 2 ^ 63 div unit < v then None
                        else (let w = v * unit +
                                   (if 0 < f then nat \<lfloor>float64 (float64 (of_nat f) * float64 (of_nat unit / of_nat scale))\<rfloor>
                                    else 0)
                              in if 2 ^ 63 < w then None else Some (w, dropWhile (\<lambda>c. \<not> in_number c) s2)))))"

lemma leadingInt_length: "leadingInt x s = Some (v, r) \<Longrightarrow> length r \<le> length s"
  by (induction x s rule: leadingInt.induct) (auto simp: Let_def split: if_splits)

lemma leadingFraction_length: "leadingFraction x sc b s = (f, sc', r) \<Longrightarrow> length r \<le> length s"
  by (induction x sc b s rule: leadingFraction.induct) (auto simp: Let_def split: if_splits)

lemma duration_item_shorter:
  assumes "duration_item s = Some (w, r)"
  shows "length r < length s"
proof -
  obtain v s1 where li: "leadingInt 0 s = Some (v, s1)"
    using assms by (auto simp: duration_item_def split: option.splits)
  obtain f scale s2 where
    fr: "(if s1 \<noteq> [] \<and> hd s1 = CHR ''.'' then leadingFraction 0 1 False (tl s1) else (0, 1, s1)) = (f, scale, s2)"
    by (metis prod_cases3)
  have "length s2 \<le> length s1"
    using fr leadingFraction_length [of 0 1 False "tl s1" f scale s2] by (cases s1) (auto split: if_splits)
  moreover have "length r = length (dropWhile (\<lambda>c. \<not> in_number c) s2)"
    and "0 < length (takeWhile (\<lambda>c. \<not> in_number c) s2)"
    using assms li fr by (auto simp: duration_item_def Let_def split: if_splits option.splits prod.splits)
  moreover have "length s2 = length (takeWhile (\<lambda>c. \<not> in_number c) s2) + length (dropWhile (\<lambda>c. \<not> in_number c) s2)"
    by (metis length_append takeWhile_dropWhile_id)
  ultimately show ?thesis using leadingInt_length [OF li] by linarith
qed

text \<open>The sum is a \<open>uint64\<close>; it is compared with \<open>1<<63\<close> after every addition.\<close>

function duration_sum :: "nat \<Rightarrow> string \<Rightarrow> nat option" where
  "duration_sum d s =
     (if s = [] then Some d
      else case duration_item s of
             None \<Rightarrow> None
           | Some (w, r) \<Rightarrow> (let d1 = (d + w) mod 2 ^ 64 in if 2 ^ 63 < d1 then None else duration_sum d1 r))"
  by pat_completeness auto
termination
  by (relation "measure (\<lambda>(d, s). length s)") (auto dest: duration_item_shorter)

declare duration_sum.simps [simp del]

definition ParseDuration :: "string \<Rightarrow> duration option" where
  "ParseDuration orig =
     (let sign = orig \<noteq> [] \<and> (hd orig = CHR ''-'' \<or> hd orig = CHR ''+'');
          neg = sign \<and> hd orig = CHR ''-'';
          s = (if sign then tl orig else orig)
      in if s = ''0'' then Some 0
         else if s = [] then None
         else case duration_sum 0 s of
                None \<Rightarrow> None
              | Some d \<Rightarrow> if neg then Some (- int d) else if 2 ^ 63 - 1 < d then None else Some (int d))"

text \<open>A duration always fits in an \<open>int64\<close>.\<close>

lemma duration_sum_le: "duration_sum d s = Some n \<Longrightarrow> d \<le> 2 ^ 63 \<Longrightarrow> n \<le> 2 ^ 63"
proof (induction d s rule: duration_sum.induct)
  case (1 d s)
  show ?case
  proof (cases "s = []")
    case True then show ?thesis using "1.prems" by (simp add: duration_sum.simps)
  next
    case False
    then obtain w r where it: "duration_item s = Some (w, r)"
      using "1.prems" by (auto simp: duration_sum.simps [of d s] split: option.splits)
    then show ?thesis
      using False "1.prems"(1) "1.IH" [OF False it refl refl]
      by (simp add: duration_sum.simps [of d s] Let_def split: if_splits)
  qed
qed

lemma ParseDuration_range: "ParseDuration s = Some d \<Longrightarrow> - (2 ^ 63) \<le> d \<and> d < 2 ^ 63"
  by (auto simp: ParseDuration_def Let_def split: if_splits option.splits dest!: duration_sum_le)

text \<open>A decimal number followed by a unit.\<close>

lemma leadingInt_digits:
  assumes "list_all is_digit s" and "r = [] \<or> \<not> is_digit (hd r)"
    and "foldl (\<lambda>n c. n * 10 + digit_val c) x s \<le> 2 ^ 63"
  shows "leadingInt x (s @ r) = Some (foldl (\<lambda>n c. n * 10 + digit_val c) x s, r)"
  using assms
proof (induction s arbitrary: x)
  case Nil
  then show ?case by (cases r) auto
next
  case (Cons c s)
  let ?y = "x * 10 + digit_val c"
  have "?y \<le> 2 ^ 63"
    using decimal_value_mono [of ?y s] Cons.prems(3) by (simp del: One_nat_def)
  moreover from this have "\<not> 2 ^ 63 div 10 < x" by simp
  ultimately show ?case
    using Cons.prems Cons.IH [of ?y] by (simp add: Let_def)
qed

lemma leadingInt_show_nat:
  assumes "n \<le> 2 ^ 63" and "r = [] \<or> \<not> is_digit (hd r)"
  shows "leadingInt 0 (show_nat n @ r) = Some (n, r)"
  using leadingInt_digits [of "show_nat n" r 0] show_nat_digits [of n] decimal_value_show [of n] assms
  by (simp add: decimal_value_def)

lemma unit_chars:
  assumes "map_of unitMap u = Some k"
  shows "u \<noteq> []" and "takeWhile (\<lambda>c. \<not> in_number c) u = u" and "\<not> in_number (hd u)" and "0 < k"
  using map_of_SomeD [OF assms] by (auto simp: unitMap_def in_number_def is_digit_def)

lemma duration_item_unit:
  assumes u: "map_of unitMap u = Some k" and n: "n * k \<le> 2 ^ 63"
  shows "duration_item (show_nat n @ u) = Some (n * k, [])"
proof -
  note uc = unit_chars [OF u]
  have "n \<le> n * k" using uc(4) by simp
  then have "n \<le> 2 ^ 63" using n by (rule order.trans)
  then have li: "leadingInt 0 (show_nat n @ u) = Some (n, u)"
    by (rule leadingInt_show_nat) (use uc(3) in \<open>simp add: in_number_def\<close>)
  have dot: "hd u \<noteq> CHR ''.''" using uc(3) by (simp add: in_number_def)
  have ge: "\<not> 2 ^ 63 div k < n"
    using n uc(4) by (simp add: less_eq_div_iff_mult_less_eq not_less del: power_numeral)
  have drop: "dropWhile (\<lambda>c. \<not> in_number c) u = []"
    using uc(2) by (metis append_same_eq append_self_conv takeWhile_dropWhile_id)
  show ?thesis
    using show_nat_digits [of n] n ge uc(1)
    by (simp add: duration_item_def li dot Let_def u uc(2) drop del: power_numeral)
qed

lemma show_nat_first: "is_digit (hd (show_nat n))"
  using show_nat_digits [of n] by (cases "show_nat n") auto

lemma ParseDuration_unit:
  assumes "map_of unitMap u = Some k" and "n * k < 2 ^ 63"
  shows "ParseDuration (show_nat n @ u) = Some (int n * int k)"
proof -
  have ne: "show_nat n @ u \<noteq> []" and hd: "hd (show_nat n @ u) = hd (show_nat n)"
    using show_nat_digits [of n] by auto
  have sign: "hd (show_nat n) \<noteq> CHR ''-''" "hd (show_nat n) \<noteq> CHR ''+''"
    using show_nat_first [of n] by (auto simp: is_digit_def)
  have "length (show_nat n @ u) \<noteq> 1"
    using show_nat_digits [of n] unit_chars(1) [OF assms(1)] by (cases "show_nat n") auto
  then have "show_nat n @ u \<noteq> ''0''" by (metis One_nat_def length_Cons list.size(3))
  moreover have "duration_sum 0 (show_nat n @ u) = Some (n * k)"
    using ne assms by (simp add: duration_sum.simps duration_item_unit Let_def del: append_is_Nil_conv)
  ultimately show ?thesis
    using ne assms(2) by (simp add: ParseDuration_def hd sign Let_def del: append_is_Nil_conv)
qed

lemma leadingInt_rest: "list_all is_digit s \<Longrightarrow> leadingInt x s = Some (v, r) \<Longrightarrow> r = []"
  by (induction x s rule: leadingInt.induct) (auto simp: Let_def split: if_splits)

text \<open>A number without a unit is no duration, unless it is zero.\<close>

lemma ParseDuration_no_unit:
  assumes "0 < n"
  shows "ParseDuration (show_nat n) = None"
proof -
  have sign: "hd (show_nat n) \<noteq> CHR ''-''" "hd (show_nat n) \<noteq> CHR ''+''"
    using show_nat_first [of n] by (auto simp: is_digit_def)
  have "show_nat n \<noteq> ''0''"
  proof
    assume "show_nat n = ''0''"
    then have "decimal_value ''0'' = n" by (metis decimal_value_show)
    then show False using assms by (simp add: decimal_value_def digit_val_def)
  qed
  moreover have "duration_item (show_nat n) = None"
  proof (cases "leadingInt 0 (show_nat n)")
    case (Some p)
    moreover obtain v r where "p = (v, r)" by (cases p)
    moreover have "list_all is_digit (show_nat n)" by (simp add: show_nat_digits)
    ultimately show ?thesis
      using leadingInt_rest [of "show_nat n" 0 v r] by (simp add: duration_item_def Let_def)
  qed (simp add: duration_item_def)
  ultimately show ?thesis
    using show_nat_digits [of n] by (simp add: ParseDuration_def sign Let_def duration_sum.simps)
qed

subsection \<open>The struct tags\<close>

text \<open>
  A field with an \<open>envconfig\<close> tag: the name of its variable below the names of the sections around it,
  the bare name in the tag, the \<open>default\<close> and \<open>required\<close> tags, and the assignment to the field, which can
  fail on the text. How \<open>int\<close> and \<open>float64\<close> fields convert their text is in \<open>converters\<close>.
\<close>

record 'c config_var =
  cv_key :: string
  cv_alt :: string
  cv_default :: "string option"
  cv_required :: bool
  cv_set :: "string \<Rightarrow> 'c \<Rightarrow> 'c option"

record converters =
  conv_int :: "string \<Rightarrow> int option"
  conv_float :: "string \<Rightarrow> rat option"

definition config_field :: "string \<Rightarrow> string option \<Rightarrow> (string \<Rightarrow> 'a option) \<Rightarrow> (('a \<Rightarrow> 'a) \<Rightarrow> 'c \<Rightarrow> 'c) \<Rightarrow> 'c config_var" where
  "config_field tag def conv upd =
     \<lparr>cv_key = tag, cv_alt = tag, cv_default = def, cv_required = False,
      cv_set = (\<lambda>s c. map_option (\<lambda>x. upd (\<lambda>_. x) c) (conv s))\<rparr>"

definition config_section :: "string \<Rightarrow> ('c \<Rightarrow> 'd) \<Rightarrow> (('d \<Rightarrow> 'd) \<Rightarrow> 'c \<Rightarrow> 'c) \<Rightarrow> 'd config_var list \<Rightarrow> 'c config_var list" where
  "config_section tag get upd vs =
     map (\<lambda>v. \<lparr>cv_key = tag @ ''_'' @ cv_key v, cv_alt = cv_alt v, cv_default = cv_default v,
               cv_required = cv_required v,
               cv_set = (\<lambda>s c. map_option (\<lambda>x. upd (\<lambda>_. x) c) (cv_set v s (get c)))\<rparr>) vs"

definition HTTPServerConfig_vars :: "converters \<Rightarrow> HTTPServerConfig config_var list" where
  "HTTPServerConfig_vars cv =
     [config_field ''LISTEN_PORT'' (Some ''8888'') Some hs_ListenPort_update,
      config_field ''KEEP_ALIVE_TIME'' (Some ''60s'') ParseDuration hs_KeepAliveTime_update,
      config_field ''KEEP_ALIVE_TIMEOUT'' (Some ''10s'') ParseDuration hs_KeepAliveTimeout_update,
      config_field ''READ_HEADER_TIMEOUT'' (Some ''10s'') ParseDuration hs_ReadHeaderTimeout_update,
      config_field ''READ_TIMEOUT'' (Some ''10s'') ParseDuration hs_ReadTimeout_update,
      config_field ''WRITE_TIMEOUT'' (Some ''10s'') ParseDuration hs_WriteTimeout_update,
      config_field ''MAX_REQUEST_BODY_BYTES'' (Some ''1048576'') (conv_int cv) hs_MaxRequestBodyBytes_update,
      config_field ''IP_RATE_LIMIT'' (Some ''50'') (conv_float cv) hs_IPRateLimit_update,
      config_field ''IP_RATE_BURST'' (Some ''100'') (conv_int cv) hs_IPRateBurst_update,
      config_field ''IP_RATE_LIMITER_TTL'' (Some ''10m'') ParseDuration hs_IPRateLimiterTTL_update]"

definition DatabaseConfig_vars :: "converters \<Rightarrow> DatabaseConfig config_var list" where
  "DatabaseConfig_vars cv =
     [(config_field ''POSTGRES_DSN'' None Some db_DSN_update)\<lparr>cv_required := True\<rparr>,
      config_field ''POSTGRES_MAX_OPEN_CONNS'' (Some ''10'') (conv_int cv) db_MaxOpenConns_update,
      config_field ''POSTGRES_MAX_IDLE_CONNS'' (Some ''5'') (conv_int cv) db_MaxIdleConns_update,
      config_field ''POSTGRES_MAX_LIFETIME'' (Some ''30m'') ParseDuration db_ConnMaxLifetime_update,
      config_field ''POSTGRES_QUERY_TIMEOUT'' (Some ''5s'') ParseDuration db_QueryTimeout_update]"

definition CacheConfig_vars :: "converters \<Rightarrow> CacheConfig config_var list" where
  "CacheConfig_vars cv =
     [config_field ''MEMORY_LIMIT_MB'' (Some ''1024'') (conv_int cv) cc_MemoryCacheLimitMB_update,
      config_field ''MEMORY_MONITOR_INTERVAL'' (Some ''5s'') ParseDuration cc_MemoryMonitorCacheInterval_update]"

definition Config_vars :: "converters \<Rightarrow> Config config_var list" where
  "Config_vars cv =
     [config_field ''SERVICE_NAME'' (Some ''task-service-go'') Some cfg_ServiceName_update,
      config_field ''RELEASE_ID'' None Some cfg_ReleaseID_update,
      config_field ''LOG_LEVEL'' (Some ''info'') Some cfg_LogLevel_update,
      config_field ''ROUTE_GROUP'' (Some ''/api/v1/task-service'') Some cfg_RouteGroup_update] @
     config_section ''HTTP_SERVER'' cfg_HTTPServer cfg_HTTPServer_update (HTTPServerConfig_vars cv) @
     config_section ''DB'' cfg_Database cfg_Database_update (DatabaseConfig_vars cv) @
     config_section ''CACHE'' cfg_Cache cfg_Cache_update (CacheConfig_vars cv)"

text \<open>
  The documented treatment of the tags: the text of a variable is that of its full name, else that of
  the name in the tag, else the default; a field without a text is left alone unless it is required;
  a text that cannot be converted is an error.
\<close>

definition var_text :: "environ \<Rightarrow> 'c config_var \<Rightarrow> string option" where
  "var_text e v =
     (case e (cv_key v) of
        Some s \<Rightarrow> Some s
      | None \<Rightarrow> (case e (cv_alt v) of Some s \<Rightarrow> Some s | None \<Rightarrow> cv_default v))"

fun load_vars :: "environ \<Rightarrow> 'c config_var list \<Rightarrow> 'c \<Rightarrow> 'c option" where
  "load_vars e [] c = Some c"
| "load_vars e (v # vs) c =
     (case var_text e v of
        None \<Rightarrow> if cv_required v then None else load_vars e vs c
      | Some s \<Rightarrow> Option.bind (cv_set v s c) (load_vars e vs))"

definition reads_tags :: "converters \<Rightarrow> config_pkgs \<Rightarrow> bool" where
  "reads_tags cv pkgs \<longleftrightarrow>
     (\<forall>e c. case load_vars e (Config_vars cv) c of
              Some c' \<Rightarrow> envconfig_Process pkgs [] e c = Inr c'
            | None \<Rightarrow> \<exists>err. envconfig_Process pkgs [] e c = Inl err)"

text \<open>What every conversion of Go does on a plain decimal number in range.\<close>

definition reads_decimals :: "converters \<Rightarrow> bool" where
  "reads_decimals cv \<longleftrightarrow>
     (\<forall>n < 2 ^ 63. conv_int cv (show_nat n) = Some (int n)) \<and>
     (\<forall>n \<le> 2 ^ 53. conv_float cv (show_nat n) = Some (of_nat n))"

lemma load_vars_required:
  assumes "v \<in> set vs" and "cv_required v" and "var_text e v = None"
  shows "load_vars e vs c = None"
  using assms by (induction vs arbitrary: c) (auto split: option.splits bind_splits)

lemma load_vars_refused:
  assumes "v \<in> set vs" and "var_text e v = Some s" and "\<And>c. cv_set v s c = None"
  shows "load_vars e vs c = None"
  using assms by (induction vs arbitrary: c) (auto split: option.splits bind_splits)

lemmas config_vars_defs =
  Config_vars_def HTTPServerConfig_vars_def DatabaseConfig_vars_def CacheConfig_vars_def config_field_def config_section_def

definition config_names :: "converters \<Rightarrow> string list" where
  "config_names cv = map cv_key (Config_vars cv) @ map cv_alt (Config_vars cv)"

definition dsn_names :: "string list" where
  "dsn_names = [''DB_POSTGRES_DSN'', ''POSTGRES_DSN'']"

definition duration_names :: "string list" where
  "duration_names =
     [''HTTP_SERVER_KEEP_ALIVE_TIME'', ''HTTP_SERVER_KEEP_ALIVE_TIMEOUT'', ''HTTP_SERVER_READ_HEADER_TIMEOUT'',
      ''HTTP_SERVER_READ_TIMEOUT'', ''HTTP_SERVER_WRITE_TIMEOUT'', ''HTTP_SERVER_IP_RATE_LIMITER_TTL'',
      ''DB_POSTGRES_MAX_LIFETIME'', ''DB_POSTGRES_QUERY_TIMEOUT'', ''CACHE_MEMORY_MONITOR_INTERVAL'']"

definition environ_dsn :: "environ \<Rightarrow> string option" where
  "environ_dsn e = (case e ''DB_POSTGRES_DSN'' of Some s \<Rightarrow> Some s | None \<Rightarrow> e ''POSTGRES_DSN'')"

lemma show_nat_texts:
  "show_nat 5 = ''5''" "show_nat 10 = ''10''" "show_nat 30 = ''30''" "show_nat 50 = ''50''" "show_nat 60 = ''60''"
  "show_nat 100 = ''100''" "show_nat 1024 = ''1024''" "show_nat 1048576 = ''1048576''"
  by (simp_all add: show_nat.simps digit_char_def char_of_def bit_0)

lemma default_durations:
  "ParseDuration ''60s'' = Some (60 * Second)" "ParseDuration ''10s'' = Some (10 * Second)"
  "ParseDuration ''5s'' = Some (5 * Second)" "ParseDuration ''10m'' = Some (10 * Minute)"
  "ParseDuration ''30m'' = Some (30 * Minute)"
  using ParseDuration_unit [of "''s''" 1000000000 60] ParseDuration_unit [of "''s''" 1000000000 10]
    ParseDuration_unit [of "''s''" 1000000000 5] ParseDuration_unit [of "''m''" 60000000000 10]
    ParseDuration_unit [of "''m''" 60000000000 30]
  by (simp_all add: unitMap_def show_nat_texts Second_def Minute_def)

lemma default_numbers:
  assumes "reads_decimals cv"
  shows "conv_int cv ''10'' = Some 10" "conv_int cv ''5'' = Some 5" "conv_int cv ''100'' = Some 100"
    "conv_int cv ''1024'' = Some 1024" "conv_int cv ''1048576'' = Some 1048576" "conv_float cv ''50'' = Some 50"
proof -
  have i: "conv_int cv (show_nat n) = Some (int n)" if "n < 2 ^ 63" for n
    using assms that by (simp add: reads_decimals_def)
  have f: "conv_float cv (show_nat n) = Some (of_nat n)" if "n \<le> 2 ^ 53" for n
    using assms that by (simp add: reads_decimals_def)
  show "conv_int cv ''10'' = Some 10" "conv_int cv ''5'' = Some 5" "conv_int cv ''100'' = Some 100"
    "conv_int cv ''1024'' = Some 1024" "conv_int cv ''1048576'' = Some 1048576" "conv_float cv ''50'' = Some 50"
    using i [of 10] i [of 5] i [of 100] i [of 1024] i [of 1048576] f [of 50] by (simp_all add: show_nat_texts)
qed

lemma load_defaults:
  assumes "reads_decimals cv" and "environ_dsn e = Some dsn"
    and unset: "\<And>k. k \<in> set (config_names cv) - set dsn_names \<Longrightarrow> e k = None"
  shows "load_vars e (Config_vars cv) zero_Config = Some (default_Config dsn)"
proof -
  have unset': "\<forall>k \<in> set (filter (\<lambda>k. k \<notin> set dsn_names) (config_names cv)). e k = None"
    using unset by simp
  note e = unset' [unfolded config_names_def config_vars_defs dsn_names_def, simplified]
  show ?thesis
    using e assms(2)
    by (simp add: config_vars_defs var_text_def environ_dsn_def default_durations default_numbers [OF assms(1)]
        zero_Config_def default_Config_def split: option.splits)
qed

lemma NewConfigFromFile_load:
  assumes "reads_tags cv pkgs" and "e1 = fst (dotenv_Load pkgs fileName e)"
  shows "load_vars e1 (Config_vars cv) zero_Config = Some c \<Longrightarrow> NewConfigFromFile pkgs fileName e = (e1, Inr c)"
    and "load_vars e1 (Config_vars cv) zero_Config = None \<Longrightarrow>
      \<exists>err. NewConfigFromFile pkgs fileName e = (e1, Inl (Errorf ''process env'' err))"
proof -
  note tags = assms(1) [unfolded reads_tags_def, rule_format, of e1 zero_Config]
  show "NewConfigFromFile pkgs fileName e = (e1, Inr c)" if "load_vars e1 (Config_vars cv) zero_Config = Some c"
    using tags that by (simp add: NewConfigFromFile_def assms(2) Let_def)
  show "\<exists>err. NewConfigFromFile pkgs fileName e = (e1, Inl (Errorf ''process env'' err))"
    if "load_vars e1 (Config_vars cv) zero_Config = None"
    using tags that by (auto simp: NewConfigFromFile_def assms(2) Let_def)
qed

lemma load_without_dsn:
  assumes "environ_dsn e = None"
  shows "load_vars e (Config_vars cv) c = None"
proof -
  let ?v = "Config_vars cv ! 14"
  have "?v \<in> set (Config_vars cv)" by (rule nth_mem) (simp add: config_vars_defs)
  moreover have "cv_required ?v" by (simp add: config_vars_defs)
  moreover have "var_text e ?v = None"
    using assms by (auto simp: config_vars_defs var_text_def environ_dsn_def split: option.splits)
  ultimately show ?thesis by (rule load_vars_required)
qed

lemma duration_vars:
  assumes "k \<in> set duration_names"
  obtains v where "v \<in> set (Config_vars cv)" and "cv_key v = k" and "\<And>s c. ParseDuration s = None \<Longrightarrow> cv_set v s c = None"
proof -
  let ?is = "[5, 6, 7, 8, 9, 13, 17, 18, 20] :: nat list"
  have names: "duration_names = map (\<lambda>i. cv_key (Config_vars cv ! i)) ?is"
    by (simp add: config_vars_defs duration_names_def)
  have "k \<in> (\<lambda>i. cv_key (Config_vars cv ! i)) ` set ?is"
    using assms unfolding names set_map .
  then obtain i where k: "k = cv_key (Config_vars cv ! i)" and i: "i \<in> set ?is" by (rule imageE)
  have lengths: "\<forall>i \<in> set ?is. i < length (Config_vars cv)" by (simp add: config_vars_defs)
  have sets: "\<forall>i \<in> set ?is. \<forall>s c. ParseDuration s = None \<longrightarrow> cv_set (Config_vars cv ! i) s c = None"
    by (simp add: config_vars_defs)
  show ?thesis
    by (rule that [OF nth_mem [OF lengths [THEN bspec, OF i]] k [symmetric]])
       (rule sets [THEN bspec, OF i, rule_format])
qed

lemma load_bare_duration:
  assumes "k \<in> set duration_names" and "e k = Some (show_nat n)" and "0 < n"
  shows "load_vars e (Config_vars cv) c = None"
proof -
  obtain v where "v \<in> set (Config_vars cv)" and "cv_key v = k"
    and "\<And>s c. ParseDuration s = None \<Longrightarrow> cv_set v s c = None" using duration_vars [OF assms(1)] by blast
  with assms(2,3) show ?thesis
    by (intro load_vars_refused [of v]) (auto simp: var_text_def ParseDuration_no_unit)
qed

text \<open>
  C30. Whatever \<open>.env\<close> adds to the environment, the configuration loaded from it is the one of the
  \<open>default\<close> tags when only the data source is set (under \<open>DB_POSTGRES_DSN\<close>, or \<open>POSTGRES_DSN\<close> where that
  is missing): every text in a tag is read as the value it means. Without a data source, or when one of
  the nine duration variables holds a positive number without a unit, there is no configuration and the
  error is wrapped with \<open>process env\<close>.
\<close>
theorem config_from_environment:
  assumes "reads_tags cv pkgs" and "reads_decimals cv" and "e1 = fst (dotenv_Load pkgs fileName e)"
  shows "(\<forall>dsn. environ_dsn e1 = Some dsn \<and> (\<forall>k \<in> set (config_names cv) - set dsn_names. e1 k = None) \<longrightarrow>
            NewConfigFromFile pkgs fileName e = (e1, Inr (default_Config dsn))) \<and>
         (environ_dsn e1 = None \<or> (\<exists>k \<in> set duration_names. \<exists>n > 0. e1 k = Some (show_nat n)) \<longrightarrow>
            (\<exists>err. NewConfigFromFile pkgs fileName e = (e1, Inl (Errorf ''process env'' err))))"
  using NewConfigFromFile_load [OF assms(1,3)] load_defaults [OF assms(2), of e1] load_without_dsn [of e1]
    load_bare_duration [of _ e1]
  by (intro conjI allI impI) (blast, metis)

text \<open>A processor that follows the tags and conversions of plain digits.\<close>

definition sample_converters :: converters where
  "sample_converters =
     \<lparr>conv_int = (\<lambda>s. if s \<noteq> [] \<and> list_all is_digit s then Some (int (decimal_value s)) else None),
      conv_float = (\<lambda>s. if s \<noteq> [] \<and> list_all is_digit s then Some (of_nat (decimal_value s)) else None)\<rparr>"

definition sample_config_pkgs :: config_pkgs where
  "sample_config_pkgs =
     \<lparr>dotenv_Load = (\<lambda>f e. (e, Some (ExtError ''no such file''))),
      envconfig_Process = (\<lambda>p e c. case load_vars e (Config_vars sample_converters) c of
                                     Some c' \<Rightarrow> Inr c' | None \<Rightarrow> Inl (ExtError ''envconfig''))\<rparr>"

lemma sample_config_laws: "reads_tags sample_converters sample_config_pkgs" "reads_decimals sample_converters"
  by (simp_all add: reads_tags_def reads_decimals_def sample_config_pkgs_def sample_converters_def show_nat_digits
      decimal_value_show split: option.splits)

theorem config_from_environment_witness:
  "NewConfigFromFile sample_config_pkgs ''.env'' [''POSTGRES_DSN'' \<mapsto> ''host=db''] =
     ([''POSTGRES_DSN'' \<mapsto> ''host=db''], Inr (default_Config ''host=db'')) \<and>
   (\<exists>err. NewConfigFromFile sample_config_pkgs ''.env'' Map.empty = (Map.empty, Inl (Errorf ''process env'' err))) \<and>
   (\<exists>err. NewConfigFromFile sample_config_pkgs ''.env'' [''DB_POSTGRES_QUERY_TIMEOUT'' \<mapsto> show_nat 5] =
      ([''DB_POSTGRES_QUERY_TIMEOUT'' \<mapsto> show_nat 5], Inl (Errorf ''process env'' err)))"
proof (intro conjI)
  let ?e = "[''POSTGRES_DSN'' \<mapsto> ''host=db''] :: environ"
  have load: "e = fst (dotenv_Load sample_config_pkgs ''.env'' e)" for e by (simp add: sample_config_pkgs_def)
  note loaded = config_from_environment [OF sample_config_laws load]
  have dsn: "environ_dsn ?e = Some ''host=db''" by (simp add: environ_dsn_def)
  have rest: "\<forall>k \<in> set (config_names sample_converters) - set dsn_names. ?e k = None" by (simp add: dsn_names_def)
  show "NewConfigFromFile sample_config_pkgs ''.env'' ?e = (?e, Inr (default_Config ''host=db''))"
    using loaded [of ?e, THEN conjunct1, rule_format, OF conjI [OF dsn rest]] .
  have none: "environ_dsn Map.empty = None" by (simp add: environ_dsn_def)
  show "\<exists>err. NewConfigFromFile sample_config_pkgs ''.env'' Map.empty = (Map.empty, Inl (Errorf ''process env'' err))"
    using loaded [of Map.empty, THEN conjunct2, rule_format, OF disjI1 [OF none]] .
  let ?t = "[''DB_POSTGRES_QUERY_TIMEOUT'' \<mapsto> show_nat 5] :: environ"
  have bare: "\<exists>k \<in> set duration_names. \<exists>n > 0. ?t k = Some (show_nat n)"
    by (intro bexI [of _ "''DB_POSTGRES_QUERY_TIMEOUT''"] exI [of _ 5]) (simp_all add: duration_names_def)
  show "\<exists>err. NewConfigFromFile sample_config_pkgs ''.env'' ?t = (?t, Inl (Errorf ''process env'' err))"
    using loaded [of ?t, THEN conjunct2, rule_format, OF disjI2 [OF bare]] .
qed

end
