(* ===== verification/Logging.thy ===== *)
theory Logging
  imports Go_Std
begin

text \<open>
  \<open>pkg/logging\<close>: levels, the synchronous logger and the asynchronous one. The synchronous
  methods print to a sink (the entries \<open>log.Logger\<close> formats, and whether \<open>Fatalf\<close> has ended the
  process). The asynchronous methods hand the entry to the unbuffered channel; a component that
  logs sees this as the entry it sends, in the order it sends them. What happens at the channel
  (senders waiting, the \<open>Process\<close> loop receiving, \<open>Stop\<close>) is the step relation \<open>async_step\<close>.
\<close>

subsection \<open>Levels\<close>

type_synonym level = "8 word"

definition DebugLevel :: level where "DebugLevel = 0"

definition InfoLevel :: level where "InfoLevel = 1"

definition WarnLevel :: level where "WarnLevel = 2"

definition ErrorLevel :: level where "ErrorLevel = 3"

definition FatalLevel :: level where "FatalLevel = 4"

lemmas level_defs = DebugLevel_def InfoLevel_def WarnLevel_def ErrorLevel_def FatalLevel_def

definition level_String :: "level \<Rightarrow> string" where
  "level_String l =
     (if l = DebugLevel then ''debug''
      else if l = InfoLevel then ''info''
      else if l = WarnLevel then ''warn''
      else if l = ErrorLevel then ''error''
      else if l = FatalLevel then ''fatal''
      else [])"

text \<open>The pair \<open>(level, error)\<close> of the source: on an error the level is the zero value.\<close>

definition parseLogLevel :: "string \<Rightarrow> level \<times> goerror option" where
  "parseLogLevel lvl =
     (if lvl = ''debug'' then (0, None)
      else if lvl = ''info'' then (1, None)
      else if lvl = ''warn'' then (2, None)
      else if lvl = ''error'' then (3, None)
      else if lvl = ''fatal'' then (4, None)
      else (0, Some (ErrNew ''invalid log level'')))"

subsection \<open>Entries and loggers\<close>

record Logger =
  log_Level :: level
  log_Fields :: "(string \<times> string) list"

record Entry =
  e_Level :: string
  e_Time :: time
  e_Message :: string
  e_Stack :: string
  e_Fields :: "(string \<times> string) list"

definition newEntry :: "Logger \<Rightarrow> time \<Rightarrow> level \<Rightarrow> string \<Rightarrow> Entry" where
  "newEntry l now lvl msg =
     \<lparr>e_Level = level_String lvl, e_Time = now, e_Message = msg, e_Stack = [],
      e_Fields = log_Fields l\<rparr>"

definition newEntryWithError :: "Logger \<Rightarrow> time \<Rightarrow> level \<Rightarrow> string \<Rightarrow> string \<Rightarrow> string \<Rightarrow> Entry" where
  "newEntryWithError l now lvl msg err stk =
     \<lparr>e_Level = level_String lvl, e_Time = now, e_Message = msg @ '': '' @ err, e_Stack = stk,
      e_Fields = log_Fields l\<rparr>"

definition NewLogger :: "string \<Rightarrow> string \<Rightarrow> string \<Rightarrow> goerror + Logger" where
  "NewLogger logLevel serviceName releaseID =
     (let logLevel = (if logLevel = [] then ''info'' else logLevel)
      in case parseLogLevel logLevel of
           (_, Some err) \<Rightarrow> Inl err
         | (lvl, None) \<Rightarrow>
             Inr \<lparr>log_Level = lvl,
                  log_Fields = [(''serviceName'', serviceName), (''releaseId'', releaseID)]\<rparr>)"

definition checkLevel :: "Logger \<Rightarrow> level \<Rightarrow> bool" where
  "checkLevel l lvl = (log_Level l \<le> lvl)"

subsection \<open>The synchronous logger\<close>

record sink =
  printed :: "Entry list"
  exited :: bool

definition core_Printf :: "Entry \<Rightarrow> sink \<Rightarrow> sink" where
  "core_Printf e s = s\<lparr>printed := printed s @ [e]\<rparr>"

definition core_Fatalf :: "Entry \<Rightarrow> sink \<Rightarrow> sink" where
  "core_Fatalf e s = s\<lparr>printed := printed s @ [e], exited := True\<rparr>"

text \<open>
  The state a logging component carries: the number of calls of \<open>time.Now()\<close> made so far, the
  entries sent to the asynchronous logger's channel and what \<open>log.Logger\<close> wrote to \<open>os.Stderr\<close>.
  Component states extend this record.
\<close>

record log_state =
  tick :: nat
  sent :: "Entry list"
  stderr :: sink

definition time_Now :: "env \<Rightarrow> 'a log_state_scheme \<Rightarrow> time \<times> 'a log_state_scheme" where
  "time_Now env w = (clock env (tick w), w\<lparr>tick := Suc (tick w)\<rparr>)"

definition Logger_Fatal :: "env \<Rightarrow> Logger \<Rightarrow> string \<Rightarrow> goerror \<Rightarrow> 'a log_state_scheme
    \<Rightarrow> 'a log_state_scheme" where
  "Logger_Fatal env l msg err w =
     (if \<not> checkLevel l FatalLevel then w
      else case time_Now env w of (now, w1) \<Rightarrow>
        w1\<lparr>stderr := core_Fatalf (newEntryWithError l now FatalLevel msg (error_text env err) (stack env))
             (stderr w1)\<rparr>)"

definition Logger_Error :: "env \<Rightarrow> Logger \<Rightarrow> string \<Rightarrow> goerror \<Rightarrow> 'a log_state_scheme
    \<Rightarrow> 'a log_state_scheme" where
  "Logger_Error env l msg err w =
     (if \<not> checkLevel l ErrorLevel then w
      else case time_Now env w of (now, w1) \<Rightarrow>
        w1\<lparr>stderr := core_Printf (newEntryWithError l now ErrorLevel msg (error_text env err) (stack env))
             (stderr w1)\<rparr>)"

definition Logger_Info :: "env \<Rightarrow> Logger \<Rightarrow> string \<Rightarrow> 'a log_state_scheme \<Rightarrow> 'a log_state_scheme" where
  "Logger_Info env l msg w =
     (if \<not> checkLevel l InfoLevel then w
      else case time_Now env w of (now, w1) \<Rightarrow>
        w1\<lparr>stderr := core_Printf (newEntry l now InfoLevel msg) (stderr w1)\<rparr>)"

definition Logger_Warn :: "env \<Rightarrow> Logger \<Rightarrow> string \<Rightarrow> 'a log_state_scheme \<Rightarrow> 'a log_state_scheme" where
  "Logger_Warn env l msg w =
     (if \<not> checkLevel l WarnLevel then w
      else case time_Now env w of (now, w1) \<Rightarrow>
        w1\<lparr>stderr := core_Printf (newEntry l now WarnLevel msg) (stderr w1)\<rparr>)"

definition Logger_Debug :: "env \<Rightarrow> Logger \<Rightarrow> string \<Rightarrow> 'a log_state_scheme \<Rightarrow> 'a log_state_scheme" where
  "Logger_Debug env l msg w =
     (if \<not> checkLevel l DebugLevel then w
      else case time_Now env w of (now, w1) \<Rightarrow>
        w1\<lparr>stderr := core_Printf (newEntry l now DebugLevel msg) (stderr w1)\<rparr>)"

subsection \<open>The asynchronous logger, as its callers see it\<close>

definition AsyncLogger_write :: "Entry \<Rightarrow> 'a log_state_scheme \<Rightarrow> 'a log_state_scheme" where
  "AsyncLogger_write e w = w\<lparr>sent := sent w @ [e]\<rparr>"

definition log_message :: "env \<Rightarrow> Logger \<Rightarrow> level \<Rightarrow> string \<Rightarrow> 'a log_state_scheme
    \<Rightarrow> 'a log_state_scheme" where
  "log_message env l lvl msg w =
     (if \<not> checkLevel l lvl then w
      else case time_Now env w of (now, w1) \<Rightarrow> AsyncLogger_write (newEntry l now lvl msg) w1)"

definition log_error :: "env \<Rightarrow> Logger \<Rightarrow> level \<Rightarrow> string \<Rightarrow> goerror \<Rightarrow> 'a log_state_scheme
    \<Rightarrow> 'a log_state_scheme" where
  "log_error env l lvl msg err w =
     (if \<not> checkLevel l lvl then w
      else case time_Now env w of (now, w1) \<Rightarrow>
        AsyncLogger_write (newEntryWithError l now lvl msg (error_text env err) (stack env)) w1)"

definition AsyncFatal :: "env \<Rightarrow> Logger \<Rightarrow> string \<Rightarrow> goerror \<Rightarrow> 'a log_state_scheme
    \<Rightarrow> 'a log_state_scheme" where
  "AsyncFatal env l msg err w = log_error env l FatalLevel msg err w"

definition AsyncError :: "env \<Rightarrow> Logger \<Rightarrow> string \<Rightarrow> goerror \<Rightarrow> 'a log_state_scheme
    \<Rightarrow> 'a log_state_scheme" where
  "AsyncError env l msg err w = log_error env l ErrorLevel msg err w"

definition AsyncInfo :: "env \<Rightarrow> Logger \<Rightarrow> string \<Rightarrow> 'a log_state_scheme \<Rightarrow> 'a log_state_scheme" where
  "AsyncInfo env l msg w = log_message env l InfoLevel msg w"

definition AsyncWarn :: "env \<Rightarrow> Logger \<Rightarrow> string \<Rightarrow> 'a log_state_scheme \<Rightarrow> 'a log_state_scheme" where
  "AsyncWarn env l msg w = log_message env l WarnLevel msg w"

definition AsyncDebug :: "env \<Rightarrow> Logger \<Rightarrow> string \<Rightarrow> 'a log_state_scheme \<Rightarrow> 'a log_state_scheme" where
  "AsyncDebug env l msg w = log_message env l DebugLevel msg w"

subsection \<open>The channel and the Process loop\<close>

text \<open>
  Goroutines that reached \<open>l.logChan <- e\<close> wait in \<open>waiting\<close>: the channel has no buffer, so a
  send completes only when \<open>Process\<close> receives. \<open>handed\<close> records every entry a goroutine ever
  tried to send. The \<open>select\<close> of \<open>Process\<close> may take either branch when both are ready.
\<close>

record async =
  waiting :: "Entry list"
  handed :: "Entry list"
  processing :: bool
  ctx_done :: bool
  out :: sink

definition NewAsyncLogger :: async where
  "NewAsyncLogger =
     \<lparr>waiting = [], handed = [], processing = True, ctx_done = False,
      out = \<lparr>printed = [], exited = False\<rparr>\<rparr>"

definition process_entry :: "Entry \<Rightarrow> sink \<Rightarrow> sink" where
  "process_entry e s =
     (if e_Level e = level_String FatalLevel then core_Fatalf e s else core_Printf e s)"

inductive async_step :: "async \<Rightarrow> async \<Rightarrow> bool" where
  send: "\<not> exited (out s) \<Longrightarrow>
     async_step s (s\<lparr>waiting := waiting s @ [e], handed := handed s @ [e]\<rparr>)"
| receive: "\<not> exited (out s) \<Longrightarrow> processing s \<Longrightarrow> waiting s = xs @ e # ys \<Longrightarrow>
     async_step s (s\<lparr>waiting := xs @ ys, out := process_entry e (out s)\<rparr>)"
| return: "\<not> exited (out s) \<Longrightarrow> processing s \<Longrightarrow> ctx_done s \<Longrightarrow>
     async_step s (s\<lparr>processing := False\<rparr>)"
| stop: "\<not> exited (out s) \<Longrightarrow> async_step s (s\<lparr>ctx_done := True\<rparr>)"

subsection \<open>Lemmas\<close>

lemma AsyncLogger_write_fields [simp]: "tick (AsyncLogger_write e w) = tick w" "log_state.more (AsyncLogger_write e w) = log_state.more w"
  by (simp_all add: AsyncLogger_write_def)

lemma log_more [log_simps]:
  "log_state.more (log_message env l lvl msg w) = log_state.more w"
  "log_state.more (log_error env l lvl msg err w) = log_state.more w"
  by (simp_all add: log_message_def log_error_def time_Now_def AsyncLogger_write_def)

lemma Logger_more [log_simps]:
  "log_state.more (Logger_Error env l msg err w) = log_state.more w"
  "log_state.more (Logger_Info env l msg w) = log_state.more w"
  "log_state.more (Logger_Warn env l msg w) = log_state.more w"
  by (simp_all add: Logger_Error_def Logger_Info_def Logger_Warn_def time_Now_def)

lemmas async_defs = AsyncFatal_def AsyncError_def AsyncInfo_def AsyncWarn_def AsyncDebug_def

lemma async_more [log_simps]:
  "log_state.more (AsyncFatal env l msg err w) = log_state.more w"
  "log_state.more (AsyncError env l msg err w) = log_state.more w"
  "log_state.more (AsyncInfo env l msg w) = log_state.more w"
  "log_state.more (AsyncWarn env l msg w) = log_state.more w"
  "log_state.more (AsyncDebug env l msg w) = log_state.more w"
  by (simp_all add: async_defs log_more)

lemma async_conserves:
  assumes "async_step\<^sup>*\<^sup>* NewAsyncLogger s"
  shows "mset (handed s) = mset (printed (out s)) + mset (waiting s)"
  using assms
proof (induction rule: rtranclp_induct)
  case base
  show ?case by (simp add: NewAsyncLogger_def)
next
  case (step s t)
  from step.hyps(2) step.IH show ?case
    by cases (auto simp: process_entry_def core_Printf_def core_Fatalf_def)
qed

lemma stopped_step: "async_step s t \<Longrightarrow> \<not> processing s \<Longrightarrow>
   \<not> processing t \<and> (\<exists>zs. waiting t = waiting s @ zs) \<and> out t = out s"
  by (cases rule: async_step.cases) auto

lemma stopped_forever:
  assumes "async_step\<^sup>*\<^sup>* s t" and "\<not> processing s"
  shows "\<not> processing t \<and> (\<exists>zs. waiting t = waiting s @ zs) \<and> out t = out s"
  using assms
proof (induction rule: rtranclp_induct)
  case (step t v)
  then show ?case using stopped_step [of t v] by fastforce
qed simp

subsection \<open>Properties\<close>

text \<open>
  Log levels survive the round trip through their names: parsing accepts exactly the five
  names, and the name of the parsed level is the text that was parsed.
\<close>
theorem log_level_roundtrip:
  "(parseLogLevel s = (l, None)) =
     (level_String l = s \<and> l \<in> {DebugLevel, InfoLevel, WarnLevel, ErrorLevel, FatalLevel})"
  by (auto simp: parseLogLevel_def level_String_def level_defs split: if_splits)

text \<open>
  C13. The asynchronous logger neither loses nor duplicates entries: at every moment the entries
  handed over are those printed together with those whose senders still wait.
\<close>
theorem async_log_conserves:
  assumes "async_step\<^sup>*\<^sup>* NewAsyncLogger s"
  shows "mset (handed s) = mset (printed (out s)) + mset (waiting s)"
  using assms by (rule async_conserves)

definition sample_env :: env where
  "sample_env =
     \<lparr>clock = (\<lambda>n. 1700000000000000123 + 1000000000 * int n), stack = ''goroutine 1'',
      quote = (\<lambda>s. CHR 0x22 # s @ [CHR 0x22]), validation_text = (\<lambda>_. ''invalid'')\<rparr>"

definition sample_logger :: Logger where
  "sample_logger = \<lparr>log_Level = ErrorLevel, log_Fields = []\<rparr>"

definition empty_sink :: sink where
  "empty_sink = \<lparr>printed = [], exited = False\<rparr>"

definition sample_entry :: Entry where
  "sample_entry = \<lparr>e_Level = ''info'', e_Time = 0, e_Message = [], e_Stack = [], e_Fields = []\<rparr>"

theorem async_log_conserves_witness:
  "mset (handed (NewAsyncLogger\<lparr>waiting := [sample_entry], handed := [sample_entry]\<rparr>)) =
     {#} + {#sample_entry#}"
proof -
  have "async_step NewAsyncLogger
      (NewAsyncLogger\<lparr>waiting := [sample_entry], handed := [sample_entry]\<rparr>)"
    using async_step.send [of NewAsyncLogger sample_entry] by (simp add: NewAsyncLogger_def)
  then show ?thesis using async_log_conserves [OF r_into_rtranclp] by (simp add: NewAsyncLogger_def)
qed

text \<open>
  C14. Once \<open>Process\<close> has returned, which it does at the end of the context, a sender that waits
  at the channel waits for ever: in every later state its entry is still waiting and nothing more
  is printed.
\<close>
theorem stopped_logger_blocks_senders:
  assumes "\<not> processing s" and "async_step\<^sup>*\<^sup>* s t" and "e \<in> set (waiting s)"
  shows "e \<in> set (waiting t) \<and> printed (out t) = printed (out s)"
  using stopped_forever [OF assms(2,1)] assms(3) by auto

theorem stopped_logger_blocks_senders_witness:
  "\<exists>s. async_step\<^sup>*\<^sup>* NewAsyncLogger s \<and> \<not> processing s \<and> sample_entry \<in> set (waiting s)"
proof -
  let ?a = "NewAsyncLogger\<lparr>ctx_done := True\<rparr>"
  let ?b = "?a\<lparr>processing := False\<rparr>"
  let ?c = "?b\<lparr>waiting := [sample_entry], handed := [sample_entry]\<rparr>"
  have run: "async_step NewAsyncLogger ?a" "async_step ?a ?b" "async_step ?b ?c" "async_step ?c ?c"
    using async_step.stop [of NewAsyncLogger] async_step.return [of ?a]
      async_step.send [of ?b sample_entry] async_step.stop [of ?c]
    by (simp_all add: NewAsyncLogger_def)
  have "async_step\<^sup>*\<^sup>* NewAsyncLogger ?c"
    by (rule rtranclp.rtrancl_into_rtrancl [OF rtranclp.rtrancl_into_rtrancl
          [OF r_into_rtranclp [of async_step, OF run(1)] run(2)] run(3)])
  moreover have "sample_entry \<in> set (waiting ?c)"
    using stopped_logger_blocks_senders [OF _ r_into_rtranclp [of async_step ?c ?c], of sample_entry] run
    by simp
  ultimately show ?thesis by (intro exI [of _ ?c]) (simp add: NewAsyncLogger_def)
qed

end
