(* ===== verification/Http_Router.thy ===== *)
theory Http_Router
  imports Go_Std "HOL-Library.AList"
begin

text \<open>
  The HTTP types the service touches and its own router, \<open>pkg/http/server/router.go\<close>. A handler is
  a function on the response writer and the server state; \<open>ServeHTTP\<close> picks the first registered
  route of the request's method that matches and calls its handler. The lemmas characterise
  \<open>matchPattern\<close> on templates such as \<open>/tasks/{id}\<close> by the segments of the path.
\<close>

subsection \<open>Requests and responses\<close>

text \<open>
  A request body is the bytes the client sends and the limit of an \<open>http.MaxBytesReader\<close> around
  it. \<open>req_Params\<close> is the value under the router's context key.
\<close>

record body =
  body_bytes :: string
  body_max :: "int option"

record request =
  req_Method :: string
  req_Path :: string
  req_Query :: "(string \<times> string list) list"
  req_Header :: "(string \<times> string list) list"
  req_RemoteAddr :: string
  req_Body :: body
  req_Params :: "(string \<times> string) list option"

definition MaxBytesReader :: "int \<Rightarrow> body \<Rightarrow> body" where
  "MaxBytesReader n b =
     b\<lparr>body_max := Some (case body_max b of None \<Rightarrow> n | Some k \<Rightarrow> min k n)\<rparr>"

text \<open>\<open>url.Values.Get\<close> and \<open>http.Header.Get\<close>: the first value, or the empty string.\<close>

definition first_value :: "(string \<times> string list) list \<Rightarrow> string \<Rightarrow> string" where
  "first_value m k = (case map_of m k of Some (v # _) \<Rightarrow> v | _ \<Rightarrow> [])"

text \<open>
  The response writer: headers, the status once it is written, the body so far, and the error the
  connection gives to a write, if it is broken.
\<close>

record ResponseWriter =
  rw_header :: "(string \<times> string) list"
  rw_status :: "int option"
  rw_body :: string
  rw_broken :: "goerror option"

definition fresh_writer :: ResponseWriter where
  "fresh_writer = \<lparr>rw_header = [], rw_status = None, rw_body = [], rw_broken = None\<rparr>"

definition Header_Set :: "string \<Rightarrow> string \<Rightarrow> ResponseWriter \<Rightarrow> ResponseWriter" where
  "Header_Set k v w = w\<lparr>rw_header := AList.update k v (rw_header w)\<rparr>"

definition WriteHeader :: "int \<Rightarrow> ResponseWriter \<Rightarrow> ResponseWriter" where
  "WriteHeader code w = (if rw_status w = None then w\<lparr>rw_status := Some code\<rparr> else w)"

definition Write_bytes :: "string \<Rightarrow> ResponseWriter \<Rightarrow> ResponseWriter \<times> goerror option" where
  "Write_bytes bs w =
     (let w1 = WriteHeader 200 w
      in case rw_broken w1 of
           Some err \<Rightarrow> (w1, Some err)
         | None \<Rightarrow> (w1\<lparr>rw_body := rw_body w1 @ bs\<rparr>, None))"

type_synonym 's handler = "request \<Rightarrow> ResponseWriter \<Rightarrow> 's \<Rightarrow> ResponseWriter \<times> 's"

definition StatusOK :: int where "StatusOK = 200"

definition StatusNoContent :: int where "StatusNoContent = 204"

definition StatusBadRequest :: int where "StatusBadRequest = 400"

definition StatusNotFound :: int where "StatusNotFound = 404"

definition StatusMethodNotAllowed :: int where "StatusMethodNotAllowed = 405"

definition StatusTooManyRequests :: int where "StatusTooManyRequests = 429"

definition StatusInternalServerError :: int where "StatusInternalServerError = 500"

lemmas status_codes =
  StatusOK_def StatusNoContent_def StatusBadRequest_def StatusNotFound_def
  StatusMethodNotAllowed_def StatusTooManyRequests_def StatusInternalServerError_def

subsection \<open>The router\<close>

record 's route =
  route_pattern :: string
  route_handler :: "'s handler"

text \<open>The Go map from methods to routes is an association list; its order is never observed.\<close>

record 's Router =
  routes :: "(string \<times> 's route list) list"

definition NewRouter :: "'s Router" where
  "NewRouter = \<lparr>routes = []\<rparr>"

definition routes_for :: "'s Router \<Rightarrow> string \<Rightarrow> 's route list" where
  "routes_for r m = (case map_of (routes r) m of None \<Rightarrow> [] | Some rs \<Rightarrow> rs)"

definition Register :: "string \<Rightarrow> string \<Rightarrow> 's handler \<Rightarrow> 's Router \<Rightarrow> 's Router" where
  "Register m pattern h r =
     (let m = strings_ToUpper m;
          r1 = (if routes_for r m = [] then r\<lparr>routes := AList.update m [] (routes r)\<rparr> else r)
      in r1\<lparr>routes := AList.update m (routes_for r1 m @ [\<lparr>route_pattern = pattern, route_handler = h\<rparr>])
              (routes r1)\<rparr>)"

definition strings_Contains :: "string \<Rightarrow> char \<Rightarrow> bool" where
  "strings_Contains s c = (c \<in> set s)"

fun match_loop :: "string list \<Rightarrow> string list \<Rightarrow> (string \<times> string) list option
    \<Rightarrow> bool \<times> (string \<times> string) list option" where
  "match_loop (p # ps) (x # xs) params =
     (if strings_HasPrefix p ''{'' \<and> strings_HasSuffix p ''}''
      then match_loop ps xs (Some (AList.update (strings_Trim ''{}'' p) x
             (case params of None \<Rightarrow> [] | Some m \<Rightarrow> m)))
      else if p \<noteq> x then (False, None)
      else match_loop ps xs params)"
| "match_loop _ _ params = (True, params)"

definition matchPattern :: "string \<Rightarrow> string \<Rightarrow> bool \<times> (string \<times> string) list option" where
  "matchPattern pattern path =
     (if \<not> strings_Contains pattern (CHR ''{'') \<and> \<not> strings_Contains pattern (CHR ''}'')
      then (if pattern = path then (True, None) else (False, None))
      else
        (let patternParts = strings_Split (CHR ''/'') (strings_Trim ''/'' pattern);
             pathParts = strings_Split (CHR ''/'') (strings_Trim ''/'' path)
         in if length patternParts \<noteq> length pathParts then (False, None)
            else match_loop patternParts pathParts None))"

definition addParamsToContext :: "request \<Rightarrow> (string \<times> string) list option \<Rightarrow> request" where
  "addParamsToContext req params =
     (if params = None \<or> params = Some [] then req else req\<lparr>req_Params := params\<rparr>)"

definition RequestParams :: "request \<Rightarrow> (string \<times> string) list" where
  "RequestParams r = (case req_Params r of Some params \<Rightarrow> params | None \<Rightarrow> [])"

text \<open>The loop over the routes of the method: the first match is served.\<close>

fun first_match :: "'s route list \<Rightarrow> string \<Rightarrow> ('s route \<times> (string \<times> string) list option) option" where
  "first_match [] path = None"
| "first_match (ro # rs) path =
     (case matchPattern (route_pattern ro) path of
        (True, params) \<Rightarrow> Some (ro, params)
      | (False, _) \<Rightarrow> first_match rs path)"

text \<open>The loops over the other methods: does one of their routes match?\<close>

definition other_method_matches :: "'s Router \<Rightarrow> string \<Rightarrow> string \<Rightarrow> bool" where
  "other_method_matches r m path =
     list_ex (\<lambda>(other, rs). other \<noteq> m \<and> list_ex (\<lambda>ro. fst (matchPattern (route_pattern ro) path)) rs)
       (routes r)"

definition Router_ServeHTTP :: "'s Router \<Rightarrow> 's handler" where
  "Router_ServeHTTP r req w s =
     (let path = req_Path req; m = req_Method req
      in case (case map_of (routes r) m of None \<Rightarrow> None | Some rs \<Rightarrow> first_match rs path) of
           Some (ro, params) \<Rightarrow> route_handler ro (addParamsToContext req params) w s
         | None \<Rightarrow>
             (if other_method_matches r m path then (WriteHeader StatusMethodNotAllowed w, s)
              else (WriteHeader StatusNotFound w, s)))"

subsection \<open>Templates\<close>

text \<open>A template is a list of literal and parameter segments; \<open>render\<close> writes it as a pattern.\<close>

datatype seg = Lit string | Par string

fun seg_text :: "seg \<Rightarrow> string" where
  "seg_text (Lit s) = s"
| "seg_text (Par n) = ''{'' @ n @ ''}''"

definition render :: "seg list \<Rightarrow> string" where
  "render gs = concat (map (\<lambda>g. CHR ''/'' # seg_text g) gs)"

definition plain :: "string \<Rightarrow> bool" where
  "plain s = (CHR ''/'' \<notin> set s \<and> CHR ''{'' \<notin> set s \<and> CHR ''}'' \<notin> set s)"

fun wf_seg :: "seg \<Rightarrow> bool" where
  "wf_seg (Lit s) = (s \<noteq> [] \<and> plain s)"
| "wf_seg (Par n) = plain n"

fun is_Lit :: "seg \<Rightarrow> bool" where
  "is_Lit (Lit _) = True"
| "is_Lit (Par _) = False"

definition segments :: "string \<Rightarrow> string list" where
  "segments path = strings_Split (CHR ''/'') (strings_Trim ''/'' path)"

fun seg_ok :: "seg \<Rightarrow> string \<Rightarrow> bool" where
  "seg_ok (Lit s) x = (s = x)"
| "seg_ok (Par _) x = True"

text \<open>The parameters a path binds.\<close>

fun bindings :: "seg list \<Rightarrow> string list \<Rightarrow> (string \<times> string) list option
    \<Rightarrow> (string \<times> string) list option" where
  "bindings (Par n # gs) (x # xs) params =
     bindings gs xs (Some (AList.update n x (case params of None \<Rightarrow> [] | Some m \<Rightarrow> m)))"
| "bindings (Lit _ # gs) (_ # xs) params = bindings gs xs params"
| "bindings _ _ params = params"

subsection \<open>Lemmas on matching\<close>

lemma Trim_strip:
  assumes "s \<noteq> []" and "hd s \<notin> set cs" and "last s \<notin> set cs"
  shows "strings_Trim cs s = s"
proof -
  have "dropWhile (\<lambda>c. c \<in> set cs) s = s" using assms(1,2) by (cases s) simp_all
  moreover have "dropWhile (\<lambda>c. c \<in> set cs) (rev s) = rev s"
    using assms(1,3) by (cases s rule: rev_cases) simp_all
  ultimately show ?thesis by (simp add: strings_Trim_def strings_TrimLeft_def strings_TrimRight_def)
qed

lemma Trim_Cons: "c \<in> set cs \<Longrightarrow> strings_Trim cs (c # s) = strings_Trim cs s"
  by (simp add: strings_Trim_def strings_TrimLeft_def)

lemma Trim_snoc: "c \<in> set cs \<Longrightarrow> strings_Trim cs (s @ [c]) = strings_Trim cs s"
proof (cases "\<forall>x \<in> set s. x \<in> set cs")
  assume c: "c \<in> set cs"
  case True
  then have "dropWhile (\<lambda>c. c \<in> set cs) s = []" "dropWhile (\<lambda>c. c \<in> set cs) (s @ [c]) = []"
    using c by simp_all
  then show ?thesis by (simp only: strings_Trim_def strings_TrimLeft_def)
next
  assume c: "c \<in> set cs"
  case False
  then show ?thesis using c by (auto simp: strings_Trim_def strings_TrimLeft_def strings_TrimRight_def dropWhile_append)
qed

lemma Trim_none: "set s \<inter> set cs = {} \<Longrightarrow> strings_Trim cs s = s"
proof (cases "s = []")
  assume disj: "set s \<inter> set cs = {}"
  case False
  then have "hd s \<in> set s" "last s \<in> set s" by simp_all
  then show ?thesis using False disj by (intro Trim_strip) blast+
qed (simp add: strings_Trim_def strings_TrimLeft_def strings_TrimRight_def)

lemma Trim_braces: "plain n \<Longrightarrow> strings_Trim ''{}'' (''{'' @ n @ ''}'') = n"
proof -
  assume "plain n"
  then have "strings_Trim ''{}'' n = n" by (intro Trim_none) (auto simp: plain_def)
  then show ?thesis by (simp add: Trim_Cons Trim_snoc [of "CHR ''}''" _ n, simplified])
qed

lemma seg_text_braces:
  assumes "wf_seg g"
  shows "(strings_HasPrefix (seg_text g) ''{'' \<and> strings_HasSuffix (seg_text g) ''}'') = (\<not> is_Lit g)"
proof (cases g)
  case (Lit s)
  then have "take 1 s \<noteq> ''{''" using assms by (cases s) (auto simp: plain_def)
  then show ?thesis using Lit by (simp add: strings_HasPrefix_def)
qed (simp add: strings_HasPrefix_def strings_HasSuffix_def)

lemma match_loop_bindings:
  "list_all wf_seg gs \<Longrightarrow> length xs = length gs \<Longrightarrow>
     match_loop (map seg_text gs) xs params =
       (if list_all2 seg_ok gs xs then (True, bindings gs xs params) else (False, None))"
proof (induction gs arbitrary: xs params)
  case (Cons g gs)
  then obtain x xs' where xs: "xs = x # xs'" by (cases xs) auto
  have "strings_Trim ''{}'' (seg_text (Par n)) = n" if "g = Par n" for n
    using Trim_braces [of n] Cons.prems(1) that by simp
  then show ?case
    using Cons seg_text_braces [of g] xs by (cases g) auto
qed simp

lemma seg_text_plain:
  "wf_seg g \<Longrightarrow> seg_text g \<noteq> [] \<and> CHR ''/'' \<notin> set (seg_text g)"
  by (cases g) (auto simp: plain_def)

lemma Split_render:
  "gs \<noteq> [] \<Longrightarrow> list_all wf_seg gs \<Longrightarrow>
     strings_Split (CHR ''/'') (tl (render gs)) = map seg_text gs"
proof (induction gs rule: list_nonempty_induct)
  case (single g)
  then show ?case using seg_text_plain [of g] by (simp add: render_def strings_Split_no_sep)
next
  case (cons g gs)
  then obtain t where t: "render gs = CHR ''/'' # t" by (cases gs) (auto simp: render_def)
  have "tl (render (g # gs)) = seg_text g @ CHR ''/'' # t" using t by (simp add: render_def)
  then show ?case using cons seg_text_plain [of g] t by (simp add: strings_Split_append strings_Split_no_sep)
qed

lemma last_render: "gs \<noteq> [] \<Longrightarrow> list_all wf_seg gs \<Longrightarrow> last (render gs) \<noteq> CHR ''/''"
proof (induction gs rule: rev_induct)
  case (snoc g gs)
  then have g: "seg_text g \<noteq> []" "CHR ''/'' \<notin> set (seg_text g)" using seg_text_plain [of g] by auto
  then have "last (seg_text g) \<noteq> CHR ''/''" by (metis last_in_set)
  then show ?case using g by (simp add: render_def)
qed simp

lemma segments_render:
  assumes "gs \<noteq> []" and "list_all wf_seg gs"
  shows "segments (render gs) = map seg_text gs"
proof -
  obtain g hs where gs: "gs = g # hs" using assms(1) by (cases gs) auto
  let ?t = "tl (render gs)"
  have r: "render gs = CHR ''/'' # ?t" by (simp add: render_def gs)
  have g: "seg_text g \<noteq> []" "CHR ''/'' \<notin> set (seg_text g)" using seg_text_plain [of g] assms(2) gs by auto
  then have "hd (seg_text g) \<noteq> CHR ''/''" by (metis list.set_sel(1))
  then have h: "?t \<noteq> []" "hd ?t \<noteq> CHR ''/''" using g by (simp_all add: render_def gs)
  have "last ?t \<noteq> CHR ''/''" using last_render [OF assms] h(1) r by (metis last_ConsR)
  then have "strings_Trim ''/'' (render gs) = ?t"
    using h by (subst r) (simp add: Trim_Cons Trim_strip)
  then show ?thesis using Split_render [OF assms] by (simp add: segments_def)
qed

lemma render_braces:
  assumes "list_all wf_seg gs"
  shows "(strings_Contains (render gs) (CHR ''{'') \<or> strings_Contains (render gs) (CHR ''}'')) =
     (\<not> list_all is_Lit gs)"
  using assms
proof (induction gs)
  case (Cons g gs)
  then show ?case by (cases g) (auto simp: render_def strings_Contains_def plain_def)
qed (simp add: render_def strings_Contains_def)

lemma match_render:
  assumes "gs \<noteq> []" and "list_all wf_seg gs"
  shows "matchPattern (render gs) path =
     (if list_all is_Lit gs then (path = render gs, None)
      else if list_all2 seg_ok gs (segments path) then (True, bindings gs (segments path) None)
      else (False, None))"
proof (cases "list_all is_Lit gs")
  case True
  then show ?thesis using render_braces [OF assms(2)] by (simp add: matchPattern_def)
next
  case False
  then have "\<not> (\<not> strings_Contains (render gs) (CHR ''{'') \<and> \<not> strings_Contains (render gs) (CHR ''}''))"
    using render_braces [OF assms(2)] by simp
  note m = matchPattern_def [of "render gs" path, unfolded if_not_P [OF this], folded segments_def]
  note parts = segments_render [OF assms]
  show ?thesis
  proof (cases "length (segments path) = length gs")
    case True
    then show ?thesis
      using False parts match_loop_bindings [OF assms(2) True, of None] by (simp add: m)
  next
    case len: False
    then have "\<not> list_all2 seg_ok gs (segments path)" by (auto dest: list_all2_lengthD)
    then show ?thesis
      using False parts len by (simp add: m Let_def)
  qed
qed

subsection \<open>Registration and dispatch\<close>

text \<open>A router built from a list of registrations.\<close>

definition build_router :: "(string \<times> string \<times> 's handler) list \<Rightarrow> 's Router" where
  "build_router regs = fold (\<lambda>(m, p, h). Register m p h) regs NewRouter"

definition reg_matches :: "string \<Rightarrow> string \<times> string \<times> 's handler \<Rightarrow> bool" where
  "reg_matches path = (\<lambda>(m, p, h). fst (matchPattern p path))"

definition reg_method :: "string \<times> string \<times> 's handler \<Rightarrow> string" where
  "reg_method = (\<lambda>(m, p, h). strings_ToUpper m)"

definition reg_route :: "string \<times> string \<times> 's handler \<Rightarrow> 's route" where
  "reg_route = (\<lambda>(m, p, h). \<lparr>route_pattern = p, route_handler = h\<rparr>)"

lemma routes_for_Register:
  "routes_for (Register m p h r) x =
     routes_for r x @ (if x = strings_ToUpper m then [\<lparr>route_pattern = p, route_handler = h\<rparr>] else [])"
  by (auto simp: Register_def routes_for_def Let_def update_conv' split: option.splits)

lemma keys_Register:
  "distinct (map fst (routes r)) \<Longrightarrow> distinct (map fst (routes (Register m p h r)))"
  by (simp add: Register_def Let_def distinct_update)

lemma build_snoc: "build_router (regs @ [(m, p, h)]) = Register m p h (build_router regs)"
  by (simp add: build_router_def)

lemma routes_for_build:
  "routes_for (build_router regs) x = map reg_route (filter (\<lambda>g. reg_method g = x) regs)"
proof (induction regs rule: rev_induct)
  case (snoc g regs)
  then show ?case
    by (cases g) (auto simp: build_snoc routes_for_Register reg_method_def reg_route_def)
qed (simp add: build_router_def NewRouter_def routes_for_def)

lemma keys_build: "distinct (map fst (routes (build_router regs)))"
proof (induction regs rule: rev_induct)
  case (snoc g regs)
  then show ?case by (cases g) (simp add: build_snoc keys_Register)
qed (simp add: build_router_def NewRouter_def)

lemma first_match_find:
  "first_match (map reg_route gs) path =
     map_option (\<lambda>g. (reg_route g, snd (matchPattern (fst (snd g)) path))) (find (reg_matches path) gs)"
proof (induction gs)
  case (Cons g gs)
  then show ?case
    by (cases g; cases "matchPattern (fst (snd g)) path")
       (auto simp: reg_route_def reg_matches_def split: bool.splits)
qed simp

lemma reg_route_matches [simp]:
  "fst (matchPattern (route_pattern (reg_route g)) path) = reg_matches path g"
  by (cases g) (simp add: reg_route_def reg_matches_def)

lemma other_method_build:
  "other_method_matches (build_router regs) m path =
     (\<exists>g \<in> set regs. reg_method g \<noteq> m \<and> reg_matches path g)"
proof -
  let ?r = "build_router regs"
  have in_routes: "(x, rs) \<in> set (routes ?r) \<Longrightarrow> rs = routes_for ?r x" for x rs
    using map_of_is_SomeI [OF keys_build, of x rs regs] by (simp add: routes_for_def)
  have non_empty: "routes_for ?r x \<noteq> [] \<Longrightarrow> (x, routes_for ?r x) \<in> set (routes ?r)" for x
    by (auto simp: routes_for_def split: option.splits dest: map_of_SomeD)
  have "other_method_matches ?r m path =
      (\<exists>x. x \<noteq> m \<and> (\<exists>ro \<in> set (routes_for ?r x). fst (matchPattern (route_pattern ro) path)))"
  proof
    assume "other_method_matches ?r m path"
    then obtain x rs ro where x: "(x, rs) \<in> set (routes ?r)" "x \<noteq> m" "ro \<in> set rs"
      "fst (matchPattern (route_pattern ro) path)"
      by (auto simp: other_method_matches_def list_ex_iff)
    then show "\<exists>x. x \<noteq> m \<and> (\<exists>ro \<in> set (routes_for ?r x). fst (matchPattern (route_pattern ro) path))"
      using in_routes [OF x(1)] by blast
  next
    assume "\<exists>x. x \<noteq> m \<and> (\<exists>ro \<in> set (routes_for ?r x). fst (matchPattern (route_pattern ro) path))"
    then obtain x ro where x: "x \<noteq> m" "ro \<in> set (routes_for ?r x)"
      "fst (matchPattern (route_pattern ro) path)" by blast
    then have "(x, routes_for ?r x) \<in> set (routes ?r)" using non_empty [of x] length_pos_if_in_set [OF x(2)] by simp
    then show "other_method_matches ?r m path"
      using x by (auto simp: other_method_matches_def list_ex_iff)
  qed
  also have "\<dots> = (\<exists>g \<in> set regs. reg_method g \<noteq> m \<and> reg_matches path g)"
    by (auto simp: routes_for_build)
  finally show ?thesis .
qed

lemma find_filter: "find P (filter Q xs) = find (\<lambda>x. Q x \<and> P x) xs"
  by (induction xs) auto

lemma serve_build:
  "Router_ServeHTTP (build_router regs) req w s =
     (case find (\<lambda>g. reg_method g = req_Method req \<and> reg_matches (req_Path req) g) regs of
        Some (m, p, h) \<Rightarrow> h (addParamsToContext req (snd (matchPattern p (req_Path req)))) w s
      | None \<Rightarrow>
          (WriteHeader
             (if \<exists>g \<in> set regs. reg_method g \<noteq> req_Method req \<and> reg_matches (req_Path req) g
              then StatusMethodNotAllowed else StatusNotFound) w, s))"
proof -
  let ?r = "build_router regs"
  have "(case map_of (routes ?r) (req_Method req) of None \<Rightarrow> None | Some rs \<Rightarrow> first_match rs (req_Path req)) =
      first_match (routes_for ?r (req_Method req)) (req_Path req)"
    by (simp add: routes_for_def split: option.splits)
  also have "\<dots> = map_option (\<lambda>g. (reg_route g, snd (matchPattern (fst (snd g)) (req_Path req))))
      (find (\<lambda>g. reg_method g = req_Method req \<and> reg_matches (req_Path req) g) regs)"
    by (simp add: routes_for_build first_match_find find_filter)
  finally show ?thesis
    by (auto simp: Router_ServeHTTP_def Let_def other_method_build reg_route_def split: option.splits)
qed

subsection \<open>Properties\<close>

text \<open>
  C17. \<open>matchPattern\<close> on a template: a template without parameters matches exactly itself; one with
  parameters matches a path if and only if their segments (after trimming slashes at both ends)
  agree one by one, a parameter accepting any segment, and it binds each parameter to the
  segment of the path at its position.
\<close>
theorem match_template:
  assumes "gs \<noteq> []" and "list_all wf_seg gs"
  shows "matchPattern (render gs) path =
     (if list_all is_Lit gs then (path = render gs, None)
      else if list_all2 seg_ok gs (segments path) then (True, bindings gs (segments path) None)
      else (False, None))"
  using assms by (rule match_render)

theorem match_template_witness:
  "matchPattern ''/tasks/{id}/x'' ''/tasks/17/x/'' = (True, Some [(''id'', ''17'')]) \<and>
   matchPattern ''/tasks/{id}/x'' ''/tasks/17'' = (False, None)"
  using match_template [of "[Lit ''tasks'', Par ''id'', Lit ''x'']"]
  by (simp add: render_def plain_def segments_def strings_Trim_def strings_TrimLeft_def
      strings_TrimRight_def)

text \<open>
  Dispatch of a router built by any sequence of \<open>Register\<close> calls, for any request: the first
  registration, in the order of the calls, whose (upper-cased) method is the request's and whose
  pattern matches is served, with the parameters its pattern binds; if there is none the answer
  is 405 when a registration of another method matches the path and 404 otherwise, and the server
  state does not change.
\<close>
theorem router_dispatch:
  "Router_ServeHTTP (build_router regs) req w s =
     (case find (\<lambda>g. reg_method g = req_Method req \<and> reg_matches (req_Path req) g) regs of
        Some (m, p, h) \<Rightarrow> h (addParamsToContext req (snd (matchPattern p (req_Path req)))) w s
      | None \<Rightarrow>
          (WriteHeader
             (if \<exists>g \<in> set regs. reg_method g \<noteq> req_Method req \<and> reg_matches (req_Path req) g
              then StatusMethodNotAllowed else StatusNotFound) w, s))"
  by (rule serve_build)

end
