(* ===== verification/Task_Domain.thy ===== *)
theory Task_Domain
  imports Go_Std
begin

text \<open>
  The task entity of \<open>internal/domain/task.go\<close>: the record, the constructor, the status life
  cycle and the size estimate the cache budget uses. \<open>TaskStatus\<close> is a string type in the
  source, so a status read from the database may be any string; the life-cycle theorems say what
  holds for every string and what for the five known ones. The life cycle the source documents is
  the inductive relation \<open>lifecycle\<close>, and \<open>CanTransitionTo\<close> is proved to implement it.
\<close>

subsection \<open>The entity\<close>

type_synonym TaskStatus = string

definition TaskStatusNew :: TaskStatus where
  "TaskStatusNew = ''NEW''"

definition TaskStatusInProcess :: TaskStatus where
  "TaskStatusInProcess = ''IN_PROCESS''"

definition TaskStatusPause :: TaskStatus where
  "TaskStatusPause = ''PAUSE''"

definition TaskStatusComplete :: TaskStatus where
  "TaskStatusComplete = ''COMPLETE''"

definition TaskStatusCancel :: TaskStatus where
  "TaskStatusCancel = ''CANCEL''"

lemmas status_defs =
  TaskStatusNew_def TaskStatusInProcess_def TaskStatusPause_def TaskStatusComplete_def
  TaskStatusCancel_def

record Task =
  ID :: uint64
  Name :: string
  Body :: string
  Status :: TaskStatus
  CreatedAt :: time
  UpdatedAt :: "time option"

text \<open>\<open>now\<close> is the value \<open>time.Now()\<close> returns; the fields the literal omits have zero values.\<close>

definition NewTask :: "time \<Rightarrow> string \<Rightarrow> string \<Rightarrow> Task" where
  "NewTask now name body =
     \<lparr>ID = 0, Name = name, Body = body, Status = TaskStatusNew, CreatedAt = now,
      UpdatedAt = None\<rparr>"

definition TaskStatus_String :: "TaskStatus \<Rightarrow> string" where
  "TaskStatus_String s = s"

subsection \<open>The status life cycle\<close>

definition IsValid :: "TaskStatus \<Rightarrow> bool" where
  "IsValid s =
     (s = TaskStatusNew \<or> s = TaskStatusInProcess \<or> s = TaskStatusPause \<or>
      s = TaskStatusComplete \<or> s = TaskStatusCancel)"

definition CanTransitionTo :: "TaskStatus \<Rightarrow> TaskStatus \<Rightarrow> bool" where
  "CanTransitionTo s next =
     (if \<not> IsValid next then False
      else if s = next then True
      else if next = TaskStatusCancel \<or> next = TaskStatusPause
        then s \<noteq> TaskStatusComplete \<and> s \<noteq> TaskStatusCancel
      else if next = TaskStatusInProcess then s = TaskStatusNew \<or> s = TaskStatusPause
      else if next = TaskStatusComplete then s = TaskStatusInProcess
      else False)"

text \<open>
  \<open>unsafe.Sizeof\<close> on a 64-bit platform: a task is a word, three two-word string headers, a
  three-word time and a pointer.
\<close>

definition sizeof_Time :: uint64 where
  "sizeof_Time = 24"

definition sizeof_Task :: uint64 where
  "sizeof_Task = 8 + 3 * 16 + sizeof_Time + 8"

definition Size :: "Task \<Rightarrow> uint64" where
  "Size t =
     (let size = sizeof_Task;
          size = size + of_nat (length (Name t));
          size = size + of_nat (length (Body t));
          size = size + of_nat (length (Status t))
      in if UpdatedAt t \<noteq> None then size + sizeof_Time else size)"

subsection \<open>The documented life cycle\<close>

definition terminal :: "TaskStatus \<Rightarrow> bool" where
  "terminal s = (s = TaskStatusComplete \<or> s = TaskStatusCancel)"

inductive lifecycle :: "TaskStatus \<Rightarrow> TaskStatus \<Rightarrow> bool" where
  start: "lifecycle TaskStatusNew TaskStatusInProcess"
| complete: "lifecycle TaskStatusInProcess TaskStatusComplete"
| pause: "\<not> terminal s \<Longrightarrow> s \<noteq> TaskStatusPause \<Longrightarrow> lifecycle s TaskStatusPause"
| cancel: "\<not> terminal s \<Longrightarrow> lifecycle s TaskStatusCancel"
| resume: "lifecycle TaskStatusPause TaskStatusInProcess"

inductive_simps lifecycle_iff: "lifecycle s t"

text \<open>Histories: the statuses a task goes through, each allowed by \<open>CanTransitionTo\<close>.\<close>

fun history :: "TaskStatus \<Rightarrow> TaskStatus list \<Rightarrow> bool" where
  "history s [] = True"
| "history s (t # ts) = (CanTransitionTo s t \<and> history t ts)"

subsection \<open>Lemmas\<close>

lemma status_distinct [simp]:
  "TaskStatusNew \<noteq> TaskStatusInProcess" "TaskStatusNew \<noteq> TaskStatusPause"
  "TaskStatusNew \<noteq> TaskStatusComplete" "TaskStatusNew \<noteq> TaskStatusCancel"
  "TaskStatusInProcess \<noteq> TaskStatusPause" "TaskStatusInProcess \<noteq> TaskStatusComplete"
  "TaskStatusInProcess \<noteq> TaskStatusCancel" "TaskStatusPause \<noteq> TaskStatusComplete"
  "TaskStatusPause \<noteq> TaskStatusCancel" "TaskStatusComplete \<noteq> TaskStatusCancel"
  by (simp_all add: status_defs)

lemmas status_distinct_sym [simp] = status_distinct [symmetric]

lemma NewTask_Status [simp]: "Status (NewTask now n b) = TaskStatusNew"
  by (simp add: NewTask_def)

lemma CanTransitionTo_valid: "CanTransitionTo s t \<Longrightarrow> IsValid t"
  by (simp add: CanTransitionTo_def split: if_splits)

lemma CanTransitionTo_iff: "CanTransitionTo s t \<longleftrightarrow> IsValid t \<and> (s = t \<or> lifecycle s t)"
  by (auto simp: CanTransitionTo_def IsValid_def lifecycle_iff terminal_def split: if_splits)

lemma lifecycle_terminal: "lifecycle s t \<Longrightarrow> \<not> terminal s"
  by (auto simp: lifecycle_iff terminal_def)

lemma history_terminal: "terminal s \<Longrightarrow> history s ts \<Longrightarrow> set ts \<subseteq> {s}"
proof (induction ts)
  case (Cons t ts)
  then have "t = s" by (auto simp: CanTransitionTo_iff dest: lifecycle_terminal)
  with Cons show ?case by simp
qed simp

lemma history_not_new: "s \<noteq> TaskStatusNew \<Longrightarrow> history s ts \<Longrightarrow> TaskStatusNew \<notin> set ts"
proof (induction ts arbitrary: s)
  case (Cons t ts)
  then have "t \<noteq> TaskStatusNew"
    by (auto simp: CanTransitionTo_iff lifecycle_iff)
  with Cons show ?case by auto
qed simp

lemma history_complete:
  "history s ts \<Longrightarrow> TaskStatusComplete \<in> set ts \<Longrightarrow> s \<noteq> TaskStatusComplete \<Longrightarrow>
     s = TaskStatusInProcess \<or> TaskStatusInProcess \<in> set ts"
proof (induction ts arbitrary: s)
  case (Cons t ts)
  show ?case
  proof (cases "t = TaskStatusComplete")
    case True
    with Cons.prems show ?thesis by (auto simp: CanTransitionTo_iff lifecycle_iff)
  next
    case False
    with Cons.prems Cons.IH [of t] show ?thesis by auto
  qed
qed simp

text \<open>The size as a natural number, when it fits 64 bits.\<close>

definition task_bytes :: "Task \<Rightarrow> nat" where
  "task_bytes t =
     88 + length (Name t) + length (Body t) + length (Status t)
        + (if UpdatedAt t = None then 0 else 24)"

lemma Size_of_nat: "Size t = of_nat (task_bytes t)"
  by (simp add: Size_def task_bytes_def sizeof_Task_def sizeof_Time_def Let_def)

lemma unat_Size: "task_bytes t < 2 ^ 64 \<Longrightarrow> unat (Size t) = task_bytes t"
  by (simp add: Size_of_nat unat_of_nat)

lemma history_append: "history s (xs @ t # ys) \<Longrightarrow> history s (xs @ [t]) \<and> history t ys"
  by (induction xs arbitrary: s) auto

lemma history_valid: "history s ts \<Longrightarrow> t \<in> set ts \<Longrightarrow> IsValid t"
  by (induction ts arbitrary: s) (auto dest: CanTransitionTo_valid)

subsection \<open>Properties\<close>

text \<open>
  \<open>CanTransitionTo\<close> accepts exactly the documented life cycle: the target is one of the five
  known statuses and is either the current status or reached by one of the documented steps.
\<close>
theorem transition_is_lifecycle:
  "CanTransitionTo s t \<longleftrightarrow> IsValid t \<and> (s = t \<or> lifecycle s t)"
  by (rule CanTransitionTo_iff)

text \<open>
  In every history of a task that starts as NEW and whose steps \<open>CanTransitionTo\<close> accepts,
  each status is a known one, a terminal status is never left, COMPLETE is preceded by
  IN_PROCESS, and NEW never comes back once it was left.
\<close>
theorem task_history_sound:
  assumes "history TaskStatusNew (xs @ s # ys)"
  shows "IsValid s \<and> (terminal s \<longrightarrow> set ys \<subseteq> {s}) \<and>
     (s = TaskStatusComplete \<longrightarrow> TaskStatusInProcess \<in> set xs) \<and>
     (s \<noteq> TaskStatusNew \<longrightarrow> TaskStatusNew \<notin> set ys)"
proof -
  have pre: "history TaskStatusNew (xs @ [s])" and post: "history s ys"
    using history_append [OF assms] by simp_all
  have "IsValid s" using pre by (rule history_valid) simp
  moreover have "TaskStatusInProcess \<in> set xs" if "s = TaskStatusComplete"
    using history_complete [OF pre] that by auto
  ultimately show ?thesis
    using history_terminal [OF _ post] history_not_new [OF _ post] by blast
qed

theorem task_history_sound_witness:
  "TaskStatusInProcess \<in> set [TaskStatusPause, TaskStatusInProcess]"
proof -
  have "history TaskStatusNew
      ([TaskStatusPause, TaskStatusInProcess] @ TaskStatusComplete # [TaskStatusComplete])"
    by (simp add: CanTransitionTo_def IsValid_def)
  then show ?thesis using task_history_sound by blast
qed

end
