(* ===== verification/Http_Protocol.thy ===== *)
theory Http_Protocol
  imports Logging Http_Router Task_Domain
begin

text \<open>
  The response handler of \<open>pkg/http/protocol\<close> with the request and response types of
  \<open>internal/server/dto\<close>: encoding of bodies, decoding with validation, and error responses. The
  JSON encoder and decoder are the argument \<open>codec\<close>, the validation package (a third-party module) is
  the validator of the handler; the theorems hold for all of them. \<open>Dto_Codec\<close> has the codec of Go.
\<close>

subsection \<open>Request and response types\<close>

record ListTasksQuery =
  q_Limit :: uint64
  q_Offset :: uint64

record GetTaskResponse =
  r_ID :: uint64
  r_Name :: string
  r_Body :: string
  r_Status :: string
  r_CreatedAt :: time
  r_UpdatedAt :: "time option"

record ListTasksResponse =
  l_Items :: "GetTaskResponse list"
  l_Total :: uint64
  l_Limit :: uint64
  l_Offset :: uint64

record CreateTaskRequest =
  c_Name :: string
  c_Body :: string

record CreateTaskResponse =
  c_ID :: uint64

record UpdateTaskRequest =
  u_Name :: "string option"
  u_Body :: "string option"
  u_Status :: "string option"

record ExceptionResponse =
  x_ErrorMessage :: string
  x_Status :: int
  x_Timestamp :: time

text \<open>The values the code passes as \<open>any\<close>: to the validator, and to the encoder.\<close>

datatype params = PQuery ListTasksQuery | PCreate CreateTaskRequest | PUpdate UpdateTaskRequest

datatype payload =
    BException ExceptionResponse
  | BList ListTasksResponse
  | BTask GetTaskResponse
  | BCreated CreateTaskResponse

record json_codec =
  json_Marshal :: "payload \<Rightarrow> goerror + string"
  json_DecodeCreate :: "body \<Rightarrow> goerror + CreateTaskRequest"
  json_DecodeUpdate :: "body \<Rightarrow> goerror + UpdateTaskRequest"

subsection \<open>The response handler\<close>

type_synonym validator = "params \<Rightarrow> goerror option"

record ResponseHandler =
  rh_logger :: Logger
  rh_validator :: "validator option"

definition WithValidation :: "validator \<Rightarrow> ResponseHandler \<Rightarrow> ResponseHandler" where
  "WithValidation v h = h\<lparr>rh_validator := Some v\<rparr>"

definition NewResponseHandler :: "Logger \<Rightarrow> (ResponseHandler \<Rightarrow> ResponseHandler) list
    \<Rightarrow> ResponseHandler" where
  "NewResponseHandler logger opts = fold (\<lambda>opt h. opt h) opts \<lparr>rh_logger = logger, rh_validator = None\<rparr>"

subsection \<open>Error messages\<close>

text \<open>\<open>strings.TrimSpace\<close> on bytes: the UTF-8 encodings of the characters \<open>unicode.IsSpace\<close> accepts.\<close>

definition space_codes :: "nat list list" where
  "space_codes =
     [[0x09], [0x0A], [0x0B], [0x0C], [0x0D], [0x20], [0xC2, 0x85], [0xC2, 0xA0], [0xE1, 0x9A, 0x80]] @
     map (\<lambda>b. [0xE2, 0x80, b]) ([0x80, 0x81, 0x82, 0x83, 0x84, 0x85, 0x86, 0x87, 0x88, 0x89, 0x8A] @
       [0xA8, 0xA9, 0xAF]) @
     [[0xE2, 0x81, 0x9F], [0xE3, 0x80, 0x80]]"

definition spaces :: "string list" where
  "spaces = map (map char_of) space_codes"

text \<open>Strip words of \<open>ws\<close> from the front as long as one is there.\<close>

function strip_front :: "string list \<Rightarrow> string \<Rightarrow> string" where
  "strip_front ws s =
     (case find (\<lambda>w. w \<noteq> [] \<and> strings_HasPrefix s w) ws of
        None \<Rightarrow> s
      | Some w \<Rightarrow> strip_front ws (drop (length w) s))"
  by pat_completeness auto

termination strip_front
proof (relation "measure (\<lambda>(ws, s). length s)")
  fix ws s w assume "find (\<lambda>w. w \<noteq> [] \<and> strings_HasPrefix s w) ws = Some w"
  then have "w \<noteq> []" "strings_HasPrefix s w" by (auto simp: find_Some_iff)
  then have "w \<noteq> []" "length w \<le> length s"
    by (simp_all add: strings_HasPrefix_def) (metis length_take min.cobounded1)
  then show "((ws, drop (length w) s), ws, s) \<in> measure (\<lambda>(ws, s). length s)"
    by (cases w; cases s) simp_all
qed simp

declare strip_front.simps [simp del]

definition TrimSpace :: "string \<Rightarrow> string" where
  "TrimSpace s = rev (strip_front (map rev spaces) (rev (strip_front spaces s)))"

text \<open>\<open>errors.As(err, &verrs)\<close>: the first validation error list along the chain of wrapped errors.\<close>

fun As_ValidationErrors :: "goerror \<Rightarrow> field_error list option"
and As_ValidationErrors_list :: "goerror list \<Rightarrow> field_error list option" where
  "As_ValidationErrors (ValidationErrors fes) = Some fes"
| "As_ValidationErrors (Errorf p e) = As_ValidationErrors e"
| "As_ValidationErrors (JoinError es) = As_ValidationErrors_list es"
| "As_ValidationErrors e = None"
| "As_ValidationErrors_list [] = None"
| "As_ValidationErrors_list (e # es) =
     (case As_ValidationErrors e of Some fes \<Rightarrow> Some fes | None \<Rightarrow> As_ValidationErrors_list es)"

definition formatFieldError :: "env \<Rightarrow> field_error \<Rightarrow> string" where
  "formatFieldError env fe =
     (let field = fe_Field fe
      in if fe_Tag fe = ''required'' then field @ '' is required''
         else if fe_Tag fe = ''min'' then field @ '' must be at least '' @ fe_Param fe
         else if fe_Tag fe = ''max'' then field @ '' must be at most '' @ fe_Param fe
         else if fe_Tag fe = ''gte'' then field @ '' must be >= '' @ fe_Param fe
         else if fe_Tag fe = ''lte'' then field @ '' must be <= '' @ fe_Param fe
         else field @ '' fails '' @ quote env (fe_Tag fe))"

definition flattenError :: "env \<Rightarrow> goerror option \<Rightarrow> string" where
  "flattenError env err =
     (case err of
        None \<Rightarrow> []
      | Some e \<Rightarrow>
          (case As_ValidationErrors e of
             None \<Rightarrow> error_text env e
           | Some fes \<Rightarrow> strings_Join ''; '' (map (formatFieldError env) fes)))"

definition internalServerErrorMsg :: string where
  "internalServerErrorMsg = ''internal server error''"

definition incorrectRequestErrMsg :: string where
  "incorrectRequestErrMsg = ''incorrect request''"

definition error_message :: "env \<Rightarrow> int \<Rightarrow> goerror option \<Rightarrow> string" where
  "error_message env status err =
     (let defaultMsg =
            (if status = StatusInternalServerError then internalServerErrorMsg
             else if status = StatusBadRequest then incorrectRequestErrMsg
             else [])
      in TrimSpace (defaultMsg @ '' '' @ flattenError env err))"

definition Truncate :: "duration \<Rightarrow> time \<Rightarrow> time" where
  "Truncate d t = (if d \<le> 0 then t else t - t mod d)"

subsection \<open>Sending\<close>

definition send_marshal_error :: "string \<Rightarrow> env \<Rightarrow> ResponseHandler \<Rightarrow> goerror \<Rightarrow> ResponseWriter
    \<Rightarrow> 'a log_state_scheme \<Rightarrow> ResponseWriter \<times> 'a log_state_scheme" where
  "send_marshal_error msg env h err w s =
     (let s1 = Logger_Error env (rh_logger h) msg err s;
          w1 = Header_Set ''Content-Type'' ''text/plain; charset=utf-8'' w;
          w2 = WriteHeader StatusInternalServerError w1
      in (fst (Write_bytes (error_text env err) w2), s1))"

definition send_body :: "string \<Rightarrow> env \<Rightarrow> ResponseHandler \<Rightarrow> int \<Rightarrow> string \<Rightarrow> ResponseWriter
    \<Rightarrow> 'a log_state_scheme \<Rightarrow> ResponseWriter \<times> 'a log_state_scheme" where
  "send_body msg env h status bs w s =
     (let w1 = Header_Set ''Content-Type'' ''application/json'' w;
          w2 = WriteHeader status w1
      in case Write_bytes bs w2 of
           (w3, Some writeErr) \<Rightarrow> (w3, Logger_Error env (rh_logger h) msg writeErr s)
         | (w3, None) \<Rightarrow> (w3, s))"

definition SendErrorResponse :: "env \<Rightarrow> json_codec \<Rightarrow> ResponseHandler \<Rightarrow> int \<Rightarrow> goerror option
    \<Rightarrow> ResponseWriter \<Rightarrow> 'a log_state_scheme \<Rightarrow> ResponseWriter \<times> 'a log_state_scheme" where
  "SendErrorResponse env codec h status err w s =
     (let msg = error_message env status err
      in case time_Now env s of (now, s1) \<Rightarrow>
           (case json_Marshal codec (BException \<lparr>x_ErrorMessage = msg, x_Status = status,
                   x_Timestamp = Truncate Second now\<rparr>) of
              Inl marshalErr \<Rightarrow> send_marshal_error ''SendErrorResponse: marshal'' env h marshalErr w s1
            | Inr bs \<Rightarrow> send_body ''SendErrorResponse: write'' env h status bs w s1))"

definition SendSuccessResponse :: "env \<Rightarrow> json_codec \<Rightarrow> ResponseHandler \<Rightarrow> int \<Rightarrow> payload
    \<Rightarrow> ResponseWriter \<Rightarrow> 'a log_state_scheme \<Rightarrow> ResponseWriter \<times> 'a log_state_scheme" where
  "SendSuccessResponse env codec h status b w s =
     (case json_Marshal codec b of
        Inl err \<Rightarrow> send_marshal_error ''SendSuccessResponse: marshal'' env h err w s
      | Inr bs \<Rightarrow> send_body ''SendSuccessResponse: write'' env h status bs w s)"

subsection \<open>Binding and validation\<close>

definition Validate :: "ResponseHandler \<Rightarrow> params \<Rightarrow> goerror option" where
  "Validate h ps = (case rh_validator h of None \<Rightarrow> None | Some v \<Rightarrow> v ps)"

text \<open>\<open>decode\<close> is the JSON decoder at the type of the target, and \<open>wrap\<close> its place among the values.\<close>

definition BindJSON :: "ResponseHandler \<Rightarrow> (body \<Rightarrow> goerror + 'p) \<Rightarrow> ('p \<Rightarrow> params) \<Rightarrow> body
    \<Rightarrow> goerror + 'p" where
  "BindJSON h decode wrap b =
     (case decode b of
        Inl err \<Rightarrow> Inl (Errorf ''decode body'' err)
      | Inr ps \<Rightarrow>
          (case rh_validator h of
             None \<Rightarrow> Inr ps
           | Some v \<Rightarrow> (case v (wrap ps) of Some err \<Rightarrow> Inl err | None \<Rightarrow> Inr ps)))"

subsection \<open>Lemmas\<close>

text \<open>What is stripped is a concatenation of words, and nothing more can be stripped.\<close>

lemma strip_front_spec:
  obtains us where "s = concat us @ strip_front ws s" and "set us \<subseteq> set ws"
    and "\<forall>w \<in> set ws. w \<noteq> [] \<longrightarrow> \<not> strings_HasPrefix (strip_front ws s) w"
proof -
  have "\<exists>us. s = concat us @ strip_front ws s \<and> set us \<subseteq> set ws \<and>
      (\<forall>w \<in> set ws. w \<noteq> [] \<longrightarrow> \<not> strings_HasPrefix (strip_front ws s) w)"
  proof (induction ws s rule: strip_front.induct)
    case (1 ws s)
    show ?case
    proof (cases "find (\<lambda>w. w \<noteq> [] \<and> strings_HasPrefix s w) ws")
      case None
      then have "strip_front ws s = s" by (simp add: strip_front.simps [of ws s])
      then show ?thesis using None by (intro exI [of _ "[]"]) (auto simp: find_None_iff)
    next
      case (Some w)
      then have w: "w \<in> set ws" "strings_HasPrefix s w" by (auto simp: find_Some_iff)
      then have s: "s = w @ drop (length w) s"
        by (metis append_take_drop_id strings_HasPrefix_def)
      obtain us where us: "drop (length w) s = concat us @ strip_front ws (drop (length w) s)"
        "set us \<subseteq> set ws"
        "\<forall>u \<in> set ws. u \<noteq> [] \<longrightarrow> \<not> strings_HasPrefix (strip_front ws (drop (length w) s)) u"
        using 1 [OF Some] by blast
      have "strip_front ws s = strip_front ws (drop (length w) s)"
        using Some by (simp add: strip_front.simps [of ws s])
      then show ?thesis using s us w(1) by (intro exI [of _ "w # us"]) auto
    qed
  qed
  then show ?thesis using that by blast
qed

lemma rev_HasPrefix: "strings_HasPrefix (rev s) (rev w) = strings_HasSuffix s w"
proof -
  have "(take (length w) (rev s) = rev w) = (drop (length s - length w) s = w)"
    by (metis length_rev rev_rev_ident take_rev)
  moreover have "drop (length s - length w) s = w \<Longrightarrow> length w \<le> length s"
    by (metis diff_le_self length_drop)
  ultimately show ?thesis by (auto simp: strings_HasPrefix_def strings_HasSuffix_def)
qed

lemma spaces_nonempty: "u \<in> set spaces \<Longrightarrow> u \<noteq> []"
  by (auto simp: spaces_def space_codes_def)

lemma TrimSpace_parts:
  obtains us vs where "s = concat us @ TrimSpace s @ concat vs"
    and "set us \<subseteq> set spaces" and "set vs \<subseteq> set spaces"
proof -
  let ?m = "strip_front spaces s"
  obtain us where us: "s = concat us @ ?m" "set us \<subseteq> set spaces" by (rule strip_front_spec)
  obtain vs where vs: "rev ?m = concat vs @ strip_front (map rev spaces) (rev ?m)"
    "set vs \<subseteq> set (map rev spaces)" by (rule strip_front_spec)
  have "?m = TrimSpace s @ rev (concat vs)"
    using arg_cong [OF vs(1), of rev] by (simp add: TrimSpace_def)
  also have "rev (concat vs) = concat (rev (map rev vs))" by (simp add: rev_concat rev_map)
  finally have m: "?m = TrimSpace s @ concat (rev (map rev vs))" .
  have "set (rev (map rev vs)) \<subseteq> set spaces" using vs(2) by auto
  then show ?thesis using that [of us "rev (map rev vs)"] us m by simp
qed

lemma TrimSpace_back: "u \<in> set spaces \<Longrightarrow> \<not> strings_HasSuffix (TrimSpace s) u"
proof -
  assume u: "u \<in> set spaces"
  have "\<forall>w \<in> set (map rev spaces). w \<noteq> [] \<longrightarrow>
      \<not> strings_HasPrefix (strip_front (map rev spaces) (rev (strip_front spaces s))) w"
    by (rule strip_front_spec)
  then have "\<not> strings_HasPrefix (rev (TrimSpace s)) (rev u)"
    using u spaces_nonempty [OF u] by (simp add: TrimSpace_def)
  then show ?thesis by (simp add: rev_HasPrefix)
qed

lemma TrimSpace_front: "u \<in> set spaces \<Longrightarrow> \<not> strings_HasPrefix (TrimSpace s) u"
proof
  let ?m = "strip_front spaces s"
  assume u: "u \<in> set spaces" and p: "strings_HasPrefix (TrimSpace s) u"
  obtain vs where "rev ?m = concat vs @ strip_front (map rev spaces) (rev ?m)"
    by (rule strip_front_spec)
  then have "?m = TrimSpace s @ rev (concat vs)"
    by (metis TrimSpace_def rev_append rev_rev_ident)
  moreover have "length u \<le> length (TrimSpace s)"
    using p by (metis length_take min.cobounded1 strings_HasPrefix_def)
  ultimately have "strings_HasPrefix ?m u" using p by (simp add: strings_HasPrefix_def)
  moreover have "\<forall>w \<in> set spaces. w \<noteq> [] \<longrightarrow> \<not> strings_HasPrefix ?m w" by (rule strip_front_spec)
  ultimately show False using u spaces_nonempty [OF u] by blast
qed

lemma Write_bytes_fields:
  "rw_status w = Some c \<Longrightarrow> rw_status (fst (Write_bytes bs w)) = Some c"
  "rw_header (fst (Write_bytes bs w)) = rw_header w"
  by (auto simp: Write_bytes_def WriteHeader_def Let_def split: option.splits)

lemma send_body_status:
  "rw_status w = None \<Longrightarrow> rw_status (fst (send_body msg env h status bs w s)) = Some status"
  by (auto simp: send_body_def Let_def Header_Set_def WriteHeader_def Write_bytes_def split: option.splits prod.splits)

lemma send_body_body:
  "rw_status w = None \<Longrightarrow> rw_broken w = None \<Longrightarrow>
     send_body msg env h status bs w s =
       (w\<lparr>rw_header := AList.update ''Content-Type'' ''application/json'' (rw_header w),
          rw_status := Some status, rw_body := rw_body w @ bs\<rparr>, s)"
  by (simp add: send_body_def Let_def Header_Set_def WriteHeader_def Write_bytes_def)

lemma send_body_more: "log_state.more (snd (send_body msg env h status bs w s)) = log_state.more s"
  by (auto simp: send_body_def Let_def log_simps split: prod.splits option.splits)

lemma send_marshal_error_status:
  "rw_status w = None \<Longrightarrow> rw_status (fst (send_marshal_error msg env h err w s)) = Some StatusInternalServerError"
  by (simp add: send_marshal_error_def Let_def Header_Set_def WriteHeader_def Write_bytes_fields)

lemma send_marshal_error_more: "log_state.more (snd (send_marshal_error msg env h err w s)) = log_state.more s"
  by (simp add: send_marshal_error_def Let_def log_simps)

lemma time_Now_more: "time_Now env s = (now, s1) \<Longrightarrow> log_state.more s1 = log_state.more s"
  by (auto simp: time_Now_def)

lemma SendError_more [log_simps]:
  "log_state.more (snd (SendErrorResponse env codec h status err w s)) = log_state.more s"
  by (auto simp: SendErrorResponse_def Let_def send_body_more send_marshal_error_more time_Now_more
      split: prod.splits sum.splits)

lemma SendSuccess_more [log_simps]:
  "log_state.more (snd (SendSuccessResponse env codec h status b w s)) = log_state.more s"
  by (auto simp: SendSuccessResponse_def send_body_more send_marshal_error_more split: sum.splits)

end
