(* ===== verification/Mem_Cache.thy ===== *)
theory Mem_Cache
  imports Prelude
begin

text \<open>
  The generic cache of \<open>pkg/cache/cache.go\<close>, one definition per method. \<open>items\<close> is the
  \<open>sync.Map\<close> (an association list in \<open>Range\<close> order), \<open>len\<close> the signed atomic counter,
  \<open>firstKey\<close> the atomic smallest key. The key type is any linear order \<open>'k\<close> with the
  conversion \<open>u\<close> that \<open>uint64(key)\<close> performs as an argument; the locale \<open>Ordered_key\<close> states
  what the eviction policy needs of it, and the interpretation at the end supplies the
  instance the service uses, \<open>K = uint64\<close>. The counter is an integer: it moves by one per stored
  or removed entry and cannot reach the end of the 64-bit range.

  Each method is modelled as one step here; \<open>Store\<close> does not take \<open>snapshotMu\<close>, and what that
  means when methods overlap is the subject of the theory \<open>Cache_Races\<close>.
\<close>

subsection \<open>State\<close>

text \<open>The conversion \<open>uint64(key)\<close> of the instance the service uses, \<open>K = uint64\<close>.\<close>

definition u64 :: "uint64 \<Rightarrow> uint64" where
  "u64 key = key"

record ('k, 'v) Cache =
  items :: "('k \<times> 'v) list"
  len :: int
  cleanupStartMB :: uint64
  memoryMonitorInterval :: duration
  firstKey :: uint64

subsection \<open>The threshold: float32 arithmetic\<close>

text \<open>
  \<open>float32\<close> has a 24-bit significand. \<open>round24 m\<close> rounds the natural number \<open>m\<close> to 24
  significant bits, ties to even; a number scaled by a power of two rounds in the same way.
  The constant 0.9 becomes the float \<open>15099494 / 2 ^ 24\<close>, so the product is rounded on the
  numerator, and the conversion to \<open>uint64\<close> discards the fraction.
\<close>

fun bitlen :: "nat \<Rightarrow> nat" where
  "bitlen n = (if n = 0 then 0 else Suc (bitlen (n div 2)))"

declare bitlen.simps [simp del]

definition round24 :: "nat \<Rightarrow> nat" where
  "round24 m =
     (if m < 2 ^ 24 then m
      else (let k = bitlen m - 24; q = m div 2 ^ k; r = m mod 2 ^ k; half = 2 ^ (k - 1)
            in (if half < r \<or> (half = r \<and> odd q) then q + 1 else q) * 2 ^ k))"

definition mul09 :: "nat \<Rightarrow> nat" where
  "mul09 m = round24 (round24 m * 15099494) div 2 ^ 24"

text \<open>
  A negative limit gives a negative float; Go leaves the conversion of a value outside the range
  of \<open>uint64\<close> to the implementation, which is the argument \<open>conv\<close>.
\<close>

definition cleanup_threshold :: "(int \<Rightarrow> uint64) \<Rightarrow> int \<Rightarrow> uint64" where
  "cleanup_threshold conv memoryLimitMB =
     (if 0 \<le> memoryLimitMB then of_nat (mul09 (nat memoryLimitMB))
      else if mul09 (nat (- memoryLimitMB)) = 0 then 0
      else conv memoryLimitMB)"

subsection \<open>Methods\<close>

definition Cache_New :: "(int \<Rightarrow> uint64) \<Rightarrow> int \<Rightarrow> duration \<Rightarrow> ('k, 'v) Cache" where
  "Cache_New conv memoryLimitMB interval =
     \<lparr>items = [], len = 0, cleanupStartMB = cleanup_threshold conv memoryLimitMB,
      memoryMonitorInterval = interval, firstKey = 1\<rparr>"

definition Cache_Store :: "('k \<Rightarrow> uint64) \<Rightarrow> 'k \<Rightarrow> 'v \<Rightarrow> ('k, 'v) Cache \<Rightarrow> ('k, 'v) Cache" where
  "Cache_Store u key value c =
     (case map_of (items c) key of
        None \<Rightarrow>
          (let newLen = len c + 1;
               c1 = c\<lparr>items := items c @ [(key, value)], len := newLen\<rparr>;
               first = firstKey c1
           in if newLen = 1 \<or> u key < first then c1\<lparr>firstKey := u key\<rparr> else c1)
      | Some _ \<Rightarrow> c\<lparr>items := AList.update key value (items c)\<rparr>)"

text \<open>The scan \<open>Delete\<close> makes for the new smallest key; 0 stands for "none seen yet".\<close>

definition scan_smallest :: "('k \<Rightarrow> uint64) \<Rightarrow> ('k \<times> 'v) list \<Rightarrow> uint64" where
  "scan_smallest u m =
     foldl (\<lambda>next (k, _). if next = 0 \<or> u k < next then u k else next) 0 m"

definition Cache_Delete :: "('k \<Rightarrow> uint64) \<Rightarrow> 'k \<Rightarrow> ('k, 'v) Cache \<Rightarrow> ('k, 'v) Cache" where
  "Cache_Delete u key c =
     (case map_of (items c) key of
        None \<Rightarrow> c
      | Some _ \<Rightarrow>
          (let c1 = c\<lparr>items := AList.delete key (items c), len := len c - 1\<rparr>
           in if u key = firstKey c1 then c1\<lparr>firstKey := scan_smallest u (items c1)\<rparr> else c1))"

definition Cache_Get :: "'k \<Rightarrow> ('k, 'v) Cache \<Rightarrow> 'v option" where
  "Cache_Get key c = map_of (items c) key"

text \<open>
  \<open>make([]V, 0, c.len.Load())\<close> panics when the capacity is negative, which is the result
  \<open>None\<close>.
\<close>

definition Cache_List :: "('k, 'v) Cache \<Rightarrow> ('v list \<times> uint64) option" where
  "Cache_List c = (if len c < 0 then None else Some (map snd (items c), firstKey c))"

definition Cache_Len :: "('k, 'v) Cache \<Rightarrow> uint64" where
  "Cache_Len c = (if len c < 0 then 0 else of_int (len c))"

definition Cache_FirstKey :: "('k, 'v) Cache \<Rightarrow> uint64" where
  "Cache_FirstKey c = firstKey c"

definition Cache_SetFirstKey :: "uint64 \<Rightarrow> ('k, 'v) Cache \<Rightarrow> ('k, 'v) Cache" where
  "Cache_SetFirstKey key c = c\<lparr>firstKey := key\<rparr>"

definition Cache_CleanupStartMB :: "('k, 'v) Cache \<Rightarrow> uint64" where
  "Cache_CleanupStartMB c = cleanupStartMB c"

text \<open>Go's division truncates towards zero.\<close>

definition fifth :: "int \<Rightarrow> int" where
  "fifth n = (if 0 \<le> n then n div 5 else - ((- n) div 5))"

fun cleanup_loop :: "'k list \<Rightarrow> ('k, 'v) Cache \<Rightarrow> ('k, 'v) Cache" where
  "cleanup_loop [] c = c"
| "cleanup_loop (k # ks) c =
     cleanup_loop ks (c\<lparr>items := AList.delete k (items c), len := len c - 1\<rparr>)"

definition Cache_Cleanup :: "('k::linorder \<Rightarrow> uint64) \<Rightarrow> ('k, 'v) Cache \<Rightarrow> ('k, 'v) Cache" where
  "Cache_Cleanup u c =
     (let toRemove = fifth (len c)
      in if toRemove \<le> 0 then c
         else (let keys = sort (map fst (items c))
               in if keys = [] then c
                  else (let n = min (nat toRemove) (length keys);
                            c1 = cleanup_loop (take n keys) c
                        in if n < length keys then c1\<lparr>firstKey := u (keys ! n)\<rparr>
                           else c1\<lparr>firstKey := 0\<rparr>)))"

text \<open>
  The memory monitor. What the \<open>select\<close> receives is a list of events: a tick together with the
  \<open>Alloc\<close> value \<open>runtime.ReadMemStats\<close> reports, or the end of the context. The boolean says
  whether \<open>Run\<close> has returned (it returns nil); without an interval there is no ticker.
\<close>

datatype monitor_event = Tick uint64 | CtxDone

definition over_threshold :: "('k, 'v) Cache \<Rightarrow> uint64 \<Rightarrow> bool" where
  "over_threshold c alloc = (cleanupStartMB c * 1024 * 1024 < alloc)"

fun Run_loop :: "('k::linorder \<Rightarrow> uint64) \<Rightarrow> monitor_event list \<Rightarrow> ('k, 'v) Cache
    \<Rightarrow> bool \<times> ('k, 'v) Cache" where
  "Run_loop u [] c = (False, c)"
| "Run_loop u (CtxDone # es) c = (True, c)"
| "Run_loop u (Tick alloc # es) c =
     Run_loop u es (if over_threshold c alloc then Cache_Cleanup u c else c)"

definition Cache_Run :: "('k::linorder \<Rightarrow> uint64) \<Rightarrow> monitor_event list \<Rightarrow> ('k, 'v) Cache
    \<Rightarrow> bool \<times> ('k, 'v) Cache" where
  "Cache_Run u es c =
     (if memoryMonitorInterval c \<le> 0 then (CtxDone \<in> set es, c) else Run_loop u es c)"

subsection \<open>Invariant and specification\<close>

definition cache_inv :: "('k \<Rightarrow> uint64) \<Rightarrow> ('k, 'v) Cache \<Rightarrow> bool" where
  "cache_inv u c =
     (distinct (map fst (items c)) \<and> len c = int (length (items c)) \<and>
      (items c \<noteq> [] \<longrightarrow> firstKey c = Min (u ` fst ` set (items c))))"

datatype ('k, 'v) cache_op = OpStore 'k 'v | OpDelete 'k | OpCleanup

fun apply_op :: "('k::linorder \<Rightarrow> uint64) \<Rightarrow> ('k, 'v) cache_op \<Rightarrow> ('k, 'v) Cache
    \<Rightarrow> ('k, 'v) Cache" where
  "apply_op u (OpStore k v) c = Cache_Store u k v c"
| "apply_op u (OpDelete k) c = Cache_Delete u k c"
| "apply_op u OpCleanup c = Cache_Cleanup u c"

text \<open>The abstract cache is a finite map; eviction drops the lowest fifth of its keys.\<close>

definition evict :: "('k::linorder \<rightharpoonup> 'v) \<Rightarrow> ('k \<rightharpoonup> 'v)" where
  "evict m = m |` (- set (take (card (dom m) div 5) (sorted_list_of_set (dom m))))"

fun spec_op :: "('k::linorder, 'v) cache_op \<Rightarrow> ('k \<rightharpoonup> 'v) \<Rightarrow> ('k \<rightharpoonup> 'v)" where
  "spec_op (OpStore k v) m = m(k \<mapsto> v)"
| "spec_op (OpDelete k) m = m(k := None)"
| "spec_op OpCleanup m = evict m"

subsection \<open>Lookups\<close>

lemmas [cache_simps] =
  Cache_New_def Cache_Get_def Cache_List_def Cache_Len_def Cache_FirstKey_def
  Cache_SetFirstKey_def Cache_CleanupStartMB_def

lemma Store_lookup [simp]: "map_of (items (Cache_Store u k v c)) = (map_of (items c))(k \<mapsto> v)"
  by (auto simp: Cache_Store_def Let_def update_conv' map_add_def split: option.splits)

lemma Delete_lookup [simp]: "map_of (items (Cache_Delete u k c)) = (map_of (items c))(k := None)"
  by (auto simp: Cache_Delete_def Let_def delete_conv' split: option.splits)

lemma Store_config [simp]:
  "cleanupStartMB (Cache_Store u k v c) = cleanupStartMB c"
  "memoryMonitorInterval (Cache_Store u k v c) = memoryMonitorInterval c"
  by (simp_all add: Cache_Store_def Let_def split: option.splits)

lemma Delete_config [simp]:
  "cleanupStartMB (Cache_Delete u k c) = cleanupStartMB c"
  "memoryMonitorInterval (Cache_Delete u k c) = memoryMonitorInterval c"
  by (simp_all add: Cache_Delete_def Let_def split: option.splits)

lemma cleanup_loop_eq:
  "cleanup_loop ks c =
     c\<lparr>items := filter (\<lambda>kv. fst kv \<notin> set ks) (items c), len := len c - int (length ks)\<rparr>"
proof (induction ks arbitrary: c)
  case (Cons k ks)
  have "filter (\<lambda>kv. fst kv \<notin> set ks) (AList.delete k (items c)) =
      filter (\<lambda>kv. fst kv \<notin> set (k # ks)) (items c)"
    by (auto simp: AList.delete_eq intro: filter_cong)
  then show ?case by (simp add: Cons.IH algebra_simps)
qed simp

lemma Cleanup_config [simp]:
  "cleanupStartMB (Cache_Cleanup u c) = cleanupStartMB c"
  "memoryMonitorInterval (Cache_Cleanup u c) = memoryMonitorInterval c"
  by (simp_all add: Cache_Cleanup_def Let_def cleanup_loop_eq)

lemma over_threshold_Cleanup [simp]: "over_threshold (Cache_Cleanup u c) = over_threshold c"
  by (simp add: over_threshold_def fun_eq_iff)

lemma u64_image [simp]: "u64 ` A = A"
  by (auto simp: u64_def image_iff)

lemma fifth_of_nat: "fifth (int n) = int (n div 5)"
  by (simp add: fifth_def zdiv_int)

lemma cache_invD:
  assumes "cache_inv u c"
  shows "distinct (map fst (items c))" and "len c = int (length (items c))"
    and "items c \<noteq> [] \<Longrightarrow> firstKey c = Min (u ` fst ` set (items c))"
  using assms by (simp_all add: cache_inv_def)

text \<open>What \<open>Cleanup\<close> does to a well-formed cache, with its case distinctions resolved.\<close>

lemma Cleanup_normal:
  assumes "cache_inv u c"
  defines "n \<equiv> length (items c)" and "ks \<equiv> sort (map fst (items c))"
  shows "Cache_Cleanup u c =
     (if n div 5 = 0 then c
      else c\<lparr>items := filter (\<lambda>kv. fst kv \<notin> set (take (n div 5) ks)) (items c),
             len := int n - int (n div 5), firstKey := u (ks ! (n div 5))\<rparr>)"
proof (cases "n div 5 = 0")
  case True
  then show ?thesis
    using assms(1) by (simp add: Cache_Cleanup_def cache_inv_def fifth_of_nat n_def)
next
  case False
  have l: "length ks = n" by (simp add: ks_def n_def)
  from False have "n div 5 < n" and "0 < n div 5" by simp_all
  moreover from this l have "ks \<noteq> []" by auto
  moreover have "len c = int n" using assms(1) by (simp add: cache_inv_def n_def)
  ultimately show ?thesis
    using l by (simp add: Cache_Cleanup_def fifth_of_nat cleanup_loop_eq Let_def ks_def [symmetric])
qed

lemma keys_Cleanup:
  assumes "cache_inv u c"
  defines "n \<equiv> length (items c)" and "ks \<equiv> sort (map fst (items c))"
  shows "fst ` set (items (Cache_Cleanup u c)) = set (drop (n div 5) ks)"
    and "length (items (Cache_Cleanup u c)) = n - n div 5"
proof -
  let ?low = "set (take (n div 5) ks)"
  have d: "distinct ks" and dk: "distinct (map fst (items c))" and l: "length ks = n"
    using cache_invD(1) [OF assms(1)] by (simp_all add: ks_def n_def)
  have all: "fst ` set (items c) = set (take (n div 5) ks) \<union> set (drop (n div 5) ks)"
    by (simp only: set_append [symmetric] append_take_drop_id) (simp add: ks_def)
  have disj: "?low \<inter> set (drop (n div 5) ks) = {}"
    using d by (rule set_take_disj_set_drop_if_distinct) simp
  have f: "fst ` set (filter (\<lambda>kv. fst kv \<notin> ?low) (items c)) = set (drop (n div 5) ks)"
  proof -
    have "fst ` set (filter (\<lambda>kv. fst kv \<notin> ?low) (items c)) = fst ` set (items c) - ?low"
      by auto
    then show ?thesis using all disj by auto
  qed
  have df: "distinct (map fst (filter (\<lambda>kv. fst kv \<notin> ?low) (items c)))"
    using dk by (rule distinct_map_filter)
  have "length (filter (\<lambda>kv. fst kv \<notin> ?low) (items c)) =
      card (fst ` set (filter (\<lambda>kv. fst kv \<notin> ?low) (items c)))"
    using distinct_card [OF df] by simp
  also have "\<dots> = n - n div 5"
    using distinct_card [OF distinct_drop [OF d, of "n div 5"]] l by (simp only: f) simp
  finally have lf: "length (filter (\<lambda>kv. fst kv \<notin> ?low) (items c)) = n - n div 5" .
  show "fst ` set (items (Cache_Cleanup u c)) = set (drop (n div 5) ks)"
  proof (cases "n div 5 = 0")
    case True
    then show ?thesis using Cleanup_normal [OF assms(1)] by (simp add: n_def ks_def)
  next
    case False
    then have "items (Cache_Cleanup u c) = filter (\<lambda>kv. fst kv \<notin> ?low) (items c)"
      using Cleanup_normal [OF assms(1)] by (simp add: n_def ks_def)
    then show ?thesis using f by simp
  qed
  show "length (items (Cache_Cleanup u c)) = n - n div 5"
    using Cleanup_normal [OF assms(1)] lf by (simp add: n_def ks_def)
qed

lemma Cleanup_lookup:
  assumes "cache_inv u c"
  shows "map_of (items (Cache_Cleanup u c)) = evict (map_of (items c))"
proof -
  let ?n = "length (items c)" and ?ks = "sort (map fst (items c))"
  have d: "distinct (map fst (items c))" using assms by (rule cache_invD)
  have dom: "dom (map_of (items c)) = set (map fst (items c))" by (simp add: dom_map_of_conv_image_fst)
  have ks: "sorted_list_of_set (dom (map_of (items c))) = ?ks"
    using d by (simp only: dom sorted_list_of_set_sort_remdups distinct_remdups_id)
  have card: "card (dom (map_of (items c))) = ?n"
    using distinct_card [OF d] by (simp only: dom length_map)
  have filt: "map_of (filter (\<lambda>kv. fst kv \<notin> A) m) = map_of m |` (- A)" for A and m :: "('a \<times> 'b) list"
    by (induction m) (auto simp: restrict_map_def fun_eq_iff)
  show ?thesis
    using Cleanup_normal [OF assms] by (auto simp: evict_def ks card filt)
qed

subsection \<open>The key interface\<close>

text \<open>
  What the eviction policy relies on: the conversion to \<open>uint64\<close> keeps the order of the keys.
  It holds for the unsigned key types; for a signed type a negative key converts to a large
  number.
\<close>

locale Ordered_key =
  fixes u :: "'k::linorder \<Rightarrow> uint64"
  assumes u_less: "a < b \<Longrightarrow> u a < u b"
begin

lemma u_eq_iff [simp]: "u a = u b \<longleftrightarrow> a = b"
  by (metis less_irrefl linorder_less_linear u_less)

lemma u_mono: "mono u"
  by (rule monoI) (metis antisym_conv2 order.strict_implies_order order_refl u_less)

lemma u_less_iff: "u a < u b \<longleftrightarrow> a < b"
  by (metis less_asym linorder_less_linear u_less)

lemma Min_u: "finite A \<Longrightarrow> A \<noteq> {} \<Longrightarrow> Min (u ` A) = u (Min A)"
  by (simp add: mono_Min_commute [OF u_mono])

lemma scan_from:
  "acc \<noteq> 0 \<Longrightarrow> \<forall>k \<in> fst ` set m. u k \<noteq> 0 \<Longrightarrow>
     foldl (\<lambda>next (k, _). if next = 0 \<or> u k < next then u k else next) acc m
       = Min (insert acc (u ` fst ` set m))"
proof (induction m arbitrary: acc)
  case (Cons kv m)
  obtain k v where kv: "kv = (k, v)" by force
  let ?acc = "if u k < acc then u k else acc"
  have "?acc = min acc (u k)" by (auto simp: min_def)
  moreover have "min acc (u k) \<noteq> 0" using Cons.prems by (auto simp: kv min_def)
  moreover have "Min (insert acc (insert (u k) (u ` fst ` set m)))
      = Min (insert (min acc (u k)) (u ` fst ` set m))"
    by (cases "m = []") (simp_all add: min.assoc)
  ultimately show ?case using Cons by (simp add: kv)
qed simp

lemma scan_Min:
  assumes "m \<noteq> []" and "\<forall>k \<in> fst ` set m. u k \<noteq> 0"
  shows "scan_smallest u m = Min (u ` fst ` set m)"
proof -
  obtain k v m' where m: "m = (k, v) # m'" using assms(1) by (metis list.exhaust prod.exhaust)
  then show ?thesis using scan_from [of "u k" m'] assms(2) by (simp add: scan_smallest_def)
qed

lemma inv_New [simp]: "cache_inv u (Cache_New conv limit interval)"
  by (simp add: cache_inv_def Cache_New_def)

lemma inv_Store:
  assumes "cache_inv u c"
  shows "cache_inv u (Cache_Store u k v c)"
proof (cases "k \<in> fst ` set (items c)")
  case True
  then obtain x where "map_of (items c) k = Some x" by (metis map_of_eq_None_iff not_Some_eq)
  moreover have "fst ` set (AList.update k v (items c)) = fst ` set (items c)"
    using True by (simp add: dom_update insert_absorb)
  ultimately show ?thesis
    using True assms
    by (auto simp: Cache_Store_def cache_inv_def keys_update_present length_update_present
        dest: arg_cong [where f = length])
next
  case False
  then have n: "map_of (items c) k = None" by (simp add: map_of_eq_None_iff)
  show ?thesis
  proof (cases "items c = []")
    case True
    then show ?thesis using assms n by (simp add: Cache_Store_def cache_inv_def)
  next
    case ne: False
    let ?S = "u ` fst ` set (items c)"
    have f: "firstKey c = Min ?S" and l: "len c = int (length (items c))"
      and d: "distinct (map fst (items c))"
      using assms ne by (simp_all add: cache_inv_def)
    have "Min (insert (u k) ?S) = min (u k) (firstKey c)" using ne f by simp
    moreover have "len c + 1 \<noteq> 1" using l ne by simp
    ultimately show ?thesis
      using n False d l f
      by (auto simp: Cache_Store_def cache_inv_def Let_def min_def)
  qed
qed

lemma inv_Delete:
  assumes "cache_inv u c"
  shows "cache_inv u (Cache_Delete u k c)"
proof (cases "map_of (items c) k")
  case None
  then show ?thesis using assms by (simp add: Cache_Delete_def)
next
  case (Some x)
  let ?m = "AList.delete k (items c)"
  have kin: "k \<in> fst ` set (items c)" using Some by (rule map_of_Some_in)
  have d: "distinct (map fst (items c))" and l: "len c = int (length (items c))"
    and f: "firstKey c = Min (u ` fst ` set (items c))"
    using assms kin by (auto simp: cache_inv_def)
  have keys: "fst ` set ?m = fst ` set (items c) - {k}" by (auto simp: AList.delete_eq)
  have dm: "distinct (map fst ?m)" using d by (rule distinct_delete)
  have lm: "len c - 1 = int (length ?m)" using length_delete_present [OF d kin] l by simp
  have "firstKey (Cache_Delete u k c) = Min (u ` fst ` set ?m)" if ne: "?m \<noteq> []"
  proof (cases "u k = firstKey c")
    case True
    have "\<forall>j \<in> fst ` set ?m. u j \<noteq> 0"
    proof
      fix j assume j: "j \<in> fst ` set ?m"
      then have "u k \<le> u j" and "j \<noteq> k" using f True keys by auto
      then have "u k < u j" by (simp add: order.not_eq_order_implies_strict)
      then show "u j \<noteq> 0" by auto
    qed
    with ne have "scan_smallest u ?m = Min (u ` fst ` set ?m)" by (rule scan_Min)
    with True Some show ?thesis by (simp add: Cache_Delete_def Let_def)
  next
    case False
    have sub: "u ` fst ` set ?m = u ` fst ` set (items c) - {u k}" using keys by auto
    have "Min (u ` fst ` set (items c)) \<in> u ` fst ` set (items c)"
      using kin by (intro Min_in) auto
    then have "Min (u ` fst ` set (items c)) \<in> u ` fst ` set ?m" using False f sub by auto
    then have "Min (u ` fst ` set ?m) = Min (u ` fst ` set (items c))"
      by (intro Min_eqI) (auto simp: sub)
    with False Some f show ?thesis by (simp add: Cache_Delete_def Let_def)
  qed
  moreover have "items (Cache_Delete u k c) = ?m" and "len (Cache_Delete u k c) = len c - 1"
    using Some by (simp_all add: Cache_Delete_def Let_def)
  ultimately show ?thesis using dm lm by (simp add: cache_inv_def)
qed

lemma inv_Cleanup:
  assumes "cache_inv u c"
  shows "cache_inv u (Cache_Cleanup u c)"
proof (cases "length (items c) div 5 = 0")
  case True
  then show ?thesis using assms Cleanup_normal [OF assms] by simp
next
  case False
  let ?n = "length (items c)" and ?ks = "sort (map fst (items c))"
  have lt: "?n div 5 < length ?ks" using False by simp
  have k: "fst ` set (items (Cache_Cleanup u c)) = set (drop (?n div 5) ?ks)"
    and l: "length (items (Cache_Cleanup u c)) = ?n - ?n div 5"
    by (rule keys_Cleanup [OF assms])+
  have "Min (u ` set (drop (?n div 5) ?ks)) = u (?ks ! (?n div 5))"
    using lt by (subst Min_u) (simp_all add: Min_drop_sorted)
  moreover have "distinct (map fst (items (Cache_Cleanup u c)))"
    using False Cleanup_normal [OF assms] cache_invD(1) [OF assms]
    by (simp add: distinct_map_filter)
  moreover have "int (?n - ?n div 5) = int ?n - int (?n div 5)"
    by (simp add: of_nat_diff)
  ultimately show ?thesis
    using False Cleanup_normal [OF assms] k l by (simp add: cache_inv_def)
qed

lemma inv_apply_op: "cache_inv u c \<Longrightarrow> cache_inv u (apply_op u x c)"
  by (cases x) (simp_all add: inv_Store inv_Delete inv_Cleanup)

lemma inv_run_ops: "cache_inv u c \<Longrightarrow> cache_inv u (fold (apply_op u) ops c)"
  by (induction ops arbitrary: c) (simp_all add: inv_apply_op)

lemma refines_op:
  "cache_inv u c \<Longrightarrow> map_of (items (apply_op u x c)) = spec_op x (map_of (items c))"
  by (cases x) (simp_all add: Cleanup_lookup)

lemma refines_ops:
  "cache_inv u c \<Longrightarrow>
     map_of (items (fold (apply_op u) ops c)) = fold spec_op ops (map_of (items c))"
  by (induction ops arbitrary: c) (simp_all add: inv_apply_op refines_op)

lemma inv_Run_loop: "cache_inv u c \<Longrightarrow> cache_inv u (snd (Run_loop u es c))"
proof (induction es arbitrary: c)
  case (Cons e es)
  then show ?case by (cases e) (simp_all add: inv_Cleanup)
qed simp

end

interpretation u64_key: Ordered_key u64
  by unfold_locales (simp add: u64_def)

subsection \<open>The rounding is nearest\<close>

lemma bitlen_bounds: "0 < m \<Longrightarrow> 2 ^ (bitlen m - 1) \<le> m \<and> m < 2 ^ bitlen m"
proof (induction m rule: bitlen.induct)
  case (1 m)
  show ?case
  proof (cases "m div 2 = 0")
    case True
    then have "m = 1" using "1.prems" by simp
    then show ?thesis by (simp add: bitlen.simps [of "Suc 0"] bitlen.simps [of 0])
  next
    case False
    with 1 have IH: "2 ^ (bitlen (m div 2) - 1) \<le> m div 2 \<and> m div 2 < 2 ^ bitlen (m div 2)" by simp
    have b: "bitlen m = Suc (bitlen (m div 2))" using "1.prems" by (simp add: bitlen.simps [of m])
    have "0 < bitlen (m div 2)" using False by (simp add: bitlen.simps [of "m div 2"])
    then have "2 ^ bitlen (m div 2) = 2 * (2::nat) ^ (bitlen (m div 2) - 1)"
      by (rule two_power_half)
    with IH show ?thesis by (simp add: b) linarith
  qed
qed

lemma round24_nearest:
  fixes p :: nat
  assumes "2 ^ 24 \<le> p"
  obtains k where "0 < k" and "2 ^ (23 + k) \<le> p" and "p < 2 ^ (24 + k)"
    and "round24 p \<le> p + 2 ^ (k - 1)"
    and "\<And>M. 2 ^ k dvd M \<Longrightarrow> M < p + 2 ^ (k - 1) \<Longrightarrow> M \<le> round24 p"
proof -
  define k where "k = bitlen p - 24"
  have b: "2 ^ (bitlen p - 1) \<le> p" "p < 2 ^ bitlen p" using bitlen_bounds [of p] assms by simp_all
  have "24 < bitlen p"
  proof (rule ccontr)
    assume "\<not> 24 < bitlen p"
    then have "(2::nat) ^ bitlen p \<le> 2 ^ 24" by (intro power_increasing) simp_all
    with b assms show False by linarith
  qed
  then have kb: "bitlen p = 24 + k" "0 < k" by (simp_all add: k_def)
  have half: "2 ^ k = 2 * (2::nat) ^ (k - 1)" using kb(2) by (rule two_power_half)
  let ?q = "p div 2 ^ k" and ?r = "p mod 2 ^ k"
  let ?c = "if 2 ^ (k - 1) < ?r \<or> (2 ^ (k - 1) = ?r \<and> odd ?q) then ?q + 1 else ?q"
  have R: "round24 p = ?c * 2 ^ k"
    using assms unfolding round24_def Let_def k_def [symmetric] by (simp only: not_less [symmetric] if_False)
  have p: "p = ?q * 2 ^ k + ?r" by (rule div_mult_mod_eq [symmetric])
  have r: "?r < 2 ^ k" by simp
  have "round24 p \<le> p + 2 ^ (k - 1)"
    using p r half unfolding R by (auto simp: algebra_simps)
  moreover have "M \<le> round24 p" if M: "2 ^ k dvd M" "M < p + 2 ^ (k - 1)" for M
  proof -
    obtain j where j: "M = j * 2 ^ k" using M(1) by (metis dvdE mult.commute)
    have "j \<le> ?c"
    proof (cases "j \<le> ?q")
      case False
      then have "(?q + 1) * 2 ^ k \<le> M" unfolding j by (intro mult_le_mono1) simp
      then have "2 ^ (k - 1) < ?r" using M(2) p half by (simp add: algebra_simps)
      moreover have "j < ?q + 2"
      proof (rule ccontr)
        assume "\<not> j < ?q + 2"
        then have "(?q + 2) * 2 ^ k \<le> M" unfolding j by (intro mult_le_mono1) simp
        then have "?q * 2 ^ k + 2 * 2 ^ k \<le> M" by (simp only: add_mult_distrib)
        then show False using M(2) p r half by linarith
      qed
      ultimately show ?thesis by simp
    qed simp
    then show ?thesis unfolding R j by (intro mult_le_mono1)
  qed
  moreover have "2 ^ (23 + k) \<le> p" "p < 2 ^ (24 + k)" using b kb by simp_all
  ultimately show ?thesis using that [of k] kb(2) by blast
qed

lemma mul09_exact:
  assumes "m \<le> 2 ^ 21"
  shows "mul09 m = 9 * m div 10"
proof -
  let ?p = "m * 15099494" and ?q = "9 * m div 10"
  have m: "round24 m = m" using assms by (simp add: round24_def)
  have ps: "10 * ?p + 4 * m = 9 * m * 2 ^ 24" by simp
  have q: "10 * ?q \<le> 9 * m" "9 * m \<le> 10 * ?q + 9" by simp_all
  show ?thesis
  proof (cases "?p < 2 ^ 24")
    case True
    then have "m = 0 \<or> m = 1" by (simp, arith)
    then show ?thesis by (auto simp: mul09_def m) (simp_all add: round24_def)
  next
    case False
    then obtain k where k: "0 < k" "2 ^ (23 + k) \<le> ?p" "?p < 2 ^ (24 + k)"
      and up: "round24 ?p \<le> ?p + 2 ^ (k - 1)"
      and lo: "\<And>M. 2 ^ k dvd M \<Longrightarrow> M < ?p + 2 ^ (k - 1) \<Longrightarrow> M \<le> round24 ?p"
      using round24_nearest [of ?p] by (metis not_less)
    have "(2::nat) ^ (23 + k) < 2 ^ 45" using k(2) assms by (rule_tac le_less_trans) auto
    then have "23 + k < 45" by (rule power_less_imp_less_exp [rotated]) simp
    then have k21: "k \<le> 21" by simp
    then have h20: "(2::nat) ^ (k - 1) \<le> 2 ^ 20" by (intro power_increasing) simp_all
    have half: "2 ^ k = 2 * (2::nat) ^ (k - 1)" using k(1) by (rule two_power_half)
    have "?q * 2 ^ 24 \<le> round24 ?p"
    proof (rule lo)
      show "2 ^ k dvd ?q * 2 ^ 24" using k21 by (intro dvd_mult le_imp_power_dvd) simp
      have "15099494 * m < 2 ^ 24 * 2 ^ k" using k(3) by (simp add: power_add mult.commute)
      then have "4 * m < 5 * 2 ^ k" by simp
      then show "?q * 2 ^ 24 < ?p + 2 ^ (k - 1)" using ps q(1) half by simp
    qed
    moreover have "round24 ?p < (?q + 1) * 2 ^ 24" using up h20 ps q(2) by simp
    ultimately show ?thesis unfolding mul09_def m by (intro div_nat_eqI) (simp_all add: mult.commute)
  qed
qed

subsection \<open>Repeated eviction\<close>

lemma Run_loop_pressure:
  fixes c :: "(uint64, 'v) Cache"
  assumes "cache_inv u64 c" and "list_all (over_threshold c) allocs"
  shows "fst (Run_loop u64 (map Tick allocs @ [CtxDone]) c) \<and>
     length (items (snd (Run_loop u64 (map Tick allocs @ [CtxDone]) c)))
       \<le> max 4 (length (items c) - length allocs)"
  using assms
proof (induction allocs arbitrary: c)
  case Nil
  then show ?case by simp
next
  case (Cons a as)
  let ?c = "Cache_Cleanup u64 c"
  have inv: "cache_inv u64 ?c" and over: "list_all (over_threshold ?c) as"
    using Cons.prems by (simp_all add: u64_key.inv_Cleanup)
  have "length (items ?c) = length (items c) - length (items c) div 5"
    using Cons.prems(1) by (rule keys_Cleanup)
  then have "length (items ?c) - length as \<le> max 4 (length (items c) - Suc (length as))"
    by linarith
  moreover have "Run_loop u64 (map Tick (a # as) @ [CtxDone]) c =
      Run_loop u64 (map Tick as @ [CtxDone]) ?c"
    using Cons.prems(2) by simp
  ultimately show ?case
    using Cons.IH [OF inv over] unfolding list.size(4) max_def by (auto split: if_splits)
qed

subsection \<open>Properties\<close>

text \<open>
  C8. After any sequence of \<open>Store\<close>, \<open>Delete\<close> and \<open>Cleanup\<close> calls on a new cache, \<open>Get\<close> answers
  exactly as a finite map does on which the same calls insert, remove, and drop the lowest fifth
  of the keys (rounded down).
\<close>
theorem cache_refines_map:
  "Cache_Get k (fold (apply_op u64) ops (Cache_New conv limit interval)) =
     fold spec_op ops Map.empty k"
proof -
  have "map_of (items (fold (apply_op u64) ops (Cache_New conv limit interval))) =
      fold spec_op ops (map_of (items (Cache_New conv limit interval :: (uint64, 'a) Cache)))"
    by (rule u64_key.refines_ops) simp
  then show ?thesis by (simp add: Cache_Get_def Cache_New_def)
qed

text \<open>
  C9. In every state such a sequence reaches, the counters agree with the contents: \<open>Len\<close> is the
  number of entries, \<open>List\<close> does not panic and returns each value once, and \<open>FirstKey\<close> is the
  smallest stored key whenever there is one.
\<close>
theorem cache_counters_agree:
  fixes ops :: "(uint64, 'v) cache_op list" and conv limit interval
  defines "c \<equiv> fold (apply_op u64) ops (Cache_New conv limit interval)"
  shows "distinct (map fst (items c)) \<and>
     Cache_Len c = of_nat (card (dom (fold spec_op ops Map.empty))) \<and>
     Cache_List c = Some (map snd (items c), Cache_FirstKey c) \<and>
     (dom (fold spec_op ops Map.empty) \<noteq> {} \<longrightarrow>
        Cache_FirstKey c = Min (dom (fold spec_op ops Map.empty)))"
proof -
  have inv: "cache_inv u64 c" unfolding c_def by (rule u64_key.inv_run_ops) simp
  have "map_of (items c) = fold spec_op ops (map_of (items (Cache_New conv limit interval :: (uint64, 'v) Cache)))"
    unfolding c_def by (rule u64_key.refines_ops) simp
  then have m: "map_of (items c) = fold spec_op ops Map.empty" by (simp add: Cache_New_def)
  have d: "dom (fold spec_op ops Map.empty) = fst ` set (items c)"
    by (simp add: m [symmetric] dom_map_of_conv_image_fst)
  have "card (fst ` set (items c)) = length (items c)"
    using distinct_card [OF cache_invD(1) [OF inv]] by simp
  then show ?thesis
    using inv d by (auto simp: cache_inv_def cache_simps)
qed

theorem cache_counters_agree_witness:
  "Cache_FirstKey (fold (apply_op u64) [OpStore 7 (), OpStore 3 (), OpDelete 3]
     (Cache_New (\<lambda>_. 0) 128 Second)) = 7"
proof -
  have d: "dom (fold spec_op [OpStore (7::uint64) (), OpStore 3 (), OpDelete 3] Map.empty) = {7}"
    by (auto split: if_splits)
  show ?thesis
    using cache_counters_agree
      [of "[OpStore 7 (), OpStore 3 (), OpDelete 3]" "\<lambda>_. 0" 128 Second]
    unfolding d by simp
qed

text \<open>
  C10. \<open>Cleanup\<close> on a well-formed cache removes exactly \<open>n div 5\<close> of its \<open>n\<close> entries, every
  removed key is smaller than every key that stays, and the entries that stay keep their values.
\<close>
theorem cleanup_evicts_lowest_fifth:
  assumes "cache_inv u64 c"
  defines "c' \<equiv> Cache_Cleanup u64 c"
  shows "length (items c') = length (items c) - length (items c) div 5 \<and>
     (\<forall>k \<in> fst ` set (items c) - fst ` set (items c'). \<forall>j \<in> fst ` set (items c'). k < j) \<and>
     (\<forall>k \<in> fst ` set (items c'). Cache_Get k c' = Cache_Get k c)"
proof -
  let ?n = "length (items c) div 5" and ?ks = "sort (map fst (items c))"
  have d: "distinct (map fst (items c))" using assms(1) by (rule cache_invD)
  have kept: "fst ` set (items c') = set (drop ?n ?ks)"
    unfolding c'_def by (rule keys_Cleanup(1) [OF assms(1)])
  have "fst ` set (items c) = set (take ?n ?ks) \<union> set (drop ?n ?ks)"
    by (simp only: set_append [symmetric] append_take_drop_id) simp
  then have gone: "fst ` set (items c) - fst ` set (items c') \<subseteq> set (take ?n ?ks)"
    using kept by auto
  have "Cache_Get k c' = Cache_Get k c" if "k \<in> fst ` set (items c')" for k
  proof -
    have "map_of (items c') k \<noteq> None" using that by (simp add: map_of_eq_None_iff)
    then show ?thesis
      using Cleanup_lookup [OF assms(1)]
      by (simp add: c'_def Cache_Get_def evict_def restrict_map_def split: if_splits)
  qed
  moreover have "k < j" if "k \<in> fst ` set (items c) - fst ` set (items c')"
    and "j \<in> fst ` set (items c')" for k j
    using sort_key_take_less [OF d] that gone kept by blast
  ultimately show ?thesis
    using keys_Cleanup(2) [OF assms(1)] by (auto simp: c'_def)
qed

theorem cleanup_evicts_lowest_fifth_witness:
  "length (items (Cache_Cleanup u64 (fold (\<lambda>k. Cache_Store u64 k ())
     [5, 4, 3, 2, 1] (Cache_New (\<lambda>_. 0) 128 Second)))) = 4"
proof -
  let ?c = "fold (\<lambda>k. Cache_Store u64 k ()) [5, 4, 3, 2, 1] (Cache_New (\<lambda>_. 0) 128 Second)"
  have inv: "cache_inv u64 ?c" by (simp add: u64_key.inv_Store)
  have "length (items ?c) = 5" by (simp add: Cache_Store_def Cache_New_def Let_def u64_def)
  then show ?thesis using cleanup_evicts_lowest_fifth [OF inv] by simp
qed

text \<open>
  C11. The eviction threshold computed in single precision, \<open>uint64(float32(limit) * 0.9)\<close>, is
  the exact 90 percent rounded down for every limit up to 2 TiB: the rounding error of the
  constant and of the product never reaches the next integer.
\<close>
theorem cleanup_threshold_exact:
  assumes "0 \<le> limit" and "limit \<le> 2 ^ 21"
  shows "uint (Cache_CleanupStartMB (Cache_New conv limit interval)) = 9 * limit div 10"
proof -
  obtain m where m: "limit = int m" using assms(1) by (metis nonneg_int_cases)
  with assms(2) have "m \<le> 2 ^ 21" by simp
  then have "mul09 m = 9 * m div 10" by (rule mul09_exact)
  moreover have "9 * m div 10 < 2 ^ 64" using \<open>m \<le> 2 ^ 21\<close> by simp
  ultimately show ?thesis
    by (simp add: m Cache_CleanupStartMB_def Cache_New_def cleanup_threshold_def
        uint_nat unat_of_nat zdiv_int)
qed

theorem cleanup_threshold_exact_witness:
  "uint (Cache_CleanupStartMB (Cache_New (\<lambda>_. 0) 1024 Second)) = 921"
  using cleanup_threshold_exact [of 1024 "\<lambda>_. 0" Second] by simp

text \<open>
  C12. The memory monitor relieves pressure: when it runs with a positive interval and every tick
  finds the heap above the threshold, then after at least as many ticks as there were entries it
  has returned at the end of the context and left at most four entries in a well-formed cache.
\<close>
theorem monitor_relieves_pressure:
  fixes c :: "(uint64, 'v) Cache"
  assumes "cache_inv u64 c" and "0 < memoryMonitorInterval c"
    and "list_all (over_threshold c) allocs" and "length (items c) \<le> length allocs"
  shows "\<exists>c'. Cache_Run u64 (map Tick allocs @ [CtxDone]) c = (True, c') \<and> cache_inv u64 c' \<and>
     length (items c') \<le> 4"
proof -
  let ?r = "Run_loop u64 (map Tick allocs @ [CtxDone]) c"
  have "fst ?r" and "length (items (snd ?r)) \<le> 4"
    using Run_loop_pressure [OF assms(1,3)] assms(4) by simp_all
  moreover have "cache_inv u64 (snd ?r)" using assms(1) by (rule u64_key.inv_Run_loop)
  moreover have "Cache_Run u64 (map Tick allocs @ [CtxDone]) c = ?r"
    using assms(2) by (simp add: Cache_Run_def)
  ultimately show ?thesis by (metis (full_types) prod.collapse)
qed

theorem monitor_relieves_pressure_witness:
  "\<exists>c'. Cache_Run u64 (map Tick [500000000] @ [CtxDone])
     (Cache_Store u64 9 () (Cache_New (\<lambda>_. 0) 10 Second)) = (True, c') \<and> cache_inv u64 c' \<and>
     length (items c') \<le> 4"
proof (rule monitor_relieves_pressure)
  let ?c = "Cache_Store u64 9 () (Cache_New (\<lambda>_. 0) 10 Second)"
  show "cache_inv u64 ?c" by (simp add: u64_key.inv_Store)
  show "0 < memoryMonitorInterval ?c" by (simp add: Cache_New_def Second_def)
  have "mul09 10 = 9" using mul09_exact [of 10] by simp
  then show "list_all (over_threshold ?c) [500000000]"
    by (simp add: over_threshold_def Cache_New_def cleanup_threshold_def)
  show "length (items ?c) \<le> length [500000000::uint64]"
    by (simp add: Cache_Store_def Cache_New_def)
qed

end
