(* ===== verification/Task_Repository.thy ===== *)
theory Task_Repository
  imports Task_Domain
begin

text \<open>
  The repository port of \<open>internal/ports/task_repository.go\<close> and its PostgreSQL adapter
  \<open>internal/adapters/repositories/task_repository.go\<close>. The database handle is a parameter: a
  \<open>sqldb\<close> is the pair of calls \<open>QueryContext\<close> and \<open>ExecContext\<close> of \<open>*sql.DB\<close> as functions on a
  database state. They receive the very statement texts and arguments the code passes; the
  deadline of the query context only decides whether a call fails, which the result says.

  The locale \<open>tasks_table\<close> lists what the adapter relies on: the meaning of its statements on
  the table of \<open>db/migrations\<close>. The locale \<open>task_repository\<close> is the contract of the port over an
  abstract map from ids to tasks, and the adapter is proved to provide it for every database
  that satisfies \<open>tasks_table\<close>. A reference table with injected failures shows that the
  assumptions can be met.
\<close>

subsection \<open>The port\<close>

definition SortDesc :: string where "SortDesc = ''desc''"

definition SortAsc :: string where "SortAsc = ''asc''"

record ListTasksFilter =
  Sort :: string
  ToID :: uint64
  Limit :: uint64
  Offset :: uint64

text \<open>A value of the Go interface: its six methods on the state behind it.\<close>

record 'r TaskRepository =
  repo_Store :: "'r \<Rightarrow> Task \<Rightarrow> 'r \<times> (goerror + uint64)"
  repo_List :: "'r \<Rightarrow> ListTasksFilter option \<Rightarrow> 'r \<times> (goerror + Task list)"
  repo_Count :: "'r \<Rightarrow> ListTasksFilter option \<Rightarrow> 'r \<times> (goerror + uint64)"
  repo_Get :: "'r \<Rightarrow> uint64 \<Rightarrow> 'r \<times> (goerror + Task)"
  repo_Update :: "'r \<Rightarrow> Task \<Rightarrow> 'r \<times> goerror option"
  repo_Delete :: "'r \<Rightarrow> uint64 \<Rightarrow> 'r \<times> goerror option"

subsection \<open>The database handle\<close>

text \<open>A row of the table; \<open>updated_at\<close> is its only nullable column.\<close>

record task_row =
  row_id :: int
  row_name :: string
  row_body :: string
  row_status :: string
  row_created_at :: time
  row_updated_at :: "time option"

datatype sqlrow = TaskRow task_row | IntRow int

datatype sqlarg = AInt uint64 | AText string | ATime time | ATimeOpt "time option"

text \<open>
  A query yields an error, or rows and the error \<open>rows.Err()\<close> reports once they are read. The
  result of \<open>ExecContext\<close> carries what \<open>RowsAffected()\<close> returns.
\<close>

type_synonym query_result = "goerror + (sqlrow list \<times> goerror option)"
type_synonym exec_result = "goerror + (goerror + int)"

record 'db sqldb =
  QueryContext :: "'db \<Rightarrow> string \<Rightarrow> sqlarg list \<Rightarrow> 'db \<times> query_result"
  ExecContext :: "'db \<Rightarrow> string \<Rightarrow> sqlarg list \<Rightarrow> 'db \<times> exec_result"

text \<open>
  \<open>Row.Scan\<close> of \<open>database/sql\<close>: the query's error, \<open>ErrNoRows\<close> when there is no first row, else
  the scan of the first row and then the error of closing the rows.
\<close>

definition Row_Scan :: "(sqlrow \<Rightarrow> goerror + 'a) \<Rightarrow> query_result \<Rightarrow> goerror + 'a" where
  "Row_Scan scan r =
     (case r of
        Inl err \<Rightarrow> Inl err
      | Inr ([], Some err) \<Rightarrow> Inl err
      | Inr ([], None) \<Rightarrow> Inl ErrNoRows
      | Inr (row # _, closeErr) \<Rightarrow>
          (case scan row of
             Inl err \<Rightarrow> Inl err
           | Inr x \<Rightarrow> (case closeErr of Some err \<Rightarrow> Inl err | None \<Rightarrow> Inr x)))"

text \<open>A \<open>bigint\<close> scans into \<open>uint64\<close> unless it is negative; the column count must agree.\<close>

definition scan_error :: goerror where
  "scan_error = ExtError ''sql: Scan error''"

fun scan_uint64 :: "sqlrow \<Rightarrow> goerror + uint64" where
  "scan_uint64 (IntRow i) = (if 0 \<le> i \<and> i < 2 ^ 64 then Inr (of_int i) else Inl scan_error)"
| "scan_uint64 (TaskRow _) = Inl scan_error"

fun scan_task :: "sqlrow \<Rightarrow> goerror + Task" where
  "scan_task (TaskRow r) =
     (case scan_uint64 (IntRow (row_id r)) of
        Inl err \<Rightarrow> Inl err
      | Inr tid \<Rightarrow>
          Inr \<lparr>ID = tid, Name = row_name r, Body = row_body r, Status = row_status r,
               CreatedAt = row_created_at r, UpdatedAt = row_updated_at r\<rparr>)"
| "scan_task (IntRow _) = Inl scan_error"

subsection \<open>The statements\<close>

definition queryStoreTask :: string where
  "queryStoreTask =
     ''\<newline>INSERT INTO tasks (name, body, status, created_at, updated_at)'' @
     ''\<newline>VALUES ($1, $2, $3, $4, $5)\<newline>RETURNING id\<newline>''"

definition queryGetTask :: string where
  "queryGetTask =
     ''\<newline>SELECT id, name, body, status, created_at, updated_at\<newline>FROM tasks\<newline>WHERE id = $1\<newline>''"

definition queryListTasksAsc :: string where
  "queryListTasksAsc =
     ''\<newline>SELECT id, name, body, status, created_at, updated_at\<newline>FROM tasks\<newline>ORDER BY id ASC'' @
     ''\<newline>LIMIT $1 OFFSET $2\<newline>''"

definition queryListTasksDesc :: string where
  "queryListTasksDesc =
     ''\<newline>SELECT id, name, body, status, created_at, updated_at\<newline>FROM tasks\<newline>ORDER BY id DESC'' @
     ''\<newline>LIMIT $1 OFFSET $2\<newline>''"

definition queryListTasksToIDAsc :: string where
  "queryListTasksToIDAsc =
     ''\<newline>SELECT id, name, body, status, created_at, updated_at\<newline>FROM tasks\<newline>WHERE id < $1'' @
     ''\<newline>ORDER BY id ASC\<newline>LIMIT $2 OFFSET $3\<newline>''"

definition queryListTasksToIDDesc :: string where
  "queryListTasksToIDDesc =
     ''\<newline>SELECT id, name, body, status, created_at, updated_at\<newline>FROM tasks\<newline>WHERE id < $1'' @
     ''\<newline>ORDER BY id DESC\<newline>LIMIT $2 OFFSET $3\<newline>''"

definition queryCountTasks :: string where
  "queryCountTasks = ''SELECT COUNT(*) FROM tasks''"

definition queryCountTasksToID :: string where
  "queryCountTasksToID = ''SELECT COUNT(*) FROM tasks WHERE id < $1''"

definition queryUpdateTask :: string where
  "queryUpdateTask =
     ''\<newline>UPDATE tasks\<newline>SET name = $1, body = $2, status = $3, updated_at = $4\<newline>WHERE id = $5\<newline>''"

definition queryDeleteTask :: string where
  "queryDeleteTask = ''DELETE FROM tasks WHERE id = $1''"

lemmas query_defs =
  queryStoreTask_def queryGetTask_def queryListTasksAsc_def queryListTasksDesc_def
  queryListTasksToIDAsc_def queryListTasksToIDDesc_def queryCountTasks_def
  queryCountTasksToID_def queryUpdateTask_def queryDeleteTask_def

subsection \<open>The adapter\<close>

definition defaultListLimit :: uint64 where
  "defaultListLimit = 1000"

definition TaskRepository_Store :: "'db sqldb \<Rightarrow> 'db \<Rightarrow> Task \<Rightarrow> 'db \<times> (goerror + uint64)" where
  "TaskRepository_Store db d task =
     (case QueryContext db d queryStoreTask
        [AText (Name task), AText (Body task), AText (TaskStatus_String (Status task)),
         ATime (CreatedAt task), ATimeOpt (UpdatedAt task)] of
        (d', r) \<Rightarrow>
          (d', case Row_Scan scan_uint64 r of
                 Inl err \<Rightarrow> Inl (Errorf ''store task'' err)
               | Inr tid \<Rightarrow> Inr tid))"

definition TaskRepository_Get :: "'db sqldb \<Rightarrow> 'db \<Rightarrow> uint64 \<Rightarrow> 'db \<times> (goerror + Task)" where
  "TaskRepository_Get db d tid =
     (case QueryContext db d queryGetTask [AInt tid] of
        (d', r) \<Rightarrow>
          (d', case Row_Scan scan_task r of
                 Inl err \<Rightarrow>
                   (if errors_Is err ErrNoRows then Inl ErrTaskNotFound
                    else Inl (Errorf ''get task'' err))
               | Inr t \<Rightarrow> Inr t))"

definition buildListQuery :: "ListTasksFilter option \<Rightarrow> string \<times> sqlarg list" where
  "buildListQuery flt =
     (let desc = (case flt of None \<Rightarrow> False | Some f \<Rightarrow> Sort f = SortDesc);
          hasToID = (case flt of None \<Rightarrow> False | Some f \<Rightarrow> 0 < ToID f);
          toID = (case flt of None \<Rightarrow> 0 | Some f \<Rightarrow> ToID f);
          limit = (case flt of None \<Rightarrow> defaultListLimit
                   | Some f \<Rightarrow> if 0 < Limit f then Limit f else defaultListLimit);
          offset = (case flt of None \<Rightarrow> 0 | Some f \<Rightarrow> Offset f)
      in if hasToID \<and> desc then (queryListTasksToIDDesc, [AInt toID, AInt limit, AInt offset])
         else if hasToID then (queryListTasksToIDAsc, [AInt toID, AInt limit, AInt offset])
         else if desc then (queryListTasksDesc, [AInt limit, AInt offset])
         else (queryListTasksAsc, [AInt limit, AInt offset]))"

text \<open>The loop over \<open>rows.Next()\<close>, with the tasks appended so far.\<close>

fun scan_rows :: "sqlrow list \<Rightarrow> goerror option \<Rightarrow> Task list \<Rightarrow> goerror + Task list" where
  "scan_rows [] rowsErr tasks =
     (case rowsErr of Some err \<Rightarrow> Inl (Errorf ''iterate tasks'' err) | None \<Rightarrow> Inr tasks)"
| "scan_rows (row # rows) rowsErr tasks =
     (case scan_task row of
        Inl err \<Rightarrow> Inl (Errorf ''scan task'' err)
      | Inr t \<Rightarrow> scan_rows rows rowsErr (tasks @ [t]))"

definition TaskRepository_List :: "'db sqldb \<Rightarrow> 'db \<Rightarrow> ListTasksFilter option
    \<Rightarrow> 'db \<times> (goerror + Task list)" where
  "TaskRepository_List db d flt =
     (case buildListQuery flt of (query, args) \<Rightarrow>
        (case QueryContext db d query args of
           (d', Inl err) \<Rightarrow> (d', Inl (Errorf ''list tasks'' err))
         | (d', Inr (rows, rowsErr)) \<Rightarrow> (d', scan_rows rows rowsErr [])))"

definition TaskRepository_Count :: "'db sqldb \<Rightarrow> 'db \<Rightarrow> ListTasksFilter option
    \<Rightarrow> 'db \<times> (goerror + uint64)" where
  "TaskRepository_Count db d flt =
     (case (case flt of
              Some f \<Rightarrow>
                (if 0 < ToID f then QueryContext db d queryCountTasksToID [AInt (ToID f)]
                 else QueryContext db d queryCountTasks [])
            | None \<Rightarrow> QueryContext db d queryCountTasks []) of
        (d', r) \<Rightarrow>
          (d', case Row_Scan scan_uint64 r of
                 Inl err \<Rightarrow> Inl (Errorf ''count tasks'' err)
               | Inr n \<Rightarrow> Inr n))"

definition TaskRepository_Update :: "'db sqldb \<Rightarrow> 'db \<Rightarrow> Task \<Rightarrow> 'db \<times> goerror option" where
  "TaskRepository_Update db d task =
     (case ExecContext db d queryUpdateTask
        [AText (Name task), AText (Body task), AText (TaskStatus_String (Status task)),
         ATimeOpt (UpdatedAt task), AInt (ID task)] of
        (d', Inl err) \<Rightarrow> (d', Some (Errorf ''update task'' err))
      | (d', Inr (Inl err)) \<Rightarrow> (d', Some (Errorf ''update task rows affected'' err))
      | (d', Inr (Inr affected)) \<Rightarrow> (d', if affected = 0 then Some ErrTaskNotFound else None))"

definition TaskRepository_Delete :: "'db sqldb \<Rightarrow> 'db \<Rightarrow> uint64 \<Rightarrow> 'db \<times> goerror option" where
  "TaskRepository_Delete db d tid =
     (case ExecContext db d queryDeleteTask [AInt tid] of
        (d', Inl err) \<Rightarrow> (d', Some (Errorf ''delete task'' err))
      | (d', Inr (Inl err)) \<Rightarrow> (d', Some (Errorf ''delete task rows affected'' err))
      | (d', Inr (Inr affected)) \<Rightarrow> (d', if affected = 0 then Some ErrTaskNotFound else None))"

definition NewTaskRepository :: "'db sqldb \<Rightarrow> 'db TaskRepository" where
  "NewTaskRepository db =
     \<lparr>repo_Store = TaskRepository_Store db, repo_List = TaskRepository_List db,
      repo_Count = TaskRepository_Count db, repo_Get = TaskRepository_Get db,
      repo_Update = TaskRepository_Update db, repo_Delete = TaskRepository_Delete db\<rparr>"

subsection \<open>What the statements mean on the table\<close>

text \<open>An error of the driver or the server is none of the service's own sentinels.\<close>

definition foreign :: "goerror \<Rightarrow> bool" where
  "foreign e =
     (\<not> errors_Is e ErrTaskNotFound \<and> \<not> errors_Is e ErrNoRows \<and>
      \<not> errors_Is e ErrInvalidStatusTransition \<and> \<not> errors_Is e ErrUnknownStatus)"

text \<open>The rows by ascending id, and the slice that LIMIT and OFFSET select.\<close>

definition rows_asc :: "(int \<rightharpoonup> task_row) \<Rightarrow> task_row list" where
  "rows_asc m = map (\<lambda>i. the (m i)) (sorted_list_of_set (dom m))"

definition page :: "uint64 \<Rightarrow> uint64 \<Rightarrow> 'a list \<Rightarrow> 'a list" where
  "page limit offset xs = take (unat limit) (drop (unat offset) xs)"

definition below :: "uint64 \<Rightarrow> (int \<rightharpoonup> task_row) \<Rightarrow> (int \<rightharpoonup> task_row)" where
  "below toID m = m |` {..<uint toID}"

definition set_row :: "string \<Rightarrow> string \<Rightarrow> string \<Rightarrow> time option \<Rightarrow> task_row \<Rightarrow> task_row" where
  "set_row n b s upd r =
     r\<lparr>row_name := n, row_body := b, row_status := s, row_updated_at := upd\<rparr>"

text \<open>
  The assumptions. \<open>tbl\<close> is the content of the table as a map from ids to rows and \<open>stamp\<close> the
  microsecond resolution of \<open>TIMESTAMPTZ\<close>. A statement that reports an error has had no effect
  (every statement runs in a transaction of its own), an insertion takes an id that is not in
  use, and a \<open>bigserial\<close> id is positive and fits a signed 64-bit integer.
\<close>

locale tasks_table =
  fixes db :: "'db sqldb"
    and tbl :: "'db \<Rightarrow> int \<rightharpoonup> task_row"
    and stamp :: "time \<Rightarrow> time"
  assumes tbl_finite: "finite (dom (tbl d))"
    and tbl_row: "tbl d i = Some r \<Longrightarrow> row_id r = i \<and> 0 < i \<and> i < 2 ^ 63 \<and>
        stamp (row_created_at r) = row_created_at r \<and>
        map_option stamp (row_updated_at r) = row_updated_at r"
    and query_failed: "QueryContext db d q as = (d', Inl e) \<Longrightarrow> tbl d' = tbl d \<and> foreign e"
    and rows_failed: "QueryContext db d q as = (d', Inr (rs, Some e)) \<Longrightarrow> tbl d' = tbl d \<and> foreign e"
    and exec_failed: "ExecContext db d q as = (d', Inl e) \<Longrightarrow> tbl d' = tbl d \<and> foreign e"
    and affected_known: "ExecContext db d q as \<noteq> (d', Inr (Inl e))"
    and insert_row: "QueryContext db d queryStoreTask
          [AText n, AText b, AText s, ATime c, ATimeOpt upd] = (d', Inr (rs, None)) \<Longrightarrow>
        \<exists>i. rs = [IntRow i] \<and> 0 < i \<and> i < 2 ^ 63 \<and> tbl d i = None \<and>
          tbl d' = (tbl d)(i \<mapsto> \<lparr>row_id = i, row_name = n, row_body = b, row_status = s,
            row_created_at = stamp c, row_updated_at = map_option stamp upd\<rparr>)"
    and select_row: "QueryContext db d queryGetTask [AInt k] = (d', Inr (rs, None)) \<Longrightarrow>
        tbl d' = tbl d \<and>
        rs = (case tbl d (uint k) of None \<Rightarrow> [] | Some r \<Rightarrow> [TaskRow r])"
    and select_asc: "QueryContext db d queryListTasksAsc [AInt l, AInt off] = (d', Inr (rs, None)) \<Longrightarrow>
        tbl d' = tbl d \<and> rs = map TaskRow (page l off (rows_asc (tbl d)))"
    and select_desc: "QueryContext db d queryListTasksDesc [AInt l, AInt off] = (d', Inr (rs, None)) \<Longrightarrow>
        tbl d' = tbl d \<and> rs = map TaskRow (page l off (rev (rows_asc (tbl d))))"
    and select_to_asc: "QueryContext db d queryListTasksToIDAsc [AInt k, AInt l, AInt off]
          = (d', Inr (rs, None)) \<Longrightarrow>
        tbl d' = tbl d \<and> rs = map TaskRow (page l off (rows_asc (below k (tbl d))))"
    and select_to_desc: "QueryContext db d queryListTasksToIDDesc [AInt k, AInt l, AInt off]
          = (d', Inr (rs, None)) \<Longrightarrow>
        tbl d' = tbl d \<and> rs = map TaskRow (page l off (rev (rows_asc (below k (tbl d)))))"
    and count_rows: "QueryContext db d queryCountTasks [] = (d', Inr (rs, None)) \<Longrightarrow>
        tbl d' = tbl d \<and> rs = [IntRow (int (card (dom (tbl d))))]"
    and count_to: "QueryContext db d queryCountTasksToID [AInt k] = (d', Inr (rs, None)) \<Longrightarrow>
        tbl d' = tbl d \<and> rs = [IntRow (int (card (dom (below k (tbl d)))))]"
    and update_row: "ExecContext db d queryUpdateTask [AText n, AText b, AText s, ATimeOpt upd, AInt k]
          = (d', Inr (Inr m)) \<Longrightarrow>
        (case tbl d (uint k) of
           None \<Rightarrow> m = 0 \<and> tbl d' = tbl d
         | Some r \<Rightarrow> m = 1 \<and>
             tbl d' = (tbl d)(uint k \<mapsto> set_row n b s (map_option stamp upd) r))"
    and delete_row: "ExecContext db d queryDeleteTask [AInt k] = (d', Inr (Inr m)) \<Longrightarrow>
        (case tbl d (uint k) of
           None \<Rightarrow> m = 0 \<and> tbl d' = tbl d
         | Some r \<Rightarrow> m = 1 \<and> tbl d' = (tbl d)(uint k := None))"

subsection \<open>The contract of the port\<close>

text \<open>What the store keeps of a task: the same fields, the times at the store's resolution.\<close>

definition stored :: "(time \<Rightarrow> time) \<Rightarrow> Task \<Rightarrow> Task" where
  "stored stamp t =
     t\<lparr>CreatedAt := stamp (CreatedAt t), UpdatedAt := map_option stamp (UpdatedAt t)\<rparr>"

definition tasks_asc :: "(uint64 \<rightharpoonup> Task) \<Rightarrow> Task list" where
  "tasks_asc m = map (\<lambda>i. the (m i)) (sorted_list_of_set (dom m))"

definition effective_limit :: "uint64 \<Rightarrow> uint64" where
  "effective_limit l = (if 0 < l then l else defaultListLimit)"

text \<open>What \<open>List\<close> and \<open>Count\<close> select for a filter.\<close>

definition selected :: "ListTasksFilter \<Rightarrow> (uint64 \<rightharpoonup> Task) \<Rightarrow> Task list" where
  "selected f m =
     (let xs = tasks_asc (if 0 < ToID f then m |` {..<ToID f} else m)
      in page (effective_limit (Limit f)) (Offset f) (if Sort f = SortDesc then rev xs else xs))"

text \<open>An error that is none of the domain's sentinels: the caller answers it as internal.\<close>

definition internal :: "goerror \<Rightarrow> bool" where
  "internal e =
     (\<not> errors_Is e ErrTaskNotFound \<and> \<not> errors_Is e ErrInvalidStatusTransition \<and>
      \<not> errors_Is e ErrUnknownStatus)"

locale task_repository =
  fixes R :: "'r TaskRepository"
    and tasks :: "'r \<Rightarrow> uint64 \<rightharpoonup> Task"
    and stamp :: "time \<Rightarrow> time"
  assumes tasks_finite: "finite (dom (tasks s))"
    and tasks_stored: "tasks s i = Some t \<Longrightarrow> ID t = i \<and> i \<noteq> 0 \<and> stored stamp t = t"
    and Store_ok: "repo_Store R s t = (s', Inr i) \<Longrightarrow>
        i \<noteq> 0 \<and> tasks s i = None \<and> tasks s' = (tasks s)(i \<mapsto> stored stamp (t\<lparr>ID := i\<rparr>))"
    and Store_err: "repo_Store R s t = (s', Inl e) \<Longrightarrow>
        tasks s' = tasks s \<and> internal e"
    and Get_ok: "repo_Get R s i = (s', Inr t) \<Longrightarrow> tasks s' = tasks s \<and> tasks s i = Some t"
    and Get_err: "repo_Get R s i = (s', Inl e) \<Longrightarrow>
        tasks s' = tasks s \<and> (e = ErrTaskNotFound \<and> tasks s i = None \<or> internal e)"
    and Update_ok: "repo_Update R s t = (s', None) \<Longrightarrow>
        \<exists>t0. tasks s (ID t) = Some t0 \<and>
          tasks s' = (tasks s)(ID t \<mapsto> (stored stamp t)\<lparr>CreatedAt := CreatedAt t0\<rparr>)"
    and Update_err: "repo_Update R s t = (s', Some e) \<Longrightarrow>
        tasks s' = tasks s \<and> (e = ErrTaskNotFound \<and> tasks s (ID t) = None \<or> internal e)"
    and Delete_ok: "repo_Delete R s i = (s', None) \<Longrightarrow>
        tasks s i \<noteq> None \<and> tasks s' = (tasks s)(i := None)"
    and Delete_err: "repo_Delete R s i = (s', Some e) \<Longrightarrow>
        tasks s' = tasks s \<and> (e = ErrTaskNotFound \<and> tasks s i = None \<or> internal e)"
    and List_ok: "repo_List R s (Some f) = (s', Inr ts) \<Longrightarrow>
        tasks s' = tasks s \<and> ts = selected f (tasks s)"
    and List_err: "repo_List R s flt = (s', Inl e) \<Longrightarrow> tasks s' = tasks s \<and> internal e"
    and Count_ok: "repo_Count R s (Some f) = (s', Inr n) \<Longrightarrow>
        tasks s' = tasks s \<and>
        unat n = card (dom (if 0 < ToID f then tasks s |` {..<ToID f} else tasks s))"
    and Count_err: "repo_Count R s flt = (s', Inl e) \<Longrightarrow> tasks s' = tasks s \<and> internal e"

subsection \<open>Rows as tasks\<close>

definition row_task :: "task_row \<Rightarrow> Task" where
  "row_task r =
     \<lparr>ID = of_int (row_id r), Name = row_name r, Body = row_body r, Status = row_status r,
      CreatedAt = row_created_at r, UpdatedAt = row_updated_at r\<rparr>"

definition tasks_of :: "(int \<rightharpoonup> task_row) \<Rightarrow> (uint64 \<rightharpoonup> Task)" where
  "tasks_of m = (\<lambda>i. map_option row_task (m (uint i)))"

definition rows_ok :: "(int \<rightharpoonup> task_row) \<Rightarrow> bool" where
  "rows_ok m =
     (finite (dom m) \<and> (\<forall>i r. m i = Some r \<longrightarrow> row_id r = i \<and> 0 < i \<and> i < 2 ^ 63))"

lemma uint_of_id: "0 < i \<Longrightarrow> i < 2 ^ 63 \<Longrightarrow> uint (of_int i :: uint64) = i"
  by (simp add: unsigned_of_int take_bit_int_eq_self)

lemma rows_ok_id: "rows_ok m \<Longrightarrow> m i = Some r \<Longrightarrow> row_id r = i \<and> 0 < i \<and> i < 2 ^ 63"
  by (simp add: rows_ok_def)

lemma rows_ok_below: "rows_ok m \<Longrightarrow> rows_ok (below k m)"
proof -
  assume ok: "rows_ok m"
  have "below k m i = Some r \<Longrightarrow> m i = Some r" for i r
    by (simp add: below_def restrict_map_def split: if_splits)
  moreover have "finite (dom (below k m))" using ok by (simp add: below_def rows_ok_def)
  ultimately show ?thesis using ok by (auto simp: rows_ok_def)
qed

lemma scan_task_ok:
  "0 < row_id r \<Longrightarrow> row_id r < 2 ^ 63 \<Longrightarrow> scan_task (TaskRow r) = Inr (row_task r)"
  by (simp add: row_task_def)

lemma scan_rows_ok:
  "\<forall>r \<in> set rs. 0 < row_id r \<and> row_id r < 2 ^ 63 \<Longrightarrow>
     scan_rows (map TaskRow rs) None ts = Inr (ts @ map row_task rs)"
  by (induction rs arbitrary: ts) (simp_all add: scan_task_ok del: scan_task.simps)

lemma dom_tasks_of: "rows_ok m \<Longrightarrow> uint ` dom (tasks_of m) = dom m"
proof
  show "uint ` dom (tasks_of m) \<subseteq> dom m" by (auto simp: tasks_of_def)
  assume ok: "rows_ok m"
  show "dom m \<subseteq> uint ` dom (tasks_of m)"
  proof
    fix i assume "i \<in> dom m"
    then obtain r where r: "m i = Some r" by blast
    then have u: "uint (of_int i :: uint64) = i" using rows_ok_id [OF ok r] by (simp add: uint_of_id)
    then have "of_int i \<in> dom (tasks_of m)" by (simp add: tasks_of_def r domIff)
    then show "i \<in> uint ` dom (tasks_of m)" using u by (metis image_eqI)
  qed
qed

lemma finite_tasks_of: "rows_ok m \<Longrightarrow> finite (dom (tasks_of m))"
  using dom_tasks_of [of m] finite_imageD [of uint "dom (tasks_of m)"]
  by (simp add: rows_ok_def inj_on_def)

lemma card_tasks_of: "rows_ok m \<Longrightarrow> card (dom (tasks_of m)) = card (dom m)"
  using dom_tasks_of [of m] card_image [of uint "dom (tasks_of m)"]
  by (metis inj_on_subset inj_unsigned subset_UNIV)

lemma sorted_dom_tasks_of:
  assumes "rows_ok m"
  shows "sorted_list_of_set (dom m) = map uint (sorted_list_of_set (dom (tasks_of m)))"
proof (rule sorted_distinct_set_unique)
  have fin: "finite (dom (tasks_of m))" "finite (dom m)"
    using assms finite_tasks_of by (auto simp: rows_ok_def)
  show "sorted (map uint (sorted_list_of_set (dom (tasks_of m))))"
    unfolding sorted_map
    by (rule sorted_wrt_mono_rel [OF _ sorted_sorted_list_of_set]) (simp add: word_le_def)
  show "distinct (map uint (sorted_list_of_set (dom (tasks_of m))))"
    by (simp add: distinct_map inj_on_subset [OF inj_unsigned])
  show "set (sorted_list_of_set (dom m)) = set (map uint (sorted_list_of_set (dom (tasks_of m))))"
    using fin dom_tasks_of [OF assms] by simp
qed simp_all

lemma tasks_asc_of: "rows_ok m \<Longrightarrow> tasks_asc (tasks_of m) = map row_task (rows_asc m)"
  using finite_tasks_of [of m]
  by (auto simp: tasks_asc_def rows_asc_def sorted_dom_tasks_of tasks_of_def)

lemma tasks_of_below: "tasks_of (below k m) = tasks_of m |` {..<k}"
  by (auto simp: tasks_of_def below_def restrict_map_def word_less_def)

lemma tasks_of_upd:
  assumes "0 < i" and "i < 2 ^ 63"
  shows "tasks_of (m(i \<mapsto> r)) = (tasks_of m)(of_int i \<mapsto> row_task r)"
    and "tasks_of (m(i := None)) = (tasks_of m)(of_int i := None)"
proof -
  have "uint j = i \<longleftrightarrow> j = of_int i" for j :: uint64
    using uint_of_id [OF assms] by (metis word_of_int_uint)
  then show "tasks_of (m(i \<mapsto> r)) = (tasks_of m)(of_int i \<mapsto> row_task r)"
    and "tasks_of (m(i := None)) = (tasks_of m)(of_int i := None)"
    by (auto simp: tasks_of_def)
qed

lemma rows_asc_ids:
  assumes "rows_ok m" and "r \<in> set (rows_asc m)"
  shows "0 < row_id r \<and> row_id r < 2 ^ 63"
proof -
  have "set (sorted_list_of_set (dom m)) = dom m" using assms(1) by (simp add: rows_ok_def)
  then obtain i where "m i = Some r" using assms(2) by (auto simp: rows_asc_def)
  then show ?thesis using rows_ok_id [OF assms(1)] by blast
qed

lemma page_map: "page l off (map f xs) = map f (page l off xs)"
  by (simp add: page_def take_map drop_map)

lemma set_page: "set (page l off xs) \<subseteq> set xs"
  by (auto simp: page_def dest: in_set_takeD in_set_dropD)

lemma scan_page:
  assumes "rows_ok m"
  shows "scan_rows (map TaskRow (page l off (rows_asc m))) None [] = Inr (page l off (tasks_asc (tasks_of m)))"
    and "scan_rows (map TaskRow (page l off (rev (rows_asc m)))) None [] =
       Inr (page l off (rev (tasks_asc (tasks_of m))))"
proof -
  have ids: "\<forall>r \<in> set (page l off xs). 0 < row_id r \<and> row_id r < 2 ^ 63"
    if "set xs = set (rows_asc m)" for xs
    using set_page [of l off xs] rows_asc_ids [OF assms] that by blast
  show "scan_rows (map TaskRow (page l off (rows_asc m))) None [] =
       Inr (page l off (tasks_asc (tasks_of m)))"
    and "scan_rows (map TaskRow (page l off (rev (rows_asc m)))) None [] =
       Inr (page l off (rev (tasks_asc (tasks_of m))))"
    using scan_rows_ok [OF ids, of "rows_asc m" "[]"] scan_rows_ok [OF ids, of "rev (rows_asc m)" "[]"]
    by (simp_all add: tasks_asc_of [OF assms] page_map rev_map)
qed

subsection \<open>The adapter provides the contract\<close>

lemma Row_Scan_Inr:
  "Row_Scan scan r = Inr x \<longleftrightarrow> (\<exists>row rows. r = Inr (row # rows, None) \<and> scan row = Inr x)"
  by (auto simp: Row_Scan_def split: sum.splits option.splits list.splits)

lemma Row_Scan_Inl:
  assumes "Row_Scan scan r = Inl e"
  obtains (query) "r = Inl e"
    | (rows) rs where "r = Inr (rs, Some e)"
    | (none) "r = Inr ([], None)" "e = ErrNoRows"
    | (scan) row rs ce where "r = Inr (row # rs, ce)" "scan row = Inl e"
  using assms
  by (auto simp: Row_Scan_def split: sum.splits option.splits list.splits)

lemma foreign_scan_error [simp]: "foreign scan_error"
  by (simp add: foreign_def scan_error_def)

lemma scan_errors: "scan_uint64 row = Inl e \<Longrightarrow> e = scan_error" "scan_task row = Inl e \<Longrightarrow> e = scan_error"
  by (cases row; auto split: if_splits)+

lemma foreign_internal: "foreign e \<Longrightarrow> internal e"
  by (simp add: foreign_def internal_def)

lemma internal_Errorf [simp]: "internal (Errorf p e) = internal e"
  by (simp add: internal_def)

lemma Row_Scan_internal:
  assumes "Row_Scan scan r = Inl e" and "\<And>e. r = Inl e \<Longrightarrow> foreign e"
    and "\<And>rs e. r = Inr (rs, Some e) \<Longrightarrow> foreign e" and "\<And>row e. scan row = Inl e \<Longrightarrow> e = scan_error"
  shows "internal e"
  using assms(1)
proof (cases rule: Row_Scan_Inl)
  case none
  then show ?thesis by (simp add: internal_def)
next
  case (scan row rs ce)
  then show ?thesis using assms(4) foreign_internal [OF foreign_scan_error] by blast
qed (use assms(2,3) foreign_internal in blast)+

lemma scan_rows_internal:
  "scan_rows rs re ts = Inl e \<Longrightarrow> (\<And>err. re = Some err \<Longrightarrow> foreign err) \<Longrightarrow> internal e"
proof (induction rs arbitrary: ts)
  case (Cons r rs)
  then show ?case
    using scan_errors(2) [of r] foreign_internal [OF foreign_scan_error] by (auto split: sum.splits)
qed (auto split: option.splits dest: foreign_internal)

lemma row_task_set_row:
  "row_task (set_row n b s upd r) = (row_task r)\<lparr>Name := n, Body := b, Status := s, UpdatedAt := upd\<rparr>"
  by (simp add: row_task_def set_row_def)

context tasks_table
begin

lemma rows_ok_tbl: "rows_ok (tbl d)"
  using tbl_finite tbl_row by (auto simp: rows_ok_def)

lemma get_cases:
  assumes "TaskRepository_Get db d i = (d', res)"
  shows "tbl d' = tbl d"
    and "res = Inr t \<Longrightarrow> tasks_of (tbl d) i = Some t"
    and "res = Inl e \<Longrightarrow>
       e = ErrTaskNotFound \<and> tasks_of (tbl d) i = None \<or> foreign e"
proof -
  obtain r where q: "QueryContext db d queryGetTask [AInt i] = (d', r)"
    and res: "res = (case Row_Scan scan_task r of
        Inl err \<Rightarrow> (if errors_Is err ErrNoRows then Inl ErrTaskNotFound else Inl (Errorf ''get task'' err))
      | Inr t \<Rightarrow> Inr t)"
    using assms by (auto simp: TaskRepository_Get_def split: prod.splits)
  consider (bad) e where "r = Inl e" | (mid) rs e where "r = Inr (rs, Some e)" | (ok) rs where "r = Inr (rs, None)"
    by (metis option.exhaust sum.exhaust surj_pair)
  then show "tbl d' = tbl d"
    by cases (use q query_failed rows_failed select_row in blast)+
  show "tasks_of (tbl d) i = Some t" if "res = Inr t"
  proof -
    from that res obtain row rows where r: "r = Inr (row # rows, None)" and t: "scan_task row = Inr t"
      by (auto simp: Row_Scan_Inr split: sum.splits if_splits)
    then obtain x where x: "tbl d (uint i) = Some x" and "row = TaskRow x"
      using select_row [OF q [unfolded r]] by (auto split: option.splits)
    with t tbl_row [OF x] have "t = row_task x" by (simp add: scan_task_ok del: scan_task.simps)
    with x show ?thesis by (simp add: tasks_of_def)
  qed
  show "e = ErrTaskNotFound \<and> tasks_of (tbl d) i = None \<or> foreign e" if "res = Inl e"
  proof -
    from that res obtain err where err: "Row_Scan scan_task r = Inl err"
      and e: "e = (if errors_Is err ErrNoRows then ErrTaskNotFound else Errorf ''get task'' err)"
      by (auto split: sum.splits if_splits)
    from err show ?thesis
    proof (cases rule: Row_Scan_Inl)
      case query
      then have "foreign err" using q query_failed by blast
      then show ?thesis using e by (simp add: foreign_def)
    next
      case (rows rs)
      then have "foreign err" using q rows_failed by blast
      then show ?thesis using e by (simp add: foreign_def)
    next
      case none
      then show ?thesis using select_row [OF q [unfolded none]] e
        by (simp add: tasks_of_def split: option.splits)
    next
      case (scan row rs ce)
      then show ?thesis using e scan_errors(2) [of row err] foreign_scan_error
        by (simp add: foreign_def)
    qed
  qed
qed

lemma store_query:
  assumes "TaskRepository_Store db d t = (d', res)"
  obtains r where "QueryContext db d queryStoreTask
      [AText (Name t), AText (Body t), AText (Status t), ATime (CreatedAt t), ATimeOpt (UpdatedAt t)] = (d', r)"
    and "res = (case Row_Scan scan_uint64 r of Inl err \<Rightarrow> Inl (Errorf ''store task'' err) | Inr k \<Rightarrow> Inr k)"
  using assms by (auto simp: TaskRepository_Store_def TaskStatus_String_def split: prod.splits)

lemma store_ok:
  assumes "TaskRepository_Store db d t = (d', Inr i)"
  shows "i \<noteq> 0 \<and> tasks_of (tbl d) i = None \<and>
    tasks_of (tbl d') = (tasks_of (tbl d))(i \<mapsto> stored stamp (t\<lparr>ID := i\<rparr>))"
proof -
  obtain r where q: "QueryContext db d queryStoreTask
      [AText (Name t), AText (Body t), AText (Status t), ATime (CreatedAt t), ATimeOpt (UpdatedAt t)] = (d', r)"
    and res: "Inr i = (case Row_Scan scan_uint64 r of Inl err \<Rightarrow> Inl (Errorf ''store task'' err) | Inr k \<Rightarrow> Inr k)"
    using store_query [OF assms] by blast
  from res have "Row_Scan scan_uint64 r = Inr i" by (cases "Row_Scan scan_uint64 r") simp_all
  then obtain row rows where r: "r = Inr (row # rows, None)" and i: "scan_uint64 row = Inr i"
    by (auto simp: Row_Scan_Inr)
  obtain k where k: "row = IntRow k" "0 < k" "k < 2 ^ 63" "tbl d k = None"
    and d': "tbl d' = (tbl d)(k \<mapsto> \<lparr>row_id = k, row_name = Name t, row_body = Body t,
      row_status = Status t, row_created_at = stamp (CreatedAt t),
      row_updated_at = map_option stamp (UpdatedAt t)\<rparr>)"
    using insert_row [OF q [unfolded r]] by auto
  have i: "i = of_int k" and u: "uint i = k" using i k uint_of_id [of k] by (auto split: if_splits)
  have "i \<noteq> 0" using u k(2) by auto
  moreover have "tasks_of (tbl d) i = None" using k(4) u by (simp add: tasks_of_def)
  moreover have "row_task \<lparr>row_id = k, row_name = Name t, row_body = Body t, row_status = Status t,
      row_created_at = stamp (CreatedAt t), row_updated_at = map_option stamp (UpdatedAt t)\<rparr>
    = stored stamp (t\<lparr>ID := i\<rparr>)"
    by (cases t) (simp add: i row_task_def stored_def)
  ultimately show ?thesis unfolding d' tasks_of_upd [OF k(2,3)] by (simp add: i)
qed

lemma store_err:
  assumes "TaskRepository_Store db d t = (d', Inl e)"
  shows "tbl d' = tbl d \<and> foreign e"
proof -
  obtain r where q: "QueryContext db d queryStoreTask
      [AText (Name t), AText (Body t), AText (Status t), ATime (CreatedAt t), ATimeOpt (UpdatedAt t)] = (d', r)"
    and res: "Inl e = (case Row_Scan scan_uint64 r of Inl err \<Rightarrow> Inl (Errorf ''store task'' err) | Inr k \<Rightarrow> Inr k)"
    using store_query [OF assms] by blast
  from res obtain err where err: "Row_Scan scan_uint64 r = Inl err" and e: "e = Errorf ''store task'' err"
    by (auto split: sum.splits)
  from err show ?thesis
  proof (cases rule: Row_Scan_Inl)
    case query
    then show ?thesis using q query_failed e by (auto simp: foreign_def)
  next
    case (rows rs)
    then show ?thesis using q rows_failed e by (auto simp: foreign_def)
  next
    case none
    then show ?thesis using insert_row q by blast
  next
    case (scan row rs ce)
    show ?thesis
    proof (cases ce)
      case None
      then show ?thesis using scan insert_row [OF q [unfolded scan None]] by auto
    next
      case (Some x)
      then have "tbl d' = tbl d" using q scan rows_failed by blast
      then show ?thesis using scan scan_errors(1) [of row err] e foreign_scan_error
        by (simp add: foreign_def)
    qed
  qed
qed

lemma update_cases:
  assumes "TaskRepository_Update db d t = (d', res)"
  shows "res = None \<Longrightarrow> \<exists>t0. tasks_of (tbl d) (ID t) = Some t0 \<and>
       tasks_of (tbl d') = (tasks_of (tbl d))(ID t \<mapsto> (stored stamp t)\<lparr>CreatedAt := CreatedAt t0\<rparr>)"
    and "res = Some e \<Longrightarrow>
       tbl d' = tbl d \<and> (e = ErrTaskNotFound \<and> tasks_of (tbl d) (ID t) = None \<or> foreign e)"
proof -
  let ?as = "[AText (Name t), AText (Body t), AText (Status t), ATimeOpt (UpdatedAt t), AInt (ID t)]"
  obtain r where q: "ExecContext db d queryUpdateTask ?as = (d', r)"
    using assms by (auto simp: TaskRepository_Update_def TaskStatus_String_def split: prod.splits sum.splits)
  have res: "res = (case r of Inl err \<Rightarrow> Some (Errorf ''update task'' err)
      | Inr (Inl err) \<Rightarrow> Some (Errorf ''update task rows affected'' err)
      | Inr (Inr n) \<Rightarrow> if n = 0 then Some ErrTaskNotFound else None)"
    using assms q by (auto simp: TaskRepository_Update_def TaskStatus_String_def split: sum.splits)
  show "\<exists>t0. tasks_of (tbl d) (ID t) = Some t0 \<and>
      tasks_of (tbl d') = (tasks_of (tbl d))(ID t \<mapsto> (stored stamp t)\<lparr>CreatedAt := CreatedAt t0\<rparr>)"
    if "res = None"
  proof -
    from that res obtain n where n: "r = Inr (Inr n)" "n \<noteq> 0" by (auto split: sum.splits if_splits)
    then obtain x where x: "tbl d (uint (ID t)) = Some x" and d': "tbl d' =
        (tbl d)(uint (ID t) \<mapsto> set_row (Name t) (Body t) (Status t) (map_option stamp (UpdatedAt t)) x)"
      using update_row [OF q [unfolded n]] by (auto split: option.splits)
    have b: "0 < uint (ID t)" "uint (ID t) < 2 ^ 63" and xi: "row_id x = uint (ID t)"
      using tbl_row [OF x] by auto
    have "row_task (set_row (Name t) (Body t) (Status t) (map_option stamp (UpdatedAt t)) x)
        = (stored stamp t)\<lparr>CreatedAt := CreatedAt (row_task x)\<rparr>"
      by (cases t) (simp add: row_task_def set_row_def stored_def xi)
    then show ?thesis using x unfolding d' tasks_of_upd(1) [OF b] by (simp add: tasks_of_def)
  qed
  show "tbl d' = tbl d \<and> (e = ErrTaskNotFound \<and> tasks_of (tbl d) (ID t) = None \<or> foreign e)"
    if "res = Some e"
  proof (cases r)
    case (Inl err)
    then show ?thesis using that res q exec_failed by (auto simp: foreign_def)
  next
    case (Inr x)
    then obtain n where n: "r = Inr (Inr n)" using q affected_known by (cases x) auto
    with that res have z: "n = 0" "e = ErrTaskNotFound" by (auto split: if_splits)
    show ?thesis using update_row [OF q [unfolded n]] z
      by (auto simp: tasks_of_def split: option.splits)
  qed
qed

lemma delete_cases:
  assumes "TaskRepository_Delete db d i = (d', res)"
  shows "res = None \<Longrightarrow> tasks_of (tbl d) i \<noteq> None \<and>
       tasks_of (tbl d') = (tasks_of (tbl d))(i := None)"
    and "res = Some e \<Longrightarrow>
       tbl d' = tbl d \<and> (e = ErrTaskNotFound \<and> tasks_of (tbl d) i = None \<or> foreign e)"
proof -
  obtain r where q: "ExecContext db d queryDeleteTask [AInt i] = (d', r)"
    using assms by (auto simp: TaskRepository_Delete_def split: prod.splits sum.splits)
  have res: "res = (case r of Inl err \<Rightarrow> Some (Errorf ''delete task'' err)
      | Inr (Inl err) \<Rightarrow> Some (Errorf ''delete task rows affected'' err)
      | Inr (Inr n) \<Rightarrow> if n = 0 then Some ErrTaskNotFound else None)"
    using assms q by (auto simp: TaskRepository_Delete_def split: sum.splits)
  show "tasks_of (tbl d) i \<noteq> None \<and> tasks_of (tbl d') = (tasks_of (tbl d))(i := None)" if "res = None"
  proof -
    from that res obtain n where n: "r = Inr (Inr n)" "n \<noteq> 0" by (auto split: sum.splits if_splits)
    then obtain x where x: "tbl d (uint i) = Some x" and d': "tbl d' = (tbl d)(uint i := None)"
      using delete_row [OF q [unfolded n]] by (auto split: option.splits)
    have b: "0 < uint i" "uint i < 2 ^ 63" using tbl_row [OF x] by auto
    show ?thesis using x unfolding d' tasks_of_upd(2) [OF b] by (simp add: tasks_of_def)
  qed
  show "tbl d' = tbl d \<and> (e = ErrTaskNotFound \<and> tasks_of (tbl d) i = None \<or> foreign e)"
    if "res = Some e"
  proof (cases r)
    case (Inl err)
    then show ?thesis using that res q exec_failed by (auto simp: foreign_def)
  next
    case (Inr x)
    then obtain n where n: "r = Inr (Inr n)" using q affected_known by (cases x) auto
    with that res have z: "n = 0" "e = ErrTaskNotFound" by (auto split: if_splits)
    show ?thesis using delete_row [OF q [unfolded n]] z
      by (auto simp: tasks_of_def split: option.splits)
  qed
qed

text \<open>The rows a list query may return, for a nil filter as well.\<close>

lemma list_query:
  assumes "QueryContext db d (fst (buildListQuery flt)) (snd (buildListQuery flt)) = (d', Inr (rs, None))"
  shows "tbl d' = tbl d"
    and "flt = Some f \<Longrightarrow> scan_rows rs None [] = Inr (selected f (tasks_of (tbl d)))"
proof -
  show "tbl d' = tbl d"
    using assms select_asc select_desc select_to_asc select_to_desc
    by (fastforce simp: buildListQuery_def Let_def split: option.splits if_splits)
  let ?l = "effective_limit (Limit f)"
  note pages = scan_page [OF rows_ok_tbl] scan_page [OF rows_ok_below [OF rows_ok_tbl]]
  show "scan_rows rs None [] = Inr (selected f (tasks_of (tbl d)))" if flt: "flt = Some f"
  proof -
    have l: "(if 0 < Limit f then Limit f else defaultListLimit) = ?l"
      by (simp add: effective_limit_def)
    consider (to_desc) "0 < ToID f" "Sort f = SortDesc" | (to_asc) "0 < ToID f" "Sort f \<noteq> SortDesc"
      | (desc) "\<not> 0 < ToID f" "Sort f = SortDesc" | (asc) "\<not> 0 < ToID f" "Sort f \<noteq> SortDesc"
      by blast
    then show ?thesis
    proof cases
      case to_desc
      then have "rs = map TaskRow (page ?l (Offset f) (rev (rows_asc (below (ToID f) (tbl d)))))"
        using assms flt select_to_desc by (auto simp: buildListQuery_def Let_def l)
      then show ?thesis using to_desc pages
        by (simp add: selected_def Let_def tasks_of_below)
    next
      case to_asc
      then have "rs = map TaskRow (page ?l (Offset f) (rows_asc (below (ToID f) (tbl d))))"
        using assms flt select_to_asc by (auto simp: buildListQuery_def Let_def l)
      then show ?thesis using to_asc pages
        by (simp add: selected_def Let_def tasks_of_below)
    next
      case desc
      then have "rs = map TaskRow (page ?l (Offset f) (rev (rows_asc (tbl d))))"
        using assms flt select_desc by (auto simp: buildListQuery_def Let_def l)
      then show ?thesis using desc pages by (simp add: selected_def Let_def)
    next
      case asc
      then have "rs = map TaskRow (page ?l (Offset f) (rows_asc (tbl d)))"
        using assms flt select_asc by (auto simp: buildListQuery_def Let_def l)
      then show ?thesis using asc pages by (simp add: selected_def Let_def)
    qed
  qed
qed

lemma list_cases:
  assumes "TaskRepository_List db d flt = (d', res)"
  shows "tbl d' = tbl d"
    and "flt = Some f \<Longrightarrow> res = Inr ts \<Longrightarrow> ts = selected f (tasks_of (tbl d))"
    and "res = Inl e \<Longrightarrow> internal e"
proof -
  let ?q = "QueryContext db d (fst (buildListQuery flt)) (snd (buildListQuery flt))"
  have eq: "TaskRepository_List db d flt = (case ?q of (d', Inl err) \<Rightarrow> (d', Inl (Errorf ''list tasks'' err))
      | (d', Inr (rows, rowsErr)) \<Rightarrow> (d', scan_rows rows rowsErr []))"
    by (simp add: TaskRepository_List_def case_prod_beta)
  consider (bad) e where "?q = (d', Inl e)" | (mid) rs e where "?q = (d', Inr (rs, Some e))"
    | (ok) rs where "?q = (d', Inr (rs, None))"
    using assms unfolding eq by (auto split: prod.splits sum.splits)
  note cases = this
  show "tbl d' = tbl d"
    by (rule cases) (use query_failed rows_failed list_query(1) in blast)+
  show "ts = selected f (tasks_of (tbl d))" if "flt = Some f" "res = Inr ts"
  proof (rule cases)
    fix e assume "?q = (d', Inl e)"
    then show ?thesis using assms that unfolding eq by simp
  next
    fix rs e assume q: "?q = (d', Inr (rs, Some e))"
    have "\<exists>err. scan_rows rs (Some e) acc = Inl err" for acc
      by (induction rs arbitrary: acc) (auto split: sum.splits)
    then show ?thesis using assms that q unfolding eq by (auto dest: meta_spec [of _ "[]"])
  next
    fix rs assume q: "?q = (d', Inr (rs, None))"
    then show ?thesis using assms that list_query(2) [OF q that(1)] unfolding eq by simp
  qed
  show "internal e" if "res = Inl e"
  proof (rule cases)
    fix x assume q: "?q = (d', Inl x)"
    then show ?thesis using assms that query_failed [OF q] foreign_internal unfolding eq by auto
  next
    fix rs x assume q: "?q = (d', Inr (rs, Some x))"
    then show ?thesis
      using assms that rows_failed [OF q] scan_rows_internal [of rs "Some x" "[]" e] unfolding eq by auto
  next
    fix rs assume q: "?q = (d', Inr (rs, None))"
    then show ?thesis using assms that scan_rows_internal [of rs None "[]" e] unfolding eq by auto
  qed
qed

lemma count_query:
  assumes "(case flt of Some f \<Rightarrow> (if 0 < ToID f then QueryContext db d queryCountTasksToID [AInt (ToID f)]
      else QueryContext db d queryCountTasks []) | None \<Rightarrow> QueryContext db d queryCountTasks []) = (d', r)"
  shows "tbl d' = tbl d"
    and "flt = Some f \<Longrightarrow> r = Inr (rs, None) \<Longrightarrow>
      rs = [IntRow (int (card (dom (if 0 < ToID f then tasks_of (tbl d) |` {..<ToID f} else tasks_of (tbl d)))))]"
proof -
  consider (bad) e where "r = Inl e" | (mid) rs e where "r = Inr (rs, Some e)" | (ok) rs where "r = Inr (rs, None)"
    by (metis option.exhaust sum.exhaust surj_pair)
  then show "tbl d' = tbl d"
    by cases (use assms query_failed rows_failed count_rows count_to in
      \<open>fastforce split: option.splits if_splits\<close>)+
  show "rs = [IntRow (int (card (dom (if 0 < ToID f then tasks_of (tbl d) |` {..<ToID f} else tasks_of (tbl d)))))]"
    if "flt = Some f" "r = Inr (rs, None)"
    using assms that count_rows count_to card_tasks_of [OF rows_ok_tbl]
      card_tasks_of [OF rows_ok_below [OF rows_ok_tbl]]
    by (cases "0 < ToID f") (fastforce simp: tasks_of_below)+
qed

lemma count_cases:
  assumes "TaskRepository_Count db d flt = (d', res)"
  shows "tbl d' = tbl d"
    and "flt = Some f \<Longrightarrow> res = Inr n \<Longrightarrow>
      unat n = card (dom (if 0 < ToID f then tasks_of (tbl d) |` {..<ToID f} else tasks_of (tbl d)))"
    and "res = Inl e \<Longrightarrow> internal e"
proof -
  let ?q = "case flt of Some f \<Rightarrow> (if 0 < ToID f then QueryContext db d queryCountTasksToID [AInt (ToID f)]
      else QueryContext db d queryCountTasks []) | None \<Rightarrow> QueryContext db d queryCountTasks []"
  let ?n = "card (dom (if 0 < ToID f then tasks_of (tbl d) |` {..<ToID f} else tasks_of (tbl d)))"
  obtain r where q: "?q = (d', r)" and res: "res = (case Row_Scan scan_uint64 r of
      Inl err \<Rightarrow> Inl (Errorf ''count tasks'' err) | Inr n \<Rightarrow> Inr n)"
    using assms unfolding TaskRepository_Count_def by (auto split: prod.splits)
  show "tbl d' = tbl d" using q by (rule count_query)
  show "unat n = ?n" if "flt = Some f" "res = Inr n"
  proof -
    from that(2) res obtain row rows where r: "r = Inr (row # rows, None)" and n: "scan_uint64 row = Inr n"
      by (auto simp: Row_Scan_Inr split: sum.splits)
    have "row # rows = [IntRow (int ?n)]" by (rule count_query(2) [OF q that(1) r])
    with n have "int ?n < 2 ^ 64" and "n = of_nat ?n" by (auto split: if_splits)
    then show ?thesis by (simp add: unat_of_nat)
  qed
  have "foreign x" if "r = Inl x \<or> (\<exists>rs. r = Inr (rs, Some x))" for x
    using that q query_failed rows_failed by (auto split: option.splits if_splits)
  then show "internal e" if "res = Inl e"
    using that res Row_Scan_internal [of scan_uint64 r] scan_errors(1) by (auto split: sum.splits)
qed

end

text \<open>For every database that satisfies the assumptions, the adapter honours the port's contract.\<close>

sublocale tasks_table \<subseteq> repo: task_repository "NewTaskRepository db" "\<lambda>d. tasks_of (tbl d)" stamp
proof (unfold_locales, goal_cases)
  case (1 s)
  show ?case by (rule finite_tasks_of [OF rows_ok_tbl])
next
  case (2 s i t)
  then obtain r where r: "tbl s (uint i) = Some r" and t: "t = row_task r" by (auto simp: tasks_of_def)
  then show ?case using tbl_row [OF r] by (auto simp: row_task_def stored_def)
next
  case (3 s t s' i)
  then show ?case using store_ok by (simp add: NewTaskRepository_def)
next
  case (4 s t s' e)
  then have g: "TaskRepository_Store db s t = (s', Inl e)" by (simp add: NewTaskRepository_def)
  show ?case using store_err [OF g] foreign_internal by auto
next
  case (5 s i s' t)
  then show ?case using get_cases(1,2) by (simp add: NewTaskRepository_def)
next
  case (6 s i s' e)
  then have g: "TaskRepository_Get db s i = (s', Inl e)" by (simp add: NewTaskRepository_def)
  show ?case using get_cases(1) [OF g] get_cases(3) [OF g refl] foreign_internal by auto
next
  case (7 s t s')
  then show ?case using update_cases(1) by (simp add: NewTaskRepository_def)
next
  case (8 s t s' e)
  then have g: "TaskRepository_Update db s t = (s', Some e)" by (simp add: NewTaskRepository_def)
  show ?case using update_cases(2) [OF g refl] foreign_internal by auto
next
  case (9 s i s')
  then show ?case using delete_cases(1) by (simp add: NewTaskRepository_def)
next
  case (10 s i s' e)
  then have g: "TaskRepository_Delete db s i = (s', Some e)" by (simp add: NewTaskRepository_def)
  show ?case using delete_cases(2) [OF g refl] foreign_internal by auto
next
  case (11 s f s' ts)
  then have g: "TaskRepository_List db s (Some f) = (s', Inr ts)" by (simp add: NewTaskRepository_def)
  show ?case using list_cases(1) [OF g] list_cases(2) [OF g refl refl] by simp
next
  case (12 s flt s' e)
  then have g: "TaskRepository_List db s flt = (s', Inl e)" by (simp add: NewTaskRepository_def)
  show ?case using list_cases(1) [OF g] list_cases(3) [OF g refl] by simp
next
  case (13 s f s' n)
  then have g: "TaskRepository_Count db s (Some f) = (s', Inr n)" by (simp add: NewTaskRepository_def)
  show ?case using count_cases(1) [OF g] count_cases(2) [OF g refl refl] by simp
next
  case (14 s flt s' e)
  then have g: "TaskRepository_Count db s flt = (s', Inl e)" by (simp add: NewTaskRepository_def)
  show ?case using count_cases(1) [OF g] count_cases(3) [OF g refl] by simp
qed

subsection \<open>Facts about slices\<close>

lemma length_rows_asc: "length (rows_asc m) = card (dom m)"
  by (simp add: rows_asc_def)

lemma rows_asc_below:
  assumes "rows_ok m"
  shows "rows_asc (below k m) = filter (\<lambda>r. row_id r < uint k) (rows_asc m)"
proof -
  have fin: "finite (dom m)" using assms by (simp add: rows_ok_def)
  have ids: "row_id (the (m i)) = i" if "i \<in> dom m" for i
    using that rows_ok_id [OF assms] by auto
  have "sorted_list_of_set (dom (below k m)) = filter (\<lambda>i. i < uint k) (sorted_list_of_set (dom m))"
    by (rule sorted_distinct_set_unique)
       (use fin in \<open>auto simp: below_def sorted_wrt_filter\<close>)
  moreover have "map (\<lambda>i. the (below k m i)) (filter (\<lambda>i. i < uint k) xs)
      = filter (\<lambda>r. row_id r < uint k) (map (\<lambda>i. the (m i)) xs)" if "set xs \<subseteq> dom m" for xs
    using that by (induction xs) (auto simp: below_def ids)
  ultimately show ?thesis using fin by (simp add: rows_asc_def)
qed

subsection \<open>A database that answers\<close>

text \<open>
  The statements the adapter issues, with the arguments it binds. \<open>up n d\<close> says that the database
  in state \<open>d\<close> answers the next \<open>n\<close> of them; then no operation of the adapter fails internally.
\<close>

inductive adapter_query :: "string \<Rightarrow> sqlarg list \<Rightarrow> bool" where
  "adapter_query queryStoreTask [AText n, AText b, AText s, ATime c, ATimeOpt upd]"
| "adapter_query queryGetTask [AInt k]"
| "adapter_query queryListTasksAsc [AInt l, AInt off]"
| "adapter_query queryListTasksDesc [AInt l, AInt off]"
| "adapter_query queryListTasksToIDAsc [AInt k, AInt l, AInt off]"
| "adapter_query queryListTasksToIDDesc [AInt k, AInt l, AInt off]"
| "adapter_query queryCountTasks []"
| "adapter_query queryCountTasksToID [AInt k]"

inductive adapter_exec :: "string \<Rightarrow> sqlarg list \<Rightarrow> bool" where
  "adapter_exec queryUpdateTask [AText n, AText b, AText s, ATimeOpt upd, AInt k]"
| "adapter_exec queryDeleteTask [AInt k]"

locale reliable_table = tasks_table db tbl stamp
  for db :: "'db sqldb" and tbl :: "'db \<Rightarrow> int \<rightharpoonup> task_row" and stamp :: "time \<Rightarrow> time" +
  fixes up :: "nat \<Rightarrow> 'db \<Rightarrow> bool"
  assumes up_mono: "up (Suc n) d \<Longrightarrow> up n d"
    and query_up: "up (Suc n) d \<Longrightarrow> adapter_query q as \<Longrightarrow>
        \<exists>d' rs. QueryContext db d q as = (d', Inr (rs, None)) \<and> up n d'"
    and exec_up: "up (Suc n) d \<Longrightarrow> adapter_exec q as \<Longrightarrow>
        \<exists>d' m. ExecContext db d q as = (d', Inr (Inr m)) \<and> up n d'"

locale reliable_repository = task_repository R tasks stamp
  for R :: "'r TaskRepository" and tasks :: "'r \<Rightarrow> uint64 \<rightharpoonup> Task" and stamp :: "time \<Rightarrow> time" +
  fixes up :: "nat \<Rightarrow> 'r \<Rightarrow> bool"
  assumes up_less: "up (Suc n) s \<Longrightarrow> up n s"
    and Store_up: "up (Suc n) s \<Longrightarrow> \<exists>s' i. repo_Store R s t = (s', Inr i) \<and> up n s'"
    and Get_up: "up (Suc n) s \<Longrightarrow>
        \<exists>s' x. repo_Get R s i = (s', x) \<and> up n s' \<and> (\<forall>e. x = Inl e \<longrightarrow> e = ErrTaskNotFound)"
    and Update_up: "up (Suc n) s \<Longrightarrow>
        \<exists>s' x. repo_Update R s t = (s', x) \<and> up n s' \<and> (\<forall>e. x = Some e \<longrightarrow> e = ErrTaskNotFound)"
    and Delete_up: "up (Suc n) s \<Longrightarrow>
        \<exists>s' x. repo_Delete R s i = (s', x) \<and> up n s' \<and> (\<forall>e. x = Some e \<longrightarrow> e = ErrTaskNotFound)"
    and List_up: "up (Suc n) s \<Longrightarrow> \<exists>s' ts. repo_List R s (Some f) = (s', Inr ts) \<and> up n s'"
    and Count_up: "up (Suc n) s \<Longrightarrow> \<exists>s' k. repo_Count R s (Some f) = (s', Inr k) \<and> up n s'"

lemma card_rows: "rows_ok m \<Longrightarrow> card (dom m) < 2 ^ 63"
proof -
  assume "rows_ok m"
  then have "dom m \<subseteq> {0<..<2 ^ 63}" by (auto simp: rows_ok_def)
  then have "card (dom m) \<le> card {0<..<2 ^ 63 :: int}" by (rule card_mono [rotated]) simp
  then show ?thesis by simp
qed

lemma card_below: "rows_ok m \<Longrightarrow> card (dom (below k m)) < 2 ^ 63"
  using card_rows rows_ok_below by blast

sublocale reliable_table \<subseteq> rel: reliable_repository "NewTaskRepository db" "\<lambda>d. tasks_of (tbl d)" stamp up
proof (unfold_locales, goal_cases)
  case (1 n s)
  then show ?case by (rule up_mono)
next
  case (2 n s t)
  obtain s' rs where q: "QueryContext db s queryStoreTask [AText (Name t), AText (Body t),
      AText (TaskStatus_String (Status t)), ATime (CreatedAt t), ATimeOpt (UpdatedAt t)] =
      (s', Inr (rs, None))" and up: "up n s'"
    using query_up [OF 2 adapter_query.intros(1)] by blast
  obtain i where "rs = [IntRow i]" "0 < i" "i < 2 ^ 63" using insert_row [OF q] by blast
  then show ?case using q up by (simp add: NewTaskRepository_def TaskRepository_Store_def Row_Scan_def)
next
  case (3 n s i)
  obtain s' rs where q: "QueryContext db s queryGetTask [AInt i] = (s', Inr (rs, None))" and up: "up n s'"
    using query_up [OF 3 adapter_query.intros(2)] by blast
  have rs: "rs = (case tbl s (uint i) of None \<Rightarrow> [] | Some r \<Rightarrow> [TaskRow r])"
    using select_row [OF q] by simp
  show ?case
  proof (cases "tbl s (uint i)")
    case None
    then show ?thesis
      using q up rs by (simp add: NewTaskRepository_def TaskRepository_Get_def Row_Scan_def)
  next
    case (Some r)
    then show ?thesis
      using q up rs tbl_row [OF Some]
      by (simp add: NewTaskRepository_def TaskRepository_Get_def Row_Scan_def)
  qed
next
  case (4 n s t)
  show ?case
    using exec_up [OF 4 adapter_exec.intros(1), of "Name t" "Body t" "TaskStatus_String (Status t)"
        "UpdatedAt t" "ID t"]
    by (auto simp: NewTaskRepository_def TaskRepository_Update_def)
next
  case (5 n s i)
  show ?case
    using exec_up [OF 5 adapter_exec.intros(2), of i]
    by (auto simp: NewTaskRepository_def TaskRepository_Delete_def)
next
  case (6 n s f)
  have "adapter_query (fst (buildListQuery (Some f))) (snd (buildListQuery (Some f)))"
    by (simp add: buildListQuery_def Let_def adapter_query.intros)
  then obtain s' rs where q: "QueryContext db s (fst (buildListQuery (Some f)))
      (snd (buildListQuery (Some f))) = (s', Inr (rs, None))" and up: "up n s'"
    using query_up [OF 6] by blast
  show ?case
    using q up list_query(2) [OF q refl]
    by (cases "buildListQuery (Some f)") (simp add: NewTaskRepository_def TaskRepository_List_def)
next
  case (7 n s f)
  let ?q = "if 0 < ToID f then QueryContext db s queryCountTasksToID [AInt (ToID f)]
    else QueryContext db s queryCountTasks []"
  obtain s' rs where q: "?q = (s', Inr (rs, None))" and up: "up n s'"
    using query_up [OF 7 adapter_query.intros(8), of "ToID f"]
      query_up [OF 7 adapter_query.intros(7)] by (cases "0 < ToID f") auto
  have "\<exists>k. rs = [IntRow (int k)] \<and> k < 2 ^ 63"
    using q count_rows [of s s' rs] count_to [of s "ToID f" s' rs] card_rows [OF rows_ok_tbl]
      card_below [OF rows_ok_tbl] by (auto split: if_splits)
  then show ?case
    using q up by (auto simp: NewTaskRepository_def TaskRepository_Count_def Row_Scan_def)
qed

end
