(* ===== verification/Reference_Table.thy ===== *)
theory Reference_Table
  imports Task_Repository "HOL-Library.Code_Target_Nat"
begin

text \<open>
  A table that satisfies the assumptions, with every statement executable: slot \<open>n\<close> of the list
  holds the row with id \<open>n + 1\<close>, or nothing once that row is deleted, so the next id of the
  sequence is the length plus one and no id is ever used twice. \<open>pg_faults\<close> is a script of
  injected failures: a statement whose entry is \<open>Some text\<close> fails with that text and changes
  nothing. Times are kept in microseconds.
\<close>

record pg =
  pg_slots :: "task_row option list"
  pg_faults :: "string option list"

definition pg_stamp :: "time \<Rightarrow> time" where
  "pg_stamp t = t - t mod 1000"

definition pg_row :: "nat \<Rightarrow> task_row \<Rightarrow> task_row" where
  "pg_row n r =
     r\<lparr>row_id := int n + 1, row_created_at := pg_stamp (row_created_at r),
       row_updated_at := map_option pg_stamp (row_updated_at r)\<rparr>"

definition pg_tbl :: "pg \<Rightarrow> int \<rightharpoonup> task_row" where
  "pg_tbl d i =
     (if 0 < i \<and> i < 2 ^ 63 \<and> nat i \<le> length (pg_slots d)
      then map_option (pg_row (nat i - 1)) (pg_slots d ! (nat i - 1)) else None)"

definition pg_rows :: "pg \<Rightarrow> task_row list" where
  "pg_rows d = List.map_filter (\<lambda>n. pg_tbl d (int n)) [1..<Suc (length (pg_slots d))]"

definition pg_fault :: "pg \<Rightarrow> string option \<times> pg" where
  "pg_fault d =
     (case pg_faults d of [] \<Rightarrow> (None, d) | f # fs \<Rightarrow> (f, d\<lparr>pg_faults := fs\<rparr>))"

definition pg_select :: "pg \<Rightarrow> string \<Rightarrow> sqlarg list \<Rightarrow> query_result" where
  "pg_select d q as =
     (case as of
        [AInt k] \<Rightarrow>
          (if q = queryGetTask
           then Inr (case pg_tbl d (uint k) of None \<Rightarrow> [] | Some r \<Rightarrow> [TaskRow r], None)
           else if q = queryCountTasksToID
           then Inr ([IntRow (int (length (filter (\<lambda>r. row_id r < uint k) (pg_rows d))))], None)
           else Inl (ExtError ''syntax error''))
      | [AInt l, AInt off] \<Rightarrow>
          (if q = queryListTasksAsc then Inr (map TaskRow (page l off (pg_rows d)), None)
           else if q = queryListTasksDesc then Inr (map TaskRow (page l off (rev (pg_rows d))), None)
           else Inl (ExtError ''syntax error''))
      | [AInt k, AInt l, AInt off] \<Rightarrow>
          (let rs = filter (\<lambda>r. row_id r < uint k) (pg_rows d)
           in if q = queryListTasksToIDAsc then Inr (map TaskRow (page l off rs), None)
              else if q = queryListTasksToIDDesc then Inr (map TaskRow (page l off (rev rs)), None)
              else Inl (ExtError ''syntax error''))
      | [] \<Rightarrow>
          (if q = queryCountTasks then Inr ([IntRow (int (length (pg_rows d)))], None)
           else Inl (ExtError ''syntax error''))
      | _ \<Rightarrow> Inl (ExtError ''syntax error''))"

definition pg_insert :: "pg \<Rightarrow> sqlarg list \<Rightarrow> pg \<times> query_result" where
  "pg_insert d as =
     (case as of
        [AText n, AText b, AText s, ATime c, ATimeOpt upd] \<Rightarrow>
          (if 2 ^ 63 \<le> int (length (pg_slots d)) + 1
           then (d, Inl (ExtError ''nextval: reached maximum value of sequence''))
           else (d\<lparr>pg_slots := pg_slots d @ [Some \<lparr>row_id = 0, row_name = n, row_body = b,
                   row_status = s, row_created_at = c, row_updated_at = upd\<rparr>]\<rparr>,
                 Inr ([IntRow (int (length (pg_slots d)) + 1)], None)))
      | _ \<Rightarrow> (d, Inl (ExtError ''syntax error'')))"

definition pg_QueryContext :: "pg \<Rightarrow> string \<Rightarrow> sqlarg list \<Rightarrow> pg \<times> query_result" where
  "pg_QueryContext d0 q as =
     (case pg_fault d0 of
        (Some text, d) \<Rightarrow> (d, Inl (ExtError text))
      | (None, d) \<Rightarrow> if q = queryStoreTask then pg_insert d as else (d, pg_select d q as))"

definition pg_update :: "pg \<Rightarrow> sqlarg list \<Rightarrow> pg \<times> exec_result" where
  "pg_update d as =
     (case as of
        [AText n, AText b, AText s, ATimeOpt upd, AInt k] \<Rightarrow>
          (case pg_tbl d (uint k) of
             None \<Rightarrow> (d, Inr (Inr 0))
           | Some r \<Rightarrow>
               (d\<lparr>pg_slots := (pg_slots d)[unat k - 1 := Some (set_row n b s upd r)]\<rparr>, Inr (Inr 1)))
      | _ \<Rightarrow> (d, Inl (ExtError ''syntax error'')))"

definition pg_delete :: "pg \<Rightarrow> sqlarg list \<Rightarrow> pg \<times> exec_result" where
  "pg_delete d as =
     (case as of
        [AInt k] \<Rightarrow>
          (case pg_tbl d (uint k) of
             None \<Rightarrow> (d, Inr (Inr 0))
           | Some r \<Rightarrow> (d\<lparr>pg_slots := (pg_slots d)[unat k - 1 := None]\<rparr>, Inr (Inr 1)))
      | _ \<Rightarrow> (d, Inl (ExtError ''syntax error'')))"

definition pg_ExecContext :: "pg \<Rightarrow> string \<Rightarrow> sqlarg list \<Rightarrow> pg \<times> exec_result" where
  "pg_ExecContext d0 q as =
     (case pg_fault d0 of
        (Some text, d) \<Rightarrow> (d, Inl (ExtError text))
      | (None, d) \<Rightarrow>
          if q = queryUpdateTask then pg_update d as
          else if q = queryDeleteTask then pg_delete d as
          else (d, Inl (ExtError ''syntax error'')))"

definition pg_db :: "pg sqldb" where
  "pg_db = \<lparr>QueryContext = pg_QueryContext, ExecContext = pg_ExecContext\<rparr>"

definition pg_empty :: pg where
  "pg_empty = \<lparr>pg_slots = [], pg_faults = []\<rparr>"

subsection \<open>The reference table satisfies the assumptions\<close>

lemma pg_stamp_idem [simp]: "pg_stamp (pg_stamp t) = pg_stamp t"
  by (simp add: pg_stamp_def mod_diff_left_eq [symmetric])

lemma pg_stamp_idem_option [simp]: "map_option pg_stamp (map_option pg_stamp x) = map_option pg_stamp x"
  by (cases x) simp_all

lemma pg_tbl_slots: "pg_slots d = pg_slots d' \<Longrightarrow> pg_tbl d = pg_tbl d'"
  by (simp add: pg_tbl_def fun_eq_iff)

lemma pg_fault_tbl: "pg_fault d = (f, d') \<Longrightarrow> pg_tbl d' = pg_tbl d \<and> pg_slots d' = pg_slots d"
  by (cases "pg_faults d") (auto simp: pg_fault_def intro!: pg_tbl_slots)

lemma pg_tbl_bounds: "pg_tbl d i = Some r \<Longrightarrow> 0 < i \<and> i < 2 ^ 63 \<and> nat i \<le> length (pg_slots d)"
  by (simp add: pg_tbl_def split: if_splits)

lemma pg_tbl_row:
  "pg_tbl d i = Some r \<Longrightarrow> row_id r = i \<and> 0 < i \<and> i < 2 ^ 63 \<and>
     pg_stamp (row_created_at r) = row_created_at r \<and>
     map_option pg_stamp (row_updated_at r) = row_updated_at r"
  by (auto simp: pg_tbl_def pg_row_def split: if_splits)

lemma pg_dom: "dom (pg_tbl d) = int ` {n \<in> {1..<Suc (length (pg_slots d))}. pg_tbl d (int n) \<noteq> None}"
proof
  show "dom (pg_tbl d) \<subseteq> int ` {n \<in> {1..<Suc (length (pg_slots d))}. pg_tbl d (int n) \<noteq> None}"
  proof
    fix i assume "i \<in> dom (pg_tbl d)"
    then obtain r where r: "pg_tbl d i = Some r" by blast
    then have "i = int (nat i)" "nat i \<in> {1..<Suc (length (pg_slots d))}"
      using pg_tbl_bounds [OF r] by auto
    then show "i \<in> int ` {n \<in> {1..<Suc (length (pg_slots d))}. pg_tbl d (int n) \<noteq> None}"
      using r by (intro image_eqI [of _ _ "nat i"]) auto
  qed
qed auto

lemma pg_rows_ok: "rows_ok (pg_tbl d)"
  using pg_tbl_row by (auto simp: rows_ok_def pg_dom)

lemma pg_rows_asc: "rows_asc (pg_tbl d) = pg_rows d"
proof -
  let ?ns = "filter (\<lambda>n. pg_tbl d (int n) \<noteq> None) [1..<Suc (length (pg_slots d))]"
  have "sorted_list_of_set (dom (pg_tbl d)) = map int ?ns"
  proof (rule sorted_distinct_set_unique)
    show "sorted (map int ?ns)"
      by (simp add: sorted_map sorted_wrt_filter del: upt_Suc)
    show "distinct (map int ?ns)" by (simp add: distinct_map inj_on_def)
    show "set (sorted_list_of_set (dom (pg_tbl d))) = set (map int ?ns)"
      using pg_rows_ok [of d] by (simp add: rows_ok_def) (auto simp: pg_dom)
  qed simp_all
  then show ?thesis by (simp add: rows_asc_def pg_rows_def List.map_filter_def comp_def)
qed

lemma pg_tbl_insert:
  assumes "int (length (pg_slots d)) + 1 < 2 ^ 63"
  shows "pg_tbl (d\<lparr>pg_slots := pg_slots d @ [Some r]\<rparr>) =
     (pg_tbl d)(int (length (pg_slots d)) + 1 \<mapsto> pg_row (length (pg_slots d)) r)"
    and "pg_tbl d (int (length (pg_slots d)) + 1) = None"
proof -
  let ?n = "length (pg_slots d)"
  show "pg_tbl (d\<lparr>pg_slots := pg_slots d @ [Some r]\<rparr>) = (pg_tbl d)(int ?n + 1 \<mapsto> pg_row ?n r)"
  proof
    fix i
    consider "i = int ?n + 1" | "i \<le> 0" | "0 < i" "nat i \<le> ?n" | "Suc ?n < nat i" by linarith
    then show "pg_tbl (d\<lparr>pg_slots := pg_slots d @ [Some r]\<rparr>) i = ((pg_tbl d)(int ?n + 1 \<mapsto> pg_row ?n r)) i"
      by cases (use assms in \<open>auto simp: pg_tbl_def nth_append nat_add_distrib\<close>)
  qed
  show "pg_tbl d (int ?n + 1) = None" by (simp add: pg_tbl_def nat_add_distrib)
qed

lemma pg_replace:
  assumes "pg_tbl d (uint k) = Some r"
  shows "pg_tbl (d\<lparr>pg_slots := (pg_slots d)[unat k - 1 := x]\<rparr>) =
     (pg_tbl d)(uint k := map_option (pg_row (unat k - 1)) x)"
proof
  fix i
  have b: "0 < uint k" "uint k < 2 ^ 63" "nat (uint k) \<le> length (pg_slots d)"
    using pg_tbl_bounds [OF assms] by simp_all
  have u: "unat k - 1 = nat (uint k) - 1" by simp
  show "pg_tbl (d\<lparr>pg_slots := (pg_slots d)[unat k - 1 := x]\<rparr>) i =
     ((pg_tbl d)(uint k := map_option (pg_row (unat k - 1)) x)) i"
  proof (cases "i = uint k")
    case True
    have "nat (uint k) - 1 < length (pg_slots d)" using b by linarith
    then show ?thesis using True b unfolding u by (simp add: pg_tbl_def)
  next
    case False
    then have "0 < i \<Longrightarrow> nat i - 1 \<noteq> nat (uint k) - 1" using b by linarith
    then show ?thesis using False unfolding u by (auto simp: pg_tbl_def nth_list_update)
  qed
qed

lemma pg_slot_id: "0 < uint k \<Longrightarrow> int (unat k - 1) + 1 = uint k"
  by (cases "unat k") (simp_all add: uint_nat)

lemma query_neq [simp]:
  "queryGetTask \<noteq> queryStoreTask" "queryCountTasksToID \<noteq> queryStoreTask"
  "queryCountTasks \<noteq> queryStoreTask" "queryListTasksAsc \<noteq> queryStoreTask"
  "queryListTasksDesc \<noteq> queryStoreTask" "queryListTasksToIDAsc \<noteq> queryStoreTask"
  "queryListTasksToIDDesc \<noteq> queryStoreTask" "queryCountTasksToID \<noteq> queryGetTask"
  "queryListTasksDesc \<noteq> queryListTasksAsc" "queryListTasksToIDDesc \<noteq> queryListTasksToIDAsc"
  "queryDeleteTask \<noteq> queryUpdateTask"
  by (simp_all add: query_defs)

lemma foreign_ExtError [simp]: "foreign (ExtError s)"
  by (simp add: foreign_def)

lemma pg_query_cases:
  assumes "pg_QueryContext d q as = (d', res)"
  obtains (fault) msg where "res = Inl (ExtError msg)" "pg_tbl d' = pg_tbl d"
    | (select) "q \<noteq> queryStoreTask" "res = pg_select d' q as" "pg_tbl d' = pg_tbl d"
    | (insert) d1 where "q = queryStoreTask" "pg_insert d1 as = (d', res)" "pg_tbl d1 = pg_tbl d"
  using assms pg_fault_tbl [of d]
  by (fastforce simp: pg_QueryContext_def split: prod.splits option.splits if_splits)

lemma pg_exec_cases:
  assumes "pg_ExecContext d q as = (d', res)"
  obtains (fault) msg where "res = Inl (ExtError msg)" "pg_tbl d' = pg_tbl d"
    | (update) d1 where "q = queryUpdateTask" "pg_update d1 as = (d', res)" "pg_tbl d1 = pg_tbl d"
    | (delete) d1 where "q = queryDeleteTask" "pg_delete d1 as = (d', res)" "pg_tbl d1 = pg_tbl d"
  using assms pg_fault_tbl [of d]
  by (fastforce simp: pg_ExecContext_def split: prod.splits option.splits if_splits)

lemma pg_select_result: "pg_select d q as = Inl e \<Longrightarrow> foreign e" "pg_select d q as \<noteq> Inr (rs, Some e)"
  by (auto simp: pg_select_def Let_def split: list.splits sqlarg.splits if_splits option.splits)

lemma pg_insert_result:
  "pg_insert d as = (d', Inl e) \<Longrightarrow> d' = d \<and> foreign e" "pg_insert d as \<noteq> (d', Inr (rs, Some e))"
  by (auto simp: pg_insert_def split: list.splits sqlarg.splits if_splits)

interpretation pg: tasks_table pg_db pg_tbl pg_stamp
proof (unfold_locales, goal_cases)
  case (1 d)
  show ?case using pg_rows_ok by (simp add: rows_ok_def)
next
  case (2 d i r)
  then show ?case by (rule pg_tbl_row)
next
  case (3 d q as d' e)
  then have "pg_QueryContext d q as = (d', Inl e)" by (simp add: pg_db_def)
  then show ?case
  proof (cases rule: pg_query_cases)
    case select
    then show ?thesis using pg_select_result(1) [of d' q as e] by simp
  next
    case (insert d1)
    then show ?thesis using pg_insert_result(1) [of d1 as d' e] by auto
  qed simp
next
  case (4 d q as d' rs e)
  then have "pg_QueryContext d q as = (d', Inr (rs, Some e))" by (simp add: pg_db_def)
  then show ?case
    by (cases rule: pg_query_cases) (metis pg_select_result(2) pg_insert_result(2) sum.distinct(1))+
next
  case (5 d q as d' e)
  then have "pg_ExecContext d q as = (d', Inl e)" by (simp add: pg_db_def)
  then show ?case
    by (cases rule: pg_exec_cases)
       (auto simp: pg_update_def pg_delete_def split: list.splits sqlarg.splits option.splits)
next
  case (6 d q as d' e)
  have "pg_ExecContext d q as \<noteq> (d', Inr (Inl e))"
  proof
    assume "pg_ExecContext d q as = (d', Inr (Inl e))"
    then show False
      by (cases rule: pg_exec_cases)
         (auto simp: pg_update_def pg_delete_def split: list.splits sqlarg.splits option.splits)
  qed
  then show ?case by (simp add: pg_db_def)
next
  case (7 d n b s c upd d' rs)
  then have "pg_QueryContext d queryStoreTask [AText n, AText b, AText s, ATime c, ATimeOpt upd] = (d', Inr (rs, None))"
    by (simp add: pg_db_def)
  then show ?case
  proof (cases rule: pg_query_cases)
    case (insert d1)
    let ?r = "\<lparr>row_id = 0, row_name = n, row_body = b, row_status = s, row_created_at = c, row_updated_at = upd\<rparr>"
    have lt: "int (length (pg_slots d1)) + 1 < 2 ^ 63"
      and d': "d' = d1\<lparr>pg_slots := pg_slots d1 @ [Some ?r]\<rparr>"
      and rs: "rs = [IntRow (int (length (pg_slots d1)) + 1)]"
      using insert(2) by (auto simp: pg_insert_def split: if_splits)
    show ?thesis
      using pg_tbl_insert(1) [OF lt, of ?r] pg_tbl_insert(2) [OF lt] lt insert(3)
      by (intro exI [of _ "int (length (pg_slots d1)) + 1"]) (simp add: d' rs pg_row_def)
  qed simp_all
next
  case (8 d k d' rs)
  then have "pg_QueryContext d queryGetTask [AInt k] = (d', Inr (rs, None))" by (simp add: pg_db_def)
  then show ?case by (cases rule: pg_query_cases) (auto simp: pg_select_def)
next
  case (9 d l off d' rs)
  then have "pg_QueryContext d queryListTasksAsc [AInt l, AInt off] = (d', Inr (rs, None))"
    by (simp add: pg_db_def)
  then show ?case by (cases rule: pg_query_cases) (auto simp: pg_select_def pg_rows_asc [symmetric])
next
  case (10 d l off d' rs)
  then have "pg_QueryContext d queryListTasksDesc [AInt l, AInt off] = (d', Inr (rs, None))"
    by (simp add: pg_db_def)
  then show ?case by (cases rule: pg_query_cases) (auto simp: pg_select_def pg_rows_asc [symmetric])
next
  case (11 d k l off d' rs)
  then have "pg_QueryContext d queryListTasksToIDAsc [AInt k, AInt l, AInt off] = (d', Inr (rs, None))"
    by (simp add: pg_db_def)
  then show ?case
    by (cases rule: pg_query_cases)
       (auto simp: pg_select_def pg_rows_asc [symmetric] rows_asc_below [OF pg_rows_ok])
next
  case (12 d k l off d' rs)
  then have "pg_QueryContext d queryListTasksToIDDesc [AInt k, AInt l, AInt off] = (d', Inr (rs, None))"
    by (simp add: pg_db_def)
  then show ?case
    by (cases rule: pg_query_cases)
       (auto simp: pg_select_def pg_rows_asc [symmetric] rows_asc_below [OF pg_rows_ok])
next
  case (13 d d' rs)
  then have "pg_QueryContext d queryCountTasks [] = (d', Inr (rs, None))" by (simp add: pg_db_def)
  then show ?case
    by (cases rule: pg_query_cases)
       (auto simp: pg_select_def pg_rows_asc [symmetric] length_rows_asc)
next
  case (14 d k d' rs)
  then have "pg_QueryContext d queryCountTasksToID [AInt k] = (d', Inr (rs, None))" by (simp add: pg_db_def)
  then show ?case
    by (cases rule: pg_query_cases)
       (auto simp: pg_select_def pg_rows_asc [symmetric] rows_asc_below [OF pg_rows_ok, symmetric] length_rows_asc)
next
  case (15 d n b s upd k d' m)
  then have "pg_ExecContext d queryUpdateTask [AText n, AText b, AText s, ATimeOpt upd, AInt k] = (d', Inr (Inr m))"
    by (simp add: pg_db_def)
  then show ?case
  proof (cases rule: pg_exec_cases)
    case (update d1)
    show ?thesis
    proof (cases "pg_tbl d1 (uint k)")
      case None
      then show ?thesis using update by (auto simp: pg_update_def)
    next
      case (Some r)
      have "pg_row (unat k - 1) (set_row n b s upd r) = set_row n b s (map_option pg_stamp upd) r"
        using pg_tbl_row [OF Some] pg_slot_id [of k] by (simp add: pg_row_def set_row_def)
      then show ?thesis
        using update Some pg_replace [OF Some, of "Some (set_row n b s upd r)"]
        by (auto simp: pg_update_def)
    qed
  next
    case (delete d1)
    then show ?thesis by (metis query_neq(11))
  qed simp
next
  case (16 d k d' m)
  then have "pg_ExecContext d queryDeleteTask [AInt k] = (d', Inr (Inr m))" by (simp add: pg_db_def)
  then show ?case
  proof (cases rule: pg_exec_cases)
    case (delete d1)
    show ?thesis
    proof (cases "pg_tbl d1 (uint k)")
      case None
      then show ?thesis using delete by (auto simp: pg_delete_def)
    next
      case (Some r)
      then show ?thesis using delete pg_replace [OF Some, of None] by (auto simp: pg_delete_def)
    qed
  qed simp_all
qed

subsection \<open>It answers as long as no failure is scripted\<close>

definition pg_up :: "nat \<Rightarrow> pg \<Rightarrow> bool" where
  "pg_up n d = (list_all (\<lambda>f. f = None) (take n (pg_faults d)) \<and> int (length (pg_slots d)) + int n < 2 ^ 63)"

lemma pg_up_fault:
  "pg_up (Suc n) d \<Longrightarrow> \<exists>d'. pg_fault d = (None, d') \<and> pg_up n d' \<and> pg_slots d' = pg_slots d"
  by (cases "pg_faults d") (auto simp: pg_fault_def pg_up_def)

interpretation pgr: reliable_table pg_db pg_tbl pg_stamp pg_up
proof (unfold_locales, goal_cases)
  case (1 n d)
  then show ?case
    using set_take_subset_set_take [of n "Suc n" "pg_faults d"] by (auto simp: pg_up_def list_all_iff)
next
  case (2 n d q as)
  obtain d' where "pg_fault d = (None, d')" "pg_up n d'" "pg_slots d' = pg_slots d"
    using pg_up_fault [OF 2(1)] by blast
  from 2(2) this 2(1) show ?case
    by cases
       (auto simp: pg_db_def pg_QueryContext_def pg_select_def pg_insert_def pg_up_def Let_def)
next
  case (3 n d q as)
  obtain d' where "pg_fault d = (None, d')" "pg_up n d'"
    using pg_up_fault [OF 3(1)] by blast
  with 3 show ?case
    using query_neq(11) [symmetric]
    by (auto simp: pg_db_def pg_ExecContext_def pg_update_def pg_delete_def pg_up_def
        elim!: adapter_exec.cases split: option.splits)
qed

subsection \<open>A sample table\<close>

text \<open>Statements on concrete tables evaluate with these equations.\<close>

lemmas [sql_simps] =
  pg_db_def pg_empty_def pg_QueryContext_def pg_ExecContext_def pg_fault_def pg_select_def
  pg_insert_def pg_update_def pg_delete_def pg_tbl_def pg_rows_def pg_row_def pg_stamp_def
  set_row_def List.map_filter_def page_def Row_Scan_def NewTaskRepository_def buildListQuery_def
  TaskRepository_Store_def TaskRepository_Get_def TaskRepository_List_def TaskRepository_Count_def
  TaskRepository_Update_def TaskRepository_Delete_def SortAsc_def SortDesc_def defaultListLimit_def

definition three_tasks :: pg where
  "three_tasks =
     pg_empty\<lparr>pg_slots := map (\<lambda>n. Some \<lparr>row_id = 0, row_name = n, row_body = [],
        row_status = TaskStatusNew, row_created_at = 0, row_updated_at = None\<rparr>) [''a'', ''b'', ''c'']\<rparr>"

definition three_page :: "nat \<Rightarrow> Task list" where
  "three_page k =
     (case TaskRepository_List pg_db three_tasks
        (Some \<lparr>Sort = SortAsc, ToID = 0, Limit = 2, Offset = of_nat (k * 2)\<rparr>) of
        (_, Inr ts) \<Rightarrow> ts | (_, Inl _) \<Rightarrow> [])"

subsection \<open>Properties of the repository\<close>

text \<open>Consecutive slices of a list put it together again.\<close>

lemma page_of_nat:
  "k * unat l < 2 ^ 64 \<Longrightarrow> page l (of_nat (k * unat l)) xs = take (unat l) (drop (k * unat l) xs)"
  unfolding page_def by (simp only: unat_of_nat) simp

lemma concat_slices:
  "length xs \<le> K * n \<Longrightarrow> concat (map (\<lambda>k. take n (drop (k * n) xs)) [0..<K]) = xs"
proof -
  have "concat (map (\<lambda>k. take n (drop (k * n) xs)) [0..<K]) = take (K * n) xs"
    by (induction K) (simp_all add: take_add [symmetric] add.commute)
  then show "length xs \<le> K * n \<Longrightarrow> ?thesis" by simp
qed

context tasks_table
begin

lemma pages_cover:
  assumes "\<And>k. k < K \<Longrightarrow> TaskRepository_List db (ds k)
      (Some \<lparr>Sort = SortAsc, ToID = 0, Limit = l, Offset = of_nat (k * unat l)\<rparr>) = (ds (Suc k), Inr (ps k))"
    and "0 < l" and "K * unat l < 2 ^ 64" and "card (dom (tasks_of (tbl (ds 0)))) \<le> K * unat l"
  shows "concat (map ps [0..<K]) = tasks_asc (tasks_of (tbl (ds 0)))"
proof -
  let ?f = "\<lambda>k. \<lparr>Sort = SortAsc, ToID = 0, Limit = l, Offset = of_nat (k * unat l)\<rparr>"
  let ?xs = "tasks_asc (tasks_of (tbl (ds 0)))"
  have l: "repo_List (NewTaskRepository db) (ds k) (Some (?f k)) = (ds (Suc k), Inr (ps k))"
    if "k < K" for k using assms(1) that by (simp add: NewTaskRepository_def)
  have same: "tasks_of (tbl (ds k)) = tasks_of (tbl (ds 0))" if "k \<le> K" for k
    using that by (induction k) (use repo.List_ok [OF l] in auto)
  have "ps k = take (unat l) (drop (k * unat l) ?xs)" if "k < K" for k
  proof -
    have "k * unat l < 2 ^ 64" using that assms(3) by (metis less_imp_le_nat mult_le_mono1 order_le_less_trans)
    then have "page l (of_nat (k * unat l)) ?xs = take (unat l) (drop (k * unat l) ?xs)" by (rule page_of_nat)
    then show ?thesis
      using repo.List_ok [OF l [OF that]] same [of k] that assms(2)
      by (simp add: selected_def effective_limit_def SortAsc_def SortDesc_def)
  qed
  then have "concat (map ps [0..<K]) = concat (map (\<lambda>k. take (unat l) (drop (k * unat l) ?xs)) [0..<K])"
    by (intro arg_cong [of _ _ concat]) simp
  also have "\<dots> = ?xs" using assms(4) by (intro concat_slices) (simp add: tasks_asc_def)
  finally show ?thesis .
qed

lemma store_get:
  assumes "TaskRepository_Store db d t = (d', Inr i)" and "TaskRepository_Get db d' i = (d'', res)"
  shows "tasks_of (tbl d) i = None" and "tasks_of (tbl d'') = (tasks_of (tbl d))(i \<mapsto> stored stamp (t\<lparr>ID := i\<rparr>))"
    and "res = Inr (stored stamp (t\<lparr>ID := i\<rparr>)) \<or> (\<exists>e. res = Inl e \<and> internal e)"
proof -
  have s: "tasks_of (tbl d) i = None" "tasks_of (tbl d') = (tasks_of (tbl d))(i \<mapsto> stored stamp (t\<lparr>ID := i\<rparr>))"
    using repo.Store_ok [of d t d' i] assms(1) by (simp_all add: NewTaskRepository_def)
  have g: "repo_Get (NewTaskRepository db) d' i = (d'', res)" using assms(2) by (simp add: NewTaskRepository_def)
  show "tasks_of (tbl d) i = None" by (rule s)
  show "tasks_of (tbl d'') = (tasks_of (tbl d))(i \<mapsto> stored stamp (t\<lparr>ID := i\<rparr>))"
    and "res = Inr (stored stamp (t\<lparr>ID := i\<rparr>)) \<or> (\<exists>e. res = Inl e \<and> internal e)"
    using repo.Get_ok [of d' i d''] repo.Get_err [of d' i d''] g s by (cases res; auto)+
qed

end

text \<open>
  C6. A task the repository stores gets an id that was free and comes back from \<open>Get\<close> under that
  id with the same name, body, status and times (at the resolution of the database), unless the
  database fails; no other task is touched.
\<close>
theorem store_then_get:
  assumes "tasks_table db tbl stamp"
    and "TaskRepository_Store db d t = (d', Inr i)" and "TaskRepository_Get db d' i = (d'', res)"
  shows "tasks_of (tbl d) i = None \<and>
    (res = Inr (stored stamp (t\<lparr>ID := i\<rparr>)) \<or> (\<exists>e. res = Inl e \<and> internal e)) \<and>
    (\<forall>j. j \<noteq> i \<longrightarrow> tasks_of (tbl d'') j = tasks_of (tbl d) j)"
  using tasks_table.store_get [OF assms] by simp

theorem store_then_get_witness:
  "let t = NewTask 1234 ''n'' ''b''; d' = fst (TaskRepository_Store pg_db pg_empty t)
   in tasks_of (pg_tbl pg_empty) 1 = None \<and>
      snd (TaskRepository_Get pg_db d' 1) = Inr (t\<lparr>ID := 1, CreatedAt := 1000\<rparr>) \<and>
      (\<forall>j. j \<noteq> 1 \<longrightarrow> tasks_of (pg_tbl (fst (TaskRepository_Get pg_db d' 1))) j = None)"
proof -
  let ?t = "NewTask 1234 ''n'' ''b''"
  let ?s = "TaskRepository_Store pg_db pg_empty ?t"
  let ?g = "TaskRepository_Get pg_db (fst ?s) 1"
  have s: "TaskRepository_Store pg_db pg_empty ?t = (fst ?s, Inr 1)" by code_simp
  have g: "snd ?g = Inr (?t\<lparr>ID := 1, CreatedAt := 1000\<rparr>)" by code_simp
  have "tasks_of (pg_tbl pg_empty) j = None" for j
    by (auto simp: tasks_of_def pg_tbl_def pg_empty_def unat_0_iff)
  then show ?thesis
    using store_then_get [OF pg.tasks_table_axioms s surjective_pairing [of ?g]] g by (simp add: Let_def)
qed

text \<open>
  C7. A client that walks the pages \<open>k = 0, 1, ...\<close> with a fixed positive limit, while nobody
  writes, sees every task exactly once and in ascending order of ids: the pages concatenate to
  the table's tasks in id order.
\<close>
theorem pages_cover_all_tasks:
  assumes "tasks_table db tbl stamp"
    and "\<And>k. k < K \<Longrightarrow> TaskRepository_List db (ds k)
      (Some \<lparr>Sort = SortAsc, ToID = 0, Limit = l, Offset = of_nat (k * unat l)\<rparr>) = (ds (Suc k), Inr (ps k))"
    and "0 < l" and "K * unat l < 2 ^ 64" and "card (dom (tasks_of (tbl (ds 0)))) \<le> K * unat l"
  shows "concat (map ps [0..<K]) = tasks_asc (tasks_of (tbl (ds 0)))"
  using assms by (rule tasks_table.pages_cover)

theorem pages_cover_all_tasks_witness:
  "map Name (tasks_asc (tasks_of (pg_tbl three_tasks))) = [''a'', ''b'', ''c''] \<and>
   map (map Name) (map three_page [0, 1]) = [[''a'', ''b''], [''c'']]"
proof -
  have step: "TaskRepository_List pg_db three_tasks
      (Some \<lparr>Sort = SortAsc, ToID = 0, Limit = 2, Offset = of_nat (k * 2)\<rparr>) = (three_tasks, Inr (three_page k))"
    if "k < 2" for k
  proof -
    have "k = 0 \<or> k = 1" using that by linarith
    then show ?thesis by (elim disjE) (simp only:, code_simp)+
  qed
  have "card (dom (pg_tbl three_tasks)) = length (pg_rows three_tasks)"
    by (simp only: length_rows_asc [symmetric] pg_rows_asc)
  also have "\<dots> = 3" by code_simp
  finally have "card (dom (tasks_of (pg_tbl three_tasks))) = 3" by (simp only: card_tasks_of [OF pg_rows_ok])
  then have "concat (map three_page [0..<2]) = tasks_asc (tasks_of (pg_tbl three_tasks))"
    using step by (intro pages_cover_all_tasks [OF pg.tasks_table_axioms, where l = 2]) simp_all
  moreover have "map Name (concat (map three_page [0..<2])) = [''a'', ''b'', ''c'']" by code_simp
  moreover have "map (map Name) (map three_page [0, 1]) = [[''a'', ''b''], [''c'']]" by code_simp
  ultimately show ?thesis by metis
qed

end
