(* ===== verification/Task_Cache.thy ===== *)
theory Task_Cache
  imports Mem_Cache Reference_Table
begin

text \<open>
  The cache port of \<open>internal/ports/task_cache.go\<close> and the task cache of
  \<open>internal/services/task_cache.go\<close>: the generic cache at key type \<open>uint64\<close> with tasks as
  values, and the warm-up that fills it from the repository, newest tasks first, until the byte
  budget is used up. The locale \<open>task_cache\<close> is the contract a client of the port relies on; it
  is interpreted on the definitions of this theory.

  Tasks are values here although the code stores pointers: every task the code puts into the
  cache is not written afterwards (\<open>Create\<close> sets its id before it stores it, \<open>Update\<close> and
  \<open>fill\<close> store objects freshly read from the database), so no alias can change a cached task.
\<close>

subsection \<open>The port\<close>

record 'c TaskCachePort =
  cache_Store :: "Task \<Rightarrow> 'c \<Rightarrow> 'c"
  cache_List :: "'c \<Rightarrow> (Task list \<times> uint64) option"
  cache_Get :: "uint64 \<Rightarrow> 'c \<Rightarrow> Task option"
  cache_Delete :: "uint64 \<Rightarrow> 'c \<Rightarrow> 'c"

text \<open>A client sees a map from ids to tasks.\<close>

locale task_cache =
  fixes K :: "'c TaskCachePort"
    and lookup :: "'c \<Rightarrow> uint64 \<rightharpoonup> Task"
    and inv :: "'c \<Rightarrow> bool"
  assumes Store_lookup: "inv c \<Longrightarrow> lookup (cache_Store K t c) = (lookup c)(ID t \<mapsto> t)"
    and Store_inv: "inv c \<Longrightarrow> inv (cache_Store K t c)"
    and Delete_lookup: "inv c \<Longrightarrow> lookup (cache_Delete K i c) = (lookup c)(i := None)"
    and Delete_inv: "inv c \<Longrightarrow> inv (cache_Delete K i c)"
    and Get_lookup: "inv c \<Longrightarrow> cache_Get K i c = lookup c i"
    and List_lookup: "inv c \<Longrightarrow> \<exists>vs first. cache_List K c = Some (vs, first) \<and> set vs = ran (lookup c)"

text \<open>A cache whose entries may disappear behind the client's back, but never change.\<close>

locale evicting_cache = task_cache K lookup inv
  for K :: "'c TaskCachePort" and lookup :: "'c \<Rightarrow> uint64 \<rightharpoonup> Task" and inv :: "'c \<Rightarrow> bool" +
  fixes drop_some :: "'e \<Rightarrow> 'c \<Rightarrow> 'c"
  assumes drop_lookup: "inv c \<Longrightarrow> lookup (drop_some e c) \<subseteq>\<^sub>m lookup c"
    and drop_inv: "inv c \<Longrightarrow> inv (drop_some e c)"

subsection \<open>The task cache\<close>

type_synonym TaskCache = "(uint64, Task) Cache"

definition defaultMemoryUsageMB :: int where
  "defaultMemoryUsageMB = 1024"

definition defaultMemoryMonitorInterval :: duration where
  "defaultMemoryMonitorInterval = 5 * Second"

definition TaskCache_Run :: "monitor_event list \<Rightarrow> TaskCache \<Rightarrow> bool \<times> TaskCache" where
  "TaskCache_Run es t = Cache_Run u64 es t"

definition TaskCache_Store :: "Task \<Rightarrow> TaskCache \<Rightarrow> TaskCache" where
  "TaskCache_Store task t = Cache_Store u64 (ID task) task t"

definition TaskCache_Get :: "uint64 \<Rightarrow> TaskCache \<Rightarrow> Task option" where
  "TaskCache_Get tid t = Cache_Get tid t"

definition TaskCache_List :: "TaskCache \<Rightarrow> (Task list \<times> uint64) option" where
  "TaskCache_List t = Cache_List t"

definition TaskCache_Delete :: "uint64 \<Rightarrow> TaskCache \<Rightarrow> TaskCache" where
  "TaskCache_Delete tid t = Cache_Delete u64 tid t"

definition TaskCache_port :: "TaskCache TaskCachePort" where
  "TaskCache_port =
     \<lparr>cache_Store = TaskCache_Store, cache_List = TaskCache_List, cache_Get = TaskCache_Get,
      cache_Delete = TaskCache_Delete\<rparr>"

fun fill_loop :: "uint64 \<Rightarrow> uint64 \<Rightarrow> Task list \<Rightarrow> TaskCache \<Rightarrow> TaskCache" where
  "fill_loop budget totalSize [] c = c"
| "fill_loop budget totalSize (task # tasks) c =
     (let totalSize = totalSize + Size task
      in if budget \<le> totalSize then c
         else fill_loop budget totalSize tasks
                (Cache_SetFirstKey (ID task) (Cache_Store u64 (ID task) task c)))"

definition fill_budget :: "TaskCache \<Rightarrow> uint64" where
  "fill_budget t = Cache_CleanupStartMB t * 1024 * 1024 * 9 div 10"

definition fill_filter :: ListTasksFilter where
  "fill_filter = \<lparr>Sort = SortDesc, ToID = 0, Limit = 0, Offset = 0\<rparr>"

definition TaskCache_fill :: "'r TaskRepository \<Rightarrow> 'r \<Rightarrow> TaskCache \<Rightarrow> 'r \<times> (goerror + TaskCache)" where
  "TaskCache_fill R r t =
     (case repo_List R r (Some fill_filter) of
        (r', Inl err) \<Rightarrow> (r', Inl err)
      | (r', Inr tasks) \<Rightarrow> (r', Inr (fill_loop (fill_budget t) 0 tasks t)))"

definition NewTaskCache :: "(int \<Rightarrow> uint64) \<Rightarrow> int \<Rightarrow> duration \<Rightarrow> 'r TaskRepository \<Rightarrow> 'r
    \<Rightarrow> 'r \<times> (goerror + TaskCache)" where
  "NewTaskCache conv memoryLimitMB monitorInterval R r =
     (let memoryLimitMB = (if memoryLimitMB \<le> 0 then defaultMemoryUsageMB else memoryLimitMB);
          interval = (if monitorInterval \<le> 0 then defaultMemoryMonitorInterval
                      else monitorInterval);
          tc = Cache_New conv memoryLimitMB interval
      in case TaskCache_fill R r tc of
           (r', Inl err) \<Rightarrow> (r', Inl err)
         | (r', Inr tc') \<Rightarrow> (r', Inr tc'))"

subsection \<open>The contract holds\<close>

lemmas task_cache_defs =
  TaskCache_port_def TaskCache_Store_def TaskCache_Get_def TaskCache_List_def TaskCache_Delete_def

interpretation tc: task_cache TaskCache_port "\<lambda>c. map_of (items c)" "cache_inv u64"
proof (unfold_locales, goal_cases)
  case (6 c)
  have "ran (map_of (items c)) = set (map snd (items c))"
    using ran_distinct [OF cache_invD(1) [OF 6]] by simp
  then show ?case using 6 by (simp add: task_cache_defs Cache_List_def cache_inv_def)
qed (simp_all add: task_cache_defs u64_key.inv_Store u64_key.inv_Delete Cache_Get_def)

lemma Run_loop_lookup:
  fixes c :: TaskCache
  shows "cache_inv u64 c \<Longrightarrow> map_of (items (snd (Run_loop u64 es c))) \<subseteq>\<^sub>m map_of (items c)"
proof (induction es arbitrary: c)
  case (Cons e es)
  have "evict m \<subseteq>\<^sub>m m" for m :: "uint64 \<rightharpoonup> Task"
    by (auto simp: evict_def Let_def map_le_def restrict_map_def)
  then have "map_of (items (Cache_Cleanup u64 c)) \<subseteq>\<^sub>m map_of (items c)"
    by (simp only: Cleanup_lookup [OF Cons.prems])
  then show ?case
    using Cons u64_key.inv_Cleanup [OF Cons.prems] by (cases e) (auto intro: map_le_trans)
qed simp

interpretation tcm: evicting_cache TaskCache_port "\<lambda>c. map_of (items c)" "cache_inv u64"
    "\<lambda>es c. snd (TaskCache_Run es c)"
  by unfold_locales
    (simp_all add: TaskCache_Run_def Cache_Run_def Run_loop_lookup u64_key.inv_Run_loop)

subsection \<open>The warm-up\<close>

definition total_bytes :: "Task list \<Rightarrow> nat" where
  "total_bytes ts = sum_list (map task_bytes ts)"

lemma total_bytes_simps [simp]:
  "total_bytes [] = 0" "total_bytes (t # ts) = task_bytes t + total_bytes ts"
  by (simp_all add: total_bytes_def)

text \<open>Storing a key below all others makes it the first key, so \<open>SetFirstKey\<close> changes nothing.\<close>

lemma SetFirstKey_redundant:
  assumes "cache_inv u64 c" and "\<forall>j \<in> fst ` set (items c). k < j"
  shows "Cache_SetFirstKey k (Cache_Store u64 k v c) = Cache_Store u64 k v c"
proof -
  let ?c = "Cache_Store u64 k v c"
  have "dom (map_of (items ?c)) = insert k (dom (map_of (items c)))" by simp
  then have keys: "fst ` set (items ?c) = insert k (fst ` set (items c))"
    by (simp only: dom_map_of_conv_image_fst)
  moreover have "items ?c \<noteq> []" using keys by (metis empty_set image_empty insert_not_empty)
  ultimately have "firstKey ?c = Min (insert k (fst ` set (items c)))"
    using cache_invD(3) [OF u64_key.inv_Store [OF assms(1)], of k v] by (auto simp: u64_def)
  also have "\<dots> = k" using assms(2) by (intro Min_eqI) (auto intro: less_imp_le)
  finally show ?thesis by (simp add: Cache_SetFirstKey_def)
qed

lemma Store_new_items:
  "k \<notin> fst ` set (items c) \<Longrightarrow> items (Cache_Store u64 k v c) = items c @ [(k, v)]"
  by (auto simp: Cache_Store_def Let_def map_of_eq_None_iff split: option.splits dest: map_of_Some_in)

lemma fill_loop_spec:
  assumes "cache_inv u64 c" and "sorted_wrt (>) (map ID ts)"
    and "\<forall>j \<in> fst ` set (items c). \<forall>t \<in> set ts. ID t < j"
  obtains n where "n \<le> length ts" and "cache_inv u64 (fill_loop budget acc ts c)"
    and "items (fill_loop budget acc ts c) = items c @ map (\<lambda>t. (ID t, t)) (take n ts)"
    and "unat acc + total_bytes ts < 2 ^ 64 \<Longrightarrow> 0 < n \<Longrightarrow> unat acc + total_bytes (take n ts) < unat budget"
    and "unat acc + total_bytes ts < 2 ^ 64 \<Longrightarrow> n < length ts \<Longrightarrow>
      unat budget \<le> unat acc + total_bytes (take (Suc n) ts)"
proof -
  have "\<exists>n \<le> length ts. cache_inv u64 (fill_loop budget acc ts c) \<and>
      items (fill_loop budget acc ts c) = items c @ map (\<lambda>t. (ID t, t)) (take n ts) \<and>
      (unat acc + total_bytes ts < 2 ^ 64 \<longrightarrow>
         (0 < n \<longrightarrow> unat acc + total_bytes (take n ts) < unat budget) \<and>
         (n < length ts \<longrightarrow> unat budget \<le> unat acc + total_bytes (take (Suc n) ts)))"
    using assms
  proof (induction ts arbitrary: c acc)
    case Nil
    then show ?case by simp
  next
    case (Cons t ts)
    have acc: "unat (acc + Size t) = unat acc + task_bytes t"
      if "unat acc + total_bytes (t # ts) < 2 ^ 64"
      using that by (simp add: unat_word_ariths unat_Size)
    show ?case
    proof (cases "budget \<le> acc + Size t")
      case True
      then show ?thesis using Cons.prems(1) acc by (intro exI [of _ 0]) (auto simp: word_le_nat_alt)
    next
      case False
      let ?c = "Cache_Store u64 (ID t) t c"
      have new: "ID t \<notin> fst ` set (items c)" using Cons.prems(3) by force
      have it: "items ?c = items c @ [(ID t, t)]" using new by (rule Store_new_items)
      have "\<forall>j \<in> fst ` set (items ?c). \<forall>t \<in> set ts. ID t < j"
        using Cons.prems(2,3) unfolding it by auto
      then obtain n where n: "n \<le> length ts" "cache_inv u64 (fill_loop budget (acc + Size t) ts ?c)"
        "items (fill_loop budget (acc + Size t) ts ?c) = items ?c @ map (\<lambda>t. (ID t, t)) (take n ts)"
        "unat (acc + Size t) + total_bytes ts < 2 ^ 64 \<longrightarrow>
          (0 < n \<longrightarrow> unat (acc + Size t) + total_bytes (take n ts) < unat budget) \<and>
          (n < length ts \<longrightarrow> unat budget \<le> unat (acc + Size t) + total_bytes (take (Suc n) ts))"
        using Cons.IH [OF u64_key.inv_Store [OF Cons.prems(1)], of "ID t" t "acc + Size t"]
          Cons.prems(2) by auto
      have "fill_loop budget acc (t # ts) c = fill_loop budget (acc + Size t) ts ?c"
        using False Cons.prems(3) SetFirstKey_redundant [OF Cons.prems(1), of "ID t" t]
        by (simp add: Let_def)
      then show ?thesis
        using n it acc False by (intro exI [of _ "Suc n"]) (cases n, auto simp: word_le_nat_alt)
    qed
  qed
  then show ?thesis using that by blast
qed

text \<open>The budget does not wrap around for limits up to 2 TiB.\<close>

definition budget_bytes :: "int \<Rightarrow> nat" where
  "budget_bytes limit = 9 * nat limit div 10 * 1024 * 1024 * 9 div 10"

lemma unat_fill_budget:
  assumes "0 \<le> limit" and "limit \<le> 2 ^ 21"
  shows "unat (fill_budget (Cache_New conv limit interval)) = budget_bytes limit"
proof -
  obtain m where m: "limit = int m" using assms(1) by (metis nonneg_int_cases)
  let ?q = "9 * m div 10"
  have b: "m \<le> 2 ^ 21" "?q \<le> 2 ^ 21" using assms(2) m by simp_all
  have "mul09 m = ?q" using b(1) by (rule mul09_exact)
  then have "fill_budget (Cache_New conv limit interval) = of_nat (?q * 1024 * 1024 * 9) div 10"
    by (simp add: fill_budget_def Cache_CleanupStartMB_def Cache_New_def cleanup_threshold_def m)
  also have "unat \<dots> = ?q * 1024 * 1024 * 9 div 10"
    using b(2) by (simp only: unat_div unat_of_nat) simp
  finally show ?thesis by (simp add: budget_bytes_def m)
qed

context task_repository
begin

lemma map_ID_asc: "map ID (tasks_asc (tasks s)) = sorted_list_of_set (dom (tasks s))"
proof -
  have "ID (the (tasks s i)) = i" if "i \<in> set (sorted_list_of_set (dom (tasks s)))" for i
    using that tasks_finite [of s] tasks_stored [of s i] by auto
  then show ?thesis by (auto simp: tasks_asc_def intro: map_idI)
qed

lemma in_tasks_asc: "t \<in> set (tasks_asc (tasks s)) \<Longrightarrow> tasks s (ID t) = Some t"
  using tasks_finite [of s] tasks_stored [of s] by (force simp: tasks_asc_def)

lemma fill_list_descends: "sorted_wrt (>) (map ID (selected fill_filter (tasks s)))"
proof -
  have "sorted_wrt (>) (rev (map ID (tasks_asc (tasks s))))"
    unfolding map_ID_asc by (simp add: sorted_wrt_rev strict_sorted_list_of_set)
  then show ?thesis
    by (simp add: selected_def fill_filter_def page_def Let_def take_map [symmetric] drop_map [symmetric]
        rev_map sorted_wrt_take sorted_wrt_drop)
qed

lemma in_fill_list: "t \<in> set (selected fill_filter (tasks s)) \<Longrightarrow> tasks s (ID t) = Some t"
  using set_page by (fastforce simp: selected_def fill_filter_def Let_def dest: in_tasks_asc)

lemma warm_up:
  assumes "NewTaskCache conv limit interval R r = (r', Inr c)"
  defines "ts \<equiv> selected fill_filter (tasks r)"
    and "budget \<equiv> budget_bytes (if limit \<le> 0 then defaultMemoryUsageMB else limit)"
  obtains n where "n \<le> length ts" and "cache_inv u64 c" and "tasks r' = tasks r"
    and "items c = map (\<lambda>t. (ID t, t)) (take n ts)"
    and "limit \<le> 2 ^ 21 \<Longrightarrow> total_bytes ts < 2 ^ 64 \<Longrightarrow> 0 < n \<Longrightarrow> total_bytes (take n ts) < budget"
    and "limit \<le> 2 ^ 21 \<Longrightarrow> total_bytes ts < 2 ^ 64 \<Longrightarrow> n < length ts \<Longrightarrow>
      budget \<le> total_bytes (take (Suc n) ts)"
proof -
  let ?limit = "if limit \<le> 0 then defaultMemoryUsageMB else limit"
  let ?ivl = "if interval \<le> 0 then defaultMemoryMonitorInterval else interval"
  let ?c = "Cache_New conv ?limit ?ivl :: TaskCache"
  have u: "unat (fill_budget ?c) = budget" if "limit \<le> 2 ^ 21"
    unfolding budget_def using that by (intro unat_fill_budget) (simp_all add: defaultMemoryUsageMB_def)
  obtain tl where l: "repo_List R r (Some fill_filter) = (r', Inr tl)"
    and c: "c = fill_loop (fill_budget ?c) 0 tl ?c"
    using assms(1) by (auto simp: NewTaskCache_def TaskCache_fill_def Let_def split: prod.splits sum.splits)
  have tl: "tasks r' = tasks r" "tl = ts" using List_ok [OF l] by (simp_all add: ts_def)
  have new: "items ?c = []" by (simp add: Cache_New_def)
  show thesis
  proof (rule fill_loop_spec [of ?c ts "fill_budget ?c" 0])
    show "sorted_wrt (>) (map ID ts)" unfolding ts_def by (rule fill_list_descends)
    show "\<forall>j \<in> fst ` set (items ?c). \<forall>t \<in> set ts. ID t < j" by (simp add: new)
    fix n assume "n \<le> length ts" "cache_inv u64 (fill_loop (fill_budget ?c) 0 ts ?c)"
      "items (fill_loop (fill_budget ?c) 0 ts ?c) = items ?c @ map (\<lambda>t. (ID t, t)) (take n ts)"
      "unat (0 :: uint64) + total_bytes ts < 2 ^ 64 \<Longrightarrow> 0 < n \<Longrightarrow>
        unat (0 :: uint64) + total_bytes (take n ts) < unat (fill_budget ?c)"
      "unat (0 :: uint64) + total_bytes ts < 2 ^ 64 \<Longrightarrow> n < length ts \<Longrightarrow>
        unat (fill_budget ?c) \<le> unat (0 :: uint64) + total_bytes (take (Suc n) ts)"
    then show thesis using new tl u by (intro that [of n]) (simp_all add: c)
  qed simp
qed

lemma warm_up_tasks:
  assumes "NewTaskCache conv limit interval R r = (r', Inr c)"
  shows "tasks r' = tasks r" and "cache_inv u64 c" and "map_of (items c) \<subseteq>\<^sub>m tasks r"
proof -
  obtain n where n: "tasks r' = tasks r" "cache_inv u64 c"
    "items c = map (\<lambda>t. (ID t, t)) (take n (selected fill_filter (tasks r)))"
    by (rule warm_up [OF assms]) blast
  then show "tasks r' = tasks r" and "cache_inv u64 c" by blast+
  have "tasks r i = Some t" if "map_of (items c) i = Some t" for i t
  proof -
    have "(i, t) \<in> set (items c)" using that by (rule map_of_SomeD)
    then have "i = ID t" "t \<in> set (selected fill_filter (tasks r))"
      unfolding n(3) by (auto dest: in_set_takeD)
    then show ?thesis using in_fill_list by simp
  qed
  then show "map_of (items c) \<subseteq>\<^sub>m tasks r" by (auto simp: map_le_def)
qed

end

context tasks_table
begin

lemmas fill_warm_up = repo.warm_up

end

subsection \<open>Properties\<close>

definition three_cache :: TaskCache where
  "three_cache =
     (let t = (\<lambda>i n. \<lparr>ID = i, Name = n, Body = [], Status = TaskStatusNew, CreatedAt = 0, UpdatedAt = None\<rparr>)
      in \<lparr>items = [(3, t 3 ''c''), (2, t 2 ''b''), (1, t 1 ''a'')], len = 3, cleanupStartMB = 14,
          memoryMonitorInterval = 5 * Second, firstKey = 1\<rparr>)"

lemma three_list:
  "repo_List (NewTaskRepository pg_db) three_tasks (Some fill_filter) =
     (three_tasks, Inr (map snd (items three_cache)))"
  by (simp add: three_tasks_def three_cache_def fill_filter_def sql_simps Let_def)

lemma three_start:
  "NewTaskCache (\<lambda>_. 0) 16 0 (NewTaskRepository pg_db) three_tasks = (three_tasks, Inr three_cache)"
proof -
  have "cleanup_threshold (\<lambda>_. 0) 16 = 14" by (simp add: cleanup_threshold_def mul09_exact)
  then show ?thesis
    by (simp add: NewTaskCache_def TaskCache_fill_def three_list Let_def)
       (simp add: three_cache_def fill_budget_def Cache_CleanupStartMB_def Cache_New_def Cache_Store_def
         Cache_SetFirstKey_def Size_def sizeof_Task_def sizeof_Time_def status_defs u64_def Let_def
         defaultMemoryMonitorInterval_def)
qed

text \<open>
  C5. The warm-up fills the new cache with the newest tasks of the table, newest first, as many
  as stay below nine tenths of the cleanup threshold in bytes and not one more: the entries are
  the longest prefix of the descending list (of at most the default limit of tasks) within the
  budget; the table is unchanged and the cache's counters are exact.
\<close>
theorem warm_up_newest_within_budget:
  assumes "tasks_table db tbl stamp"
    and "NewTaskCache conv limit interval (NewTaskRepository db) d = (d', Inr c)"
    and "limit \<le> 2 ^ 21" and "total_bytes (selected fill_filter (tasks_of (tbl d))) < 2 ^ 64"
  defines "ts \<equiv> selected fill_filter (tasks_of (tbl d))"
    and "budget \<equiv> budget_bytes (if limit \<le> 0 then defaultMemoryUsageMB else limit)"
  shows "tasks_of (tbl d') = tasks_of (tbl d) \<and> cache_inv u64 c \<and>
    (\<exists>n \<le> length ts. items c = map (\<lambda>t. (ID t, t)) (take n ts) \<and>
       (0 < n \<longrightarrow> total_bytes (take n ts) < budget) \<and>
       (n < length ts \<longrightarrow> budget \<le> total_bytes (take (Suc n) ts)))"
  by (rule tasks_table.fill_warm_up [OF assms(1,2)]) (use assms(3,4) in \<open>auto simp: ts_def budget_def\<close>)

theorem warm_up_newest_within_budget_witness:
  "NewTaskCache (\<lambda>_. 0) 16 0 (NewTaskRepository pg_db) three_tasks = (three_tasks, Inr three_cache) \<and>
   cache_inv u64 three_cache \<and> map (\<lambda>(k, t). (k, Name t)) (items three_cache) = [(3, ''c''), (2, ''b''), (1, ''a'')]"
proof -
  have "total_bytes (map snd (items three_cache)) = 276"
    by (simp add: three_cache_def task_bytes_def status_defs Let_def)
  then have "cache_inv u64 three_cache"
    using warm_up_newest_within_budget [OF pg.tasks_table_axioms three_start]
      pg.repo.List_ok [OF three_list] by simp
  then show ?thesis using three_start by (simp add: three_cache_def Let_def)
qed

end
