(* ===== verification/Task_Service.thy ===== *)
theory Task_Service
  imports Logging Task_Cache
begin

text \<open>
  The application service of \<open>internal/services/task_service.go\<close> over the ports of
  \<open>internal/ports\<close>: the repository and the cache are values of their interfaces, as in the code.
  Each method is one definition with every call in the source's order, its logging included. The
  specification is a map from ids to tasks without a cache; the theorems show that the service,
  cache and eviction included, is indistinguishable from it, up to the time resolution of the
  database, as long as its calls do not overlap.
\<close>

subsection \<open>State and construction\<close>

record ('r, 'c) TaskService =
  svc_logger :: Logger
  svc_repository :: "'r TaskRepository"
  svc_cache :: "'c TaskCachePort"

definition NewTaskService :: "Logger \<Rightarrow> 'r TaskRepository \<Rightarrow> 'c TaskCachePort
    \<Rightarrow> ('r, 'c) TaskService" where
  "NewTaskService logger repository cache =
     \<lparr>svc_logger = logger, svc_repository = repository, svc_cache = cache\<rparr>"

text \<open>The world a call runs in: clock and log channel, the repository's and the cache's state.\<close>

record ('r, 'c) world = log_state +
  w_repo :: 'r
  w_cache :: 'c

record UpdateTaskParams =
  param_Name :: "string option"
  param_Body :: "string option"
  param_Status :: "string option"

subsection \<open>Commands and queries\<close>

definition TaskService_Create :: "env \<Rightarrow> ('r, 'c) TaskService \<Rightarrow> Task \<Rightarrow> ('r, 'c) world
    \<Rightarrow> ('r, 'c) world \<times> (goerror + uint64)" where
  "TaskService_Create env s task w =
     (case repo_Store (svc_repository s) (w_repo w) task of
        (r, Inl err) \<Rightarrow>
          (AsyncError env (svc_logger s) ''failed to store task'' err (w\<lparr>w_repo := r\<rparr>), Inl err)
      | (r, Inr tid) \<Rightarrow>
          (let w1 = AsyncDebug env (svc_logger s)
                 (''stored task '' @ show_uint64 tid @ '' to repository'') (w\<lparr>w_repo := r\<rparr>);
               w2 = w1\<lparr>w_cache := cache_Store (svc_cache s) (task\<lparr>ID := tid\<rparr>) (w_cache w1)\<rparr>;
               w3 = AsyncDebug env (svc_logger s)
                 (''stored task '' @ show_uint64 tid @ '' to catche'') w2
           in (w3, Inr tid)))"

definition TaskService_List :: "env \<Rightarrow> ('r, 'c) TaskService \<Rightarrow> uint64 \<Rightarrow> uint64 \<Rightarrow> ('r, 'c) world
    \<Rightarrow> ('r, 'c) world \<times> (goerror + Task list \<times> uint64)" where
  "TaskService_List env s limit offset w =
     (let flt = Some \<lparr>Sort = SortAsc, ToID = 0, Limit = limit, Offset = offset\<rparr>
      in case repo_Count (svc_repository s) (w_repo w) flt of
           (r, Inl err) \<Rightarrow>
             (AsyncError env (svc_logger s) ''failed to count tasks'' err (w\<lparr>w_repo := r\<rparr>), Inl err)
         | (r, Inr n) \<Rightarrow>
             (case repo_List (svc_repository s) r flt of
                (r', Inl err) \<Rightarrow>
                  (AsyncError env (svc_logger s) ''failed to list tasks'' err (w\<lparr>w_repo := r'\<rparr>), Inl err)
              | (r', Inr ts) \<Rightarrow>
                  (AsyncDebug env (svc_logger s)
                     (''listed '' @ show_nat (length ts) @ '' tasks (total '' @ show_uint64 n @
                      '', limit='' @ show_uint64 limit @ '' offset='' @ show_uint64 offset @ '')'')
                     (w\<lparr>w_repo := r'\<rparr>),
                   Inr (ts, n))))"

definition TaskService_Get :: "env \<Rightarrow> ('r, 'c) TaskService \<Rightarrow> uint64 \<Rightarrow> ('r, 'c) world
    \<Rightarrow> ('r, 'c) world \<times> (goerror + Task)" where
  "TaskService_Get env s tid w =
     (case cache_Get (svc_cache s) tid (w_cache w) of
        Some task \<Rightarrow>
          (AsyncDebug env (svc_logger s)
             (''found task '' @ show_uint64 (ID task) @ '' from cache'') w, Inr task)
      | None \<Rightarrow>
          (case repo_Get (svc_repository s) (w_repo w) tid of
             (r, Inl err) \<Rightarrow>
               (if errors_Is err ErrTaskNotFound
                then (AsyncDebug env (svc_logger s)
                        (''task '' @ show_uint64 tid @ '' not found'') (w\<lparr>w_repo := r\<rparr>), Inl err)
                else (AsyncError env (svc_logger s) ''failed to get task'' err (w\<lparr>w_repo := r\<rparr>), Inl err))
           | (r, Inr task) \<Rightarrow>
               (AsyncDebug env (svc_logger s)
                  (''found task '' @ show_uint64 (ID task) @ '' from repository'') (w\<lparr>w_repo := r\<rparr>),
                Inr task)))"

text \<open>The fields the parameters set, with the status checks in the source's order.\<close>

definition apply_params :: "UpdateTaskParams \<Rightarrow> Task \<Rightarrow> goerror + Task" where
  "apply_params params task =
     (let t1 = (case param_Name params of Some n \<Rightarrow> task\<lparr>Name := n\<rparr> | None \<Rightarrow> task);
          t2 = (case param_Body params of Some b \<Rightarrow> t1\<lparr>Body := b\<rparr> | None \<Rightarrow> t1)
      in case param_Status params of
           None \<Rightarrow> Inr t2
         | Some next \<Rightarrow>
             (if \<not> IsValid next then Inl ErrUnknownStatus
              else if \<not> CanTransitionTo (Status t2) next then Inl ErrInvalidStatusTransition
              else Inr (t2\<lparr>Status := next\<rparr>)))"

definition TaskService_Update :: "env \<Rightarrow> ('r, 'c) TaskService \<Rightarrow> uint64 \<Rightarrow> UpdateTaskParams
    \<Rightarrow> ('r, 'c) world \<Rightarrow> ('r, 'c) world \<times> (goerror + Task)" where
  "TaskService_Update env s tid params w =
     (case repo_Get (svc_repository s) (w_repo w) tid of
        (r, Inl err) \<Rightarrow>
          (if errors_Is err ErrTaskNotFound then (w\<lparr>w_repo := r\<rparr>, Inl err)
           else (AsyncError env (svc_logger s) ''failed to load task for update'' err
                   (w\<lparr>w_repo := r\<rparr>), Inl err))
      | (r, Inr task0) \<Rightarrow>
          (case apply_params params task0 of
             Inl err \<Rightarrow> (w\<lparr>w_repo := r\<rparr>, Inl err)
           | Inr task1 \<Rightarrow>
               (case time_Now env (w\<lparr>w_repo := r\<rparr>) of (now, w1) \<Rightarrow>
                  (let task = task1\<lparr>UpdatedAt := Some now\<rparr>
                   in case repo_Update (svc_repository s) (w_repo w1) task of
                        (r', Some err) \<Rightarrow>
                          (let w2 = w1\<lparr>w_repo := r'\<rparr>
                           in if errors_Is err ErrTaskNotFound
                              then (w2\<lparr>w_cache := cache_Delete (svc_cache s) tid (w_cache w2)\<rparr>, Inl err)
                              else (AsyncError env (svc_logger s) ''failed to update task'' err w2, Inl err))
                      | (r', None) \<Rightarrow>
                          (let w2 = w1\<lparr>w_repo := r',
                                 w_cache := cache_Store (svc_cache s) task (w_cache w1)\<rparr>
                           in (AsyncDebug env (svc_logger s) (''updated task '' @ show_uint64 tid) w2,
                               Inr task))))))"

definition TaskService_Delete :: "env \<Rightarrow> ('r, 'c) TaskService \<Rightarrow> uint64 \<Rightarrow> ('r, 'c) world
    \<Rightarrow> ('r, 'c) world \<times> goerror option" where
  "TaskService_Delete env s tid w =
     (case repo_Delete (svc_repository s) (w_repo w) tid of
        (r, Some err) \<Rightarrow>
          (let w1 = w\<lparr>w_repo := r\<rparr>
           in if errors_Is err ErrTaskNotFound
              then (w1\<lparr>w_cache := cache_Delete (svc_cache s) tid (w_cache w1)\<rparr>, Some err)
              else (AsyncError env (svc_logger s) ''failed to delete task'' err w1, Some err))
      | (r, None) \<Rightarrow>
          (let w1 = w\<lparr>w_repo := r, w_cache := cache_Delete (svc_cache s) tid (w_cache w)\<rparr>
           in (AsyncDebug env (svc_logger s) (''deleted task '' @ show_uint64 tid) w1, None)))"

subsection \<open>The specification\<close>

text \<open>
  Calls and their results, and a step of the memory monitor between calls. The specification has
  no cache: it is a finite map of tasks at the resolution of the store. Any call may fail with an
  internal error and then changes nothing.
\<close>

datatype svc_call =
    CCreate Task
  | CGet uint64
  | CUpdate uint64 UpdateTaskParams
  | CDelete uint64
  | CList uint64 uint64

datatype svc_result =
    RId uint64
  | RTask Task
  | RDone
  | RPage "Task list" uint64
  | RErr goerror

definition page_filter :: "uint64 \<Rightarrow> uint64 \<Rightarrow> ListTasksFilter" where
  "page_filter limit offset = \<lparr>Sort = SortAsc, ToID = 0, Limit = limit, Offset = offset\<rparr>"

inductive spec_call :: "(time \<Rightarrow> time) \<Rightarrow> svc_call \<Rightarrow> (uint64 \<rightharpoonup> Task) \<Rightarrow> svc_result
    \<Rightarrow> (uint64 \<rightharpoonup> Task) \<Rightarrow> bool" for stamp where
  created: "m i = None \<Longrightarrow> i \<noteq> 0 \<Longrightarrow>
     spec_call stamp (CCreate t) m (RId i) (m(i \<mapsto> stored stamp (t\<lparr>ID := i\<rparr>)))"
| found: "m i = Some (stored stamp t) \<Longrightarrow> spec_call stamp (CGet i) m (RTask t) m"
| not_found: "m i = None \<Longrightarrow> spec_call stamp (CGet i) m (RErr ErrTaskNotFound) m"
| updated: "m i = Some t0 \<Longrightarrow> apply_params p t0 = Inr t1 \<Longrightarrow> t = t1\<lparr>UpdatedAt := Some now\<rparr> \<Longrightarrow>
     spec_call stamp (CUpdate i p) m (RTask t) (m(i \<mapsto> stored stamp t))"
| rejected: "m i = Some t0 \<Longrightarrow> apply_params p t0 = Inl e \<Longrightarrow>
     spec_call stamp (CUpdate i p) m (RErr e) m"
| update_missing: "m i = None \<Longrightarrow> spec_call stamp (CUpdate i p) m (RErr ErrTaskNotFound) m"
| deleted: "m i \<noteq> None \<Longrightarrow> spec_call stamp (CDelete i) m RDone (m(i := None))"
| delete_missing: "m i = None \<Longrightarrow> spec_call stamp (CDelete i) m (RErr ErrTaskNotFound) m"
| listed: "unat n = card (dom m) \<Longrightarrow>
     spec_call stamp (CList l off) m (RPage (selected (page_filter l off) m) n) m"
| failed: "internal e \<Longrightarrow> spec_call stamp c m (RErr e) m"

fun svc_exec :: "env \<Rightarrow> ('r, 'c) TaskService \<Rightarrow> svc_call \<Rightarrow> ('r, 'c) world
    \<Rightarrow> ('r, 'c) world \<times> svc_result" where
  "svc_exec env s (CCreate t) w =
     (case TaskService_Create env s t w of (w', Inl e) \<Rightarrow> (w', RErr e) | (w', Inr i) \<Rightarrow> (w', RId i))"
| "svc_exec env s (CGet i) w =
     (case TaskService_Get env s i w of (w', Inl e) \<Rightarrow> (w', RErr e) | (w', Inr t) \<Rightarrow> (w', RTask t))"
| "svc_exec env s (CUpdate i p) w =
     (case TaskService_Update env s i p w of (w', Inl e) \<Rightarrow> (w', RErr e) | (w', Inr t) \<Rightarrow> (w', RTask t))"
| "svc_exec env s (CDelete i) w =
     (case TaskService_Delete env s i w of (w', Some e) \<Rightarrow> (w', RErr e) | (w', None) \<Rightarrow> (w', RDone))"
| "svc_exec env s (CList l off) w =
     (case TaskService_List env s l off w of
        (w', Inl e) \<Rightarrow> (w', RErr e) | (w', Inr (ts, n)) \<Rightarrow> (w', RPage ts n))"

datatype 'e svc_event = Call svc_call | Monitor 'e

fun svc_run :: "env \<Rightarrow> ('r, 'c) TaskService \<Rightarrow> ('e \<Rightarrow> 'c \<Rightarrow> 'c) \<Rightarrow> 'e svc_event list
    \<Rightarrow> ('r, 'c) world \<Rightarrow> ('r, 'c) world \<times> (svc_call \<times> svc_result) list" where
  "svc_run env s drop_some [] w = (w, [])"
| "svc_run env s drop_some (Call c # es) w =
     (case svc_exec env s c w of (w1, res) \<Rightarrow>
        (case svc_run env s drop_some es w1 of (w2, tr) \<Rightarrow> (w2, (c, res) # tr)))"
| "svc_run env s drop_some (Monitor e # es) w =
     svc_run env s drop_some es (w\<lparr>w_cache := drop_some e (w_cache w)\<rparr>)"

text \<open>A trace of calls and results the specification allows.\<close>

inductive spec_trace :: "(time \<Rightarrow> time) \<Rightarrow> (uint64 \<rightharpoonup> Task) \<Rightarrow> (svc_call \<times> svc_result) list
    \<Rightarrow> (uint64 \<rightharpoonup> Task) \<Rightarrow> bool" for stamp where
  empty: "spec_trace stamp m [] m"
| call: "spec_call stamp c m res m1 \<Longrightarrow> spec_trace stamp m1 tr m2 \<Longrightarrow>
     spec_trace stamp m ((c, res) # tr) m2"

text \<open>The cache never disagrees with the store.\<close>

definition coherent :: "(time \<Rightarrow> time) \<Rightarrow> (uint64 \<rightharpoonup> Task) \<Rightarrow> (uint64 \<rightharpoonup> Task) \<Rightarrow> bool" where
  "coherent stamp cached m = (\<forall>i t. cached i = Some t \<longrightarrow> m i = Some (stored stamp t))"

lemma coherentD: "coherent stamp cached m \<Longrightarrow> cached i = Some t \<Longrightarrow> m i = Some (stored stamp t)"
  by (simp add: coherent_def)

lemma coherent_upd:
  "coherent stamp cached m \<Longrightarrow> coherent stamp (cached(i \<mapsto> t)) (m(i \<mapsto> stored stamp t))"
  by (simp add: coherent_def)

lemma coherent_del: "coherent stamp cached m \<Longrightarrow> coherent stamp (cached(i := None)) (m(i := None))"
  by (simp add: coherent_def)

lemma coherent_drop: "coherent stamp cached m \<Longrightarrow> cached' \<subseteq>\<^sub>m cached \<Longrightarrow> coherent stamp cached' m"
  by (auto simp: coherent_def map_le_def) (metis domI)

subsection \<open>Logging leaves the stores alone\<close>

lemma world_more:
  assumes "log_state.more w = log_state.more w'"
  shows "w_repo w = w_repo w'" and "w_cache w = w_cache w'"
  using assms by (cases w; cases w'; simp)+

lemma async_world [log_simps]:
  "w_repo (AsyncError env l msg err w) = w_repo w" "w_cache (AsyncError env l msg err w) = w_cache w"
  "w_repo (AsyncDebug env l msg w) = w_repo w" "w_cache (AsyncDebug env l msg w) = w_cache w"
  by (rule world_more, simp add: log_simps)+

lemma time_Now_world [log_simps]:
  "time_Now env w = (now, w') \<Longrightarrow> w_repo w' = w_repo w"
  "time_Now env w = (now, w') \<Longrightarrow> w_cache w' = w_cache w"
  by (auto simp: time_Now_def)

lemmas service_defs =
  TaskService_Create_def TaskService_List_def TaskService_Get_def TaskService_Update_def
  TaskService_Delete_def

subsection \<open>Every call is a step of the specification\<close>

lemma apply_params_ok:
  assumes "apply_params p t = Inr t'"
  shows "ID t' = ID t" and "CreatedAt t' = CreatedAt t"
  using assms by (auto simp: apply_params_def Let_def split: option.splits if_splits)

lemma stored_idem_created:
  assumes "stored stamp t0 = t0" and "CreatedAt t = CreatedAt t0"
  shows "(stored stamp t)\<lparr>CreatedAt := CreatedAt t0\<rparr> = stored stamp t"
proof -
  have "stamp (CreatedAt t0) = CreatedAt t0" using assms(1) by (cases t0) (simp add: stored_def)
  then show ?thesis using assms(2) by (cases t) (simp add: stored_def)
qed

lemma ID_stored [simp]: "ID (stored stamp t) = ID t"
  by (simp add: stored_def)

text \<open>The service relies on the contracts of its two ports and on nothing else.\<close>

locale task_service =
  repo: task_repository R tasks stamp + cache: evicting_cache K lookup inv drop_some
  for R :: "'r TaskRepository" and tasks :: "'r \<Rightarrow> uint64 \<rightharpoonup> Task" and stamp :: "time \<Rightarrow> time"
    and K :: "'c TaskCachePort" and lookup :: "'c \<Rightarrow> uint64 \<rightharpoonup> Task" and inv :: "'c \<Rightarrow> bool"
    and drop_some :: "'e \<Rightarrow> 'c \<Rightarrow> 'c"
begin

definition sound :: "('r, 'c) world \<Rightarrow> bool" where
  "sound w = (inv (w_cache w) \<and> coherent stamp (lookup (w_cache w)) (tasks (w_repo w)))"

lemma sound_inv: "sound w \<Longrightarrow> inv (w_cache w)"
  by (simp add: sound_def)

lemma sound_Store:
  assumes "sound w" and "tasks (w_repo w') = (tasks (w_repo w))(i \<mapsto> stored stamp t)" and "ID t = i"
    and "w_cache w' = cache_Store K t (w_cache w)"
  shows "sound w'"
  using assms by (auto simp: sound_def cache.Store_inv cache.Store_lookup intro: coherent_upd)

lemma sound_Delete:
  assumes "sound w" and "tasks (w_repo w') = (tasks (w_repo w))(i := None)"
    and "w_cache w' = cache_Delete K i (w_cache w)"
  shows "sound w'"
  using assms by (auto simp: sound_def cache.Delete_inv cache.Delete_lookup intro: coherent_del)

lemma sound_same:
  "sound w \<Longrightarrow> tasks (w_repo w') = tasks (w_repo w) \<Longrightarrow> w_cache w' = w_cache w \<Longrightarrow> sound w'"
  by (simp add: sound_def)

lemma Create_sound:
  assumes "sound w" and "TaskService_Create env (NewTaskService l R K) t w = (w', res)"
  shows "sound w' \<and> (case res of
      Inl e \<Rightarrow> internal e \<and> tasks (w_repo w') = tasks (w_repo w)
    | Inr i \<Rightarrow> i \<noteq> 0 \<and> tasks (w_repo w) i = None \<and>
        tasks (w_repo w') = (tasks (w_repo w))(i \<mapsto> stored stamp (t\<lparr>ID := i\<rparr>)))"
proof (cases "repo_Store R (w_repo w) t")
  case (Pair r x)
  show ?thesis
  proof (cases x)
    case (Inl e)
    then show ?thesis
      using repo.Store_err [of "w_repo w" t r e] assms Pair
      by (auto simp: TaskService_Create_def NewTaskService_def log_simps intro: sound_same)
  next
    case (Inr i)
    have st: "i \<noteq> 0" "tasks (w_repo w) i = None"
      "tasks r = (tasks (w_repo w))(i \<mapsto> stored stamp (t\<lparr>ID := i\<rparr>))"
      using repo.Store_ok [of "w_repo w" t r i] Pair Inr by simp_all
    have w': "res = Inr i" "w_repo w' = r" "w_cache w' = cache_Store K (t\<lparr>ID := i\<rparr>) (w_cache w)"
      using assms(2) Pair Inr by (auto simp: TaskService_Create_def NewTaskService_def log_simps Let_def)
    show ?thesis
      using sound_Store [OF assms(1), of w' i "t\<lparr>ID := i\<rparr>"] st w' by simp
  qed
qed

lemma Get_sound:
  assumes "sound w" and "TaskService_Get env (NewTaskService l R K) i w = (w', res)"
  shows "sound w' \<and> tasks (w_repo w') = tasks (w_repo w) \<and> (case res of
      Inl e \<Rightarrow> e = ErrTaskNotFound \<and> tasks (w_repo w) i = None \<or> internal e
    | Inr t \<Rightarrow> tasks (w_repo w) i = Some (stored stamp t))"
proof (cases "lookup (w_cache w) i")
  case (Some t)
  then have "tasks (w_repo w) i = Some (stored stamp t)"
    using assms(1) by (auto simp: sound_def dest: coherentD)
  then show ?thesis
    using assms(2) Some cache.Get_lookup [OF sound_inv [OF assms(1)]] assms(1)
    by (auto simp: TaskService_Get_def NewTaskService_def log_simps intro: sound_same)
next
  case None
  obtain r x where g: "repo_Get R (w_repo w) i = (r, x)" by fastforce
  have w': "res = x" "w_repo w' = r" "w_cache w' = w_cache w"
    using assms(2) None g cache.Get_lookup [OF sound_inv [OF assms(1)]]
    by (auto simp: TaskService_Get_def NewTaskService_def log_simps split: sum.splits if_splits)
  have "tasks r = tasks (w_repo w)"
    using repo.Get_ok [of "w_repo w" i r] repo.Get_err [of "w_repo w" i r] g by (cases x) auto
  then have "sound w' \<and> tasks (w_repo w') = tasks (w_repo w)"
    using w' sound_same [OF assms(1), of w'] by simp
  moreover have "case x of
      Inl e \<Rightarrow> e = ErrTaskNotFound \<and> tasks (w_repo w) i = None \<or> internal e
    | Inr t \<Rightarrow> tasks (w_repo w) i = Some (stored stamp t)"
  proof (cases x)
    case (Inr t)
    then have "tasks (w_repo w) i = Some t" using repo.Get_ok [of "w_repo w" i r] g by simp
    then show ?thesis using Inr repo.tasks_stored [of "w_repo w" i t] by simp
  qed (use repo.Get_err [of "w_repo w" i r] g in auto)
  ultimately show ?thesis using w'(1) by blast
qed

text \<open>An update whose parameters apply: the row is written, or the database fails.\<close>

lemma Update_write:
  assumes "sound w" and load: "repo_Get R (w_repo w) i = (r, Inr t0)" and ok: "apply_params p t0 = Inr t1"
    and run: "TaskService_Update env (NewTaskService l R K) i p w = (w', res)"
  shows "sound w' \<and> (case res of
      Inl e \<Rightarrow> tasks (w_repo w') = tasks (w_repo w) \<and> internal e
    | Inr t \<Rightarrow> \<exists>now. t = t1\<lparr>UpdatedAt := Some now\<rparr> \<and>
        tasks (w_repo w') = (tasks (w_repo w))(i \<mapsto> stored stamp t))"
proof -
  note defs = TaskService_Update_def NewTaskService_def log_simps
  have get: "tasks r = tasks (w_repo w)" "tasks (w_repo w) i = Some t0" using repo.Get_ok [OF load] by simp_all
  have t0: "ID t0 = i" "stored stamp t0 = t0" using repo.tasks_stored [OF get(2)] by blast+
  obtain now w1 where now: "time_Now env (w\<lparr>w_repo := r\<rparr>) = (now, w1)" by fastforce
  have w1: "w_repo w1 = r" "w_cache w1 = w_cache w" using now by (simp_all add: log_simps)
  let ?t = "t1\<lparr>UpdatedAt := Some now\<rparr>"
  obtain r' y where u: "repo_Update R r ?t = (r', y)" by fastforce
  have t1: "ID ?t = i" "CreatedAt ?t = CreatedAt t0" using apply_params_ok [OF ok] t0 by simp_all
  show ?thesis
  proof (cases y)
    case None
    have up: "tasks r' = (tasks (w_repo w))(i \<mapsto> stored stamp ?t)"
      using repo.Update_ok [of r ?t r'] u None get t1 stored_idem_created [OF t0(2) t1(2)] by auto
    have w': "w_repo w' = r'" "w_cache w' = cache_Store K ?t (w_cache w)" "res = Inr ?t"
      using run load ok now w1 u None by (auto simp: defs Let_def)
    have "sound w'" using sound_Store [OF assms(1), of w' i ?t] up w' t1 by simp
    then show ?thesis using w' up get(2) ok by auto
  next
    case (Some e)
    have "tasks r' = tasks (w_repo w)" "internal e"
      using repo.Update_err [of r ?t r' e] u Some get t1 by auto
    moreover have "w_repo w' = r'" "w_cache w' = w_cache w" "res = Inl e"
      using run load ok now w1 u Some \<open>internal e\<close>
      by (auto simp: defs Let_def internal_def)
    ultimately show ?thesis using sound_same [OF assms(1), of w'] by simp
  qed
qed

lemma Update_sound:
  assumes "sound w" and "TaskService_Update env (NewTaskService l R K) i p w = (w', res)"
  shows "sound w' \<and> (case res of
      Inl e \<Rightarrow> tasks (w_repo w') = tasks (w_repo w) \<and>
        (e = ErrTaskNotFound \<and> tasks (w_repo w) i = None \<or> internal e \<or>
         (\<exists>t0. tasks (w_repo w) i = Some t0 \<and> apply_params p t0 = Inl e))
    | Inr t \<Rightarrow> \<exists>t0 t1 now. tasks (w_repo w) i = Some t0 \<and> apply_params p t0 = Inr t1 \<and>
        t = t1\<lparr>UpdatedAt := Some now\<rparr> \<and>
        tasks (w_repo w') = (tasks (w_repo w))(i \<mapsto> stored stamp t))"
proof (cases "repo_Get R (w_repo w) i")
  case (Pair r x)
  note defs = TaskService_Update_def NewTaskService_def log_simps
  show ?thesis
  proof (cases x)
    case (Inl e)
    then have "w_repo w' = r" "w_cache w' = w_cache w" "res = Inl e"
      using assms(2) Pair by (auto simp: defs split: if_splits)
    then show ?thesis
      using repo.Get_err [of "w_repo w" i r e] Inl Pair sound_same [OF assms(1), of w'] by auto
  next
    case (Inr t0)
    have get: "tasks r = tasks (w_repo w)" "tasks (w_repo w) i = Some t0"
      using repo.Get_ok [of "w_repo w" i r t0] Inr Pair by simp_all
    show ?thesis
    proof (cases "apply_params p t0")
      case err: (Inl e)
      then have "w_repo w' = r" "w_cache w' = w_cache w" "res = Inl e"
        using assms(2) Pair Inr by (auto simp: defs)
      then show ?thesis using err get sound_same [OF assms(1), of w'] by auto
    next
      case ok: (Inr t1)
      then show ?thesis
        using Update_write [OF assms(1) _ ok assms(2)] Pair Inr get(2) by (auto split: sum.splits)
    qed
  qed
qed

lemma Delete_sound:
  assumes "sound w" and "TaskService_Delete env (NewTaskService l R K) i w = (w', res)"
  shows "sound w' \<and> (case res of
      Some e \<Rightarrow> tasks (w_repo w') = tasks (w_repo w) \<and>
        (e = ErrTaskNotFound \<and> tasks (w_repo w) i = None \<or> internal e)
    | None \<Rightarrow> tasks (w_repo w) i \<noteq> None \<and> tasks (w_repo w') = (tasks (w_repo w))(i := None))"
proof (cases "repo_Delete R (w_repo w) i")
  case (Pair r x)
  note defs = TaskService_Delete_def NewTaskService_def log_simps
  show ?thesis
  proof (cases x)
    case None
    have "tasks (w_repo w) i \<noteq> None" "tasks r = (tasks (w_repo w))(i := None)"
      using repo.Delete_ok [of "w_repo w" i r] Pair None by simp_all
    moreover have "w_repo w' = r" "w_cache w' = cache_Delete K i (w_cache w)" "res = None"
      using assms(2) Pair None by (auto simp: defs Let_def)
    ultimately show ?thesis using sound_Delete [OF assms(1), of w' i] by simp
  next
    case (Some e)
    have d: "tasks r = tasks (w_repo w)" "e = ErrTaskNotFound \<and> tasks (w_repo w) i = None \<or> internal e"
      using repo.Delete_err [of "w_repo w" i r e] Pair Some by simp_all
    have w': "w_repo w' = r" "res = Some e"
      using assms(2) Pair Some by (auto simp: defs Let_def split: if_splits)
    have "w_cache w' = cache_Delete K i (w_cache w) \<and> tasks (w_repo w) i = None \<or>
        w_cache w' = w_cache w"
      using assms(2) Pair Some d(2) by (auto simp: defs Let_def internal_def split: if_splits)
    then have "sound w'"
      using sound_Delete [OF assms(1), of w' i] sound_same [OF assms(1), of w'] d(1) w'(1)
      by (metis fun_upd_triv)
    then show ?thesis using w' d by simp
  qed
qed

lemma List_sound:
  assumes "sound w" and "TaskService_List env (NewTaskService l R K) lim off w = (w', res)"
  shows "sound w' \<and> tasks (w_repo w') = tasks (w_repo w) \<and> (case res of
      Inl e \<Rightarrow> internal e
    | Inr (ts, n) \<Rightarrow> ts = selected (page_filter lim off) (tasks (w_repo w)) \<and>
        unat n = card (dom (tasks (w_repo w))))"
proof (cases "repo_Count R (w_repo w) (Some (page_filter lim off))")
  case (Pair r x)
  note defs = TaskService_List_def NewTaskService_def log_simps page_filter_def [symmetric]
  show ?thesis
  proof (cases x)
    case (Inl e)
    then show ?thesis
      using repo.Count_err [of "w_repo w" _ r e] Pair assms by (auto simp: defs Let_def intro: sound_same)
  next
    case (Inr n)
    have n: "tasks r = tasks (w_repo w)" "unat n = card (dom (tasks (w_repo w)))"
      using repo.Count_ok [of "w_repo w" "page_filter lim off" r n] Pair Inr
      by (simp_all add: page_filter_def)
    obtain r' y where ls: "repo_List R r (Some (page_filter lim off)) = (r', y)" by fastforce
    have w': "w_repo w' = r'" "w_cache w' = w_cache w" "res = map_sum (\<lambda>e. e) (\<lambda>ts. (ts, n)) y"
      using assms(2) Pair Inr ls by (auto simp: defs Let_def split: sum.splits)
    show ?thesis
      using w' n ls repo.List_ok [of r "page_filter lim off" r'] repo.List_err [of r _ r']
        sound_same [OF assms(1), of w'] by (cases y) auto
  qed
qed

lemma exec_spec:
  assumes "sound w" and "svc_exec env (NewTaskService l R K) c w = (w', res)"
  shows "sound w' \<and> spec_call stamp c (tasks (w_repo w)) res (tasks (w_repo w'))"
proof (cases c)
  case (CCreate t)
  obtain x where x: "TaskService_Create env (NewTaskService l R K) t w = (w', x)"
    using assms(2) CCreate by (auto split: prod.splits sum.splits)
  then show ?thesis
    using Create_sound [OF assms(1) x] assms(2) CCreate
    by (auto split: sum.splits intro: spec_call.created spec_call.failed)
next
  case (CGet i)
  obtain x where x: "TaskService_Get env (NewTaskService l R K) i w = (w', x)"
    using assms(2) CGet by (auto split: prod.splits sum.splits)
  then show ?thesis
    using Get_sound [OF assms(1) x] assms(2) CGet
    by (auto split: sum.splits intro: spec_call.found spec_call.not_found spec_call.failed)
next
  case (CUpdate i p)
  obtain x where x: "TaskService_Update env (NewTaskService l R K) i p w = (w', x)"
    using assms(2) CUpdate by (auto split: prod.splits sum.splits)
  then show ?thesis
    using Update_sound [OF assms(1) x] assms(2) CUpdate
    by (auto split: sum.splits intro: spec_call.updated spec_call.rejected spec_call.update_missing
        spec_call.failed)
next
  case (CDelete i)
  obtain x where x: "TaskService_Delete env (NewTaskService l R K) i w = (w', x)"
    using assms(2) CDelete by (auto split: prod.splits option.splits)
  then show ?thesis
    using Delete_sound [OF assms(1) x] assms(2) CDelete
    by (auto split: option.splits intro: spec_call.deleted spec_call.delete_missing spec_call.failed)
next
  case (CList lim off)
  obtain x where x: "TaskService_List env (NewTaskService l R K) lim off w = (w', x)"
    using assms(2) CList by (auto split: prod.splits sum.splits)
  then show ?thesis
    using List_sound [OF assms(1) x] assms(2) CList
    by (auto split: sum.splits prod.splits intro: spec_call.listed spec_call.failed)
qed

lemma run_spec:
  assumes "sound w" and "svc_run env (NewTaskService l R K) drop_some es w = (w', tr)"
  shows "sound w' \<and> spec_trace stamp (tasks (w_repo w)) tr (tasks (w_repo w'))"
  using assms
proof (induction es arbitrary: w tr)
  case Nil
  then show ?case by (simp add: spec_trace.empty)
next
  case (Cons e es)
  show ?case
  proof (cases e)
    case (Call c)
    obtain w1 res where x: "svc_exec env (NewTaskService l R K) c w = (w1, res)" by fastforce
    obtain tr' where tr: "tr = (c, res) # tr'"
      and run: "svc_run env (NewTaskService l R K) drop_some es w1 = (w', tr')"
      using Cons.prems(2) Call x by (auto split: prod.splits)
    have "sound w1 \<and> spec_call stamp c (tasks (w_repo w)) res (tasks (w_repo w1))"
      using Cons.prems(1) x by (rule exec_spec)
    then show ?thesis using Cons.IH [OF _ run] tr by (auto intro: spec_trace.call)
  next
    case (Monitor m)
    have "sound (w\<lparr>w_cache := drop_some m (w_cache w)\<rparr>)"
      using Cons.prems(1) cache.drop_inv cache.drop_lookup
      by (auto simp: sound_def intro: coherent_drop)
    then show ?thesis using Cons.IH [of "w\<lparr>w_cache := drop_some m (w_cache w)\<rparr>" tr] Cons.prems(2) Monitor
      by simp
  qed
qed

end

subsection \<open>Calls succeed while the database answers\<close>

definition domain_error :: "goerror \<Rightarrow> bool" where
  "domain_error e = (e = ErrTaskNotFound \<or> e = ErrInvalidStatusTransition \<or> e = ErrUnknownStatus)"

lemma apply_params_err: "apply_params p t = Inl e \<Longrightarrow> domain_error e"
  by (auto simp: apply_params_def Let_def domain_error_def split: option.splits if_splits)

locale reliable_service =
  task_service R tasks stamp K lookup inv drop_some + rel: reliable_repository R tasks stamp up
  for R :: "'r TaskRepository" and tasks :: "'r \<Rightarrow> uint64 \<rightharpoonup> Task" and stamp :: "time \<Rightarrow> time"
    and K :: "'c TaskCachePort" and lookup :: "'c \<Rightarrow> uint64 \<rightharpoonup> Task" and inv :: "'c \<Rightarrow> bool"
    and drop_some :: "'e \<Rightarrow> 'c \<Rightarrow> 'c" and up :: "nat \<Rightarrow> 'r \<Rightarrow> bool"
begin

lemma Update_answers:
  assumes up2: "up (Suc (Suc n)) (w_repo w)"
  shows "\<exists>w' res. TaskService_Update env (NewTaskService l R K) i p w = (w', res) \<and> up n (w_repo w') \<and>
    (\<forall>e. res = Inl e \<longrightarrow> domain_error e)"
proof -
  note defs = NewTaskService_def service_defs Let_def log_simps
  obtain r x where g: "repo_Get R (w_repo w) i = (r, x)" "up (Suc n) r"
    "\<forall>e. x = Inl e \<longrightarrow> e = ErrTaskNotFound" using rel.Get_up [OF up2, of i] by blast
  have less: "up n r" using g(2) by (rule rel.up_less)
  show ?thesis
  proof (cases x)
    case (Inl e)
    then show ?thesis using g less by (simp add: defs domain_error_def)
  next
    case (Inr t0)
    show ?thesis
    proof (cases "apply_params p t0")
      case err: (Inl e)
      then show ?thesis using g Inr less apply_params_err [OF err] by (simp add: defs)
    next
      case ok: (Inr t1)
      obtain now w1 where now: "time_Now env (w\<lparr>w_repo := r\<rparr>) = (now, w1)" by fastforce
      obtain r' y where u: "repo_Update R r (t1\<lparr>UpdatedAt := Some now\<rparr>) = (r', y)" "up n r'"
        "\<forall>e. y = Some e \<longrightarrow> e = ErrTaskNotFound" using rel.Update_up [OF g(2)] by blast
      have "w_repo w1 = r" using now by (simp add: log_simps)
      then show ?thesis
        using g Inr ok now u by (cases y) (simp_all add: defs domain_error_def)
    qed
  qed
qed

lemma exec_answers:
  assumes up2: "up (Suc (Suc n)) (w_repo w)"
  obtains w' res where "svc_exec env (NewTaskService l R K) c w = (w', res)"
    and "up n (w_repo w')" and "\<And>e. res = RErr e \<Longrightarrow> domain_error e"
proof -
  have up1: "up (Suc n) (w_repo w)" and up0: "up n (w_repo w)" using up2 rel.up_less by blast+
  note defs = NewTaskService_def service_defs Let_def log_simps
  have "\<exists>w' res. svc_exec env (NewTaskService l R K) c w = (w', res) \<and> up n (w_repo w') \<and>
      (\<forall>e. res = RErr e \<longrightarrow> domain_error e)"
  proof (cases c)
    case (CCreate t)
    then show ?thesis using rel.Store_up [OF up1, of t] by (auto simp: defs)
  next
    case (CGet i)
    obtain r x where g: "repo_Get R (w_repo w) i = (r, x)" "up n r"
      "\<forall>e. x = Inl e \<longrightarrow> e = ErrTaskNotFound" using rel.Get_up [OF up1, of i] by blast
    show ?thesis
      using CGet g up0 by (auto simp: defs domain_error_def split: option.splits sum.splits)
  next
    case (CUpdate i p)
    then show ?thesis using Update_answers [OF up2, of env l i p] by (auto split: sum.splits)
  next
    case (CDelete i)
    obtain r x where d: "repo_Delete R (w_repo w) i = (r, x)" "up n r"
      "\<forall>e. x = Some e \<longrightarrow> e = ErrTaskNotFound" using rel.Delete_up [OF up1, of i] by blast
    show ?thesis using CDelete d by (cases x) (simp_all add: defs domain_error_def)
  next
    case (CList lim off)
    obtain r k where k: "repo_Count R (w_repo w) (Some (page_filter lim off)) = (r, Inr k)" "up (Suc n) r"
      using rel.Count_up [OF up2] by blast
    obtain r' ts where "repo_List R r (Some (page_filter lim off)) = (r', Inr ts)" "up n r'"
      using rel.List_up [OF k(2)] by blast
    then show ?thesis using CList k by (simp add: defs page_filter_def)
  qed
  then show ?thesis using that by blast
qed

lemma run_answers:
  assumes "up (2 * length es) (w_repo w)"
    and "svc_run env (NewTaskService l R K) drop_some es w = (w', tr)"
  shows "\<forall>e. RErr e \<in> snd ` set tr \<longrightarrow> domain_error e"
  using assms
proof (induction es arbitrary: w tr)
  case (Cons ev es)
  have up: "up (Suc (Suc (2 * length es))) (w_repo w)" using Cons.prems(1) by simp
  show ?case
  proof (cases ev)
    case (Call c)
    obtain w1 res where x: "svc_exec env (NewTaskService l R K) c w = (w1, res)"
      "up (2 * length es) (w_repo w1)" "\<And>e. res = RErr e \<Longrightarrow> domain_error e"
      using exec_answers [OF up] by blast
    obtain tr' where "tr = (c, res) # tr'" "svc_run env (NewTaskService l R K) drop_some es w1 = (w', tr')"
      using Cons.prems(2) Call x(1) by (auto split: prod.splits)
    then show ?thesis using Cons.IH [OF x(2), of tr'] x(3) by auto
  next
    case (Monitor m)
    then show ?thesis
      using Cons.IH [of "w\<lparr>w_cache := drop_some m (w_cache w)\<rparr>" tr] Cons.prems(2)
        rel.up_less [OF rel.up_less [OF up]] by simp
  qed
qed simp

end

subsection \<open>What the specification guarantees\<close>

inductive_cases spec_traceE: "spec_trace stamp m (x # tr) m'"
inductive_cases spec_trace_nilE: "spec_trace stamp m [] m'"

lemma apply_params_status:
  "apply_params p t = Inr t' \<Longrightarrow> Status t' = Status t \<or> lifecycle (Status t) (Status t')"
  by (auto simp: apply_params_def Let_def CanTransitionTo_iff split: option.splits if_splits)

lemma stored_fields [simp]:
  "Name (stored stamp t) = Name t" "Body (stored stamp t) = Body t" "Status (stored stamp t) = Status t"
  "CreatedAt (stored stamp t) = stamp (CreatedAt t)"
  by (simp_all add: stored_def)

text \<open>A call that is not a deletion of \<open>i\<close> keeps the task and moves its status along the life cycle.\<close>

lemma spec_call_survives:
  assumes "spec_call stamp c m res m'" and "m i = Some t" and "c \<noteq> CDelete i"
  shows "\<exists>t'. m' i = Some t' \<and> lifecycle\<^sup>*\<^sup>* (Status t) (Status t')"
  using assms
proof cases
  case (updated j t0 p t1 t' now)
  show ?thesis
  proof (cases "j = i")
    case True
    then show ?thesis using updated assms(2) apply_params_status [of p t0 t1] by auto
  qed (use updated assms(2) in simp)
qed auto

lemma spec_trace_survives:
  assumes "spec_trace stamp m tr m'" and "m i = Some t" and "CDelete i \<notin> fst ` set tr"
  shows "\<exists>t'. m' i = Some t' \<and> lifecycle\<^sup>*\<^sup>* (Status t) (Status t')"
  using assms
proof (induction arbitrary: t rule: spec_trace.induct)
  case (call c m res m1 tr m2)
  obtain t1 where "m1 i = Some t1" "lifecycle\<^sup>*\<^sup>* (Status t) (Status t1)"
    using spec_call_survives [OF call.hyps(1) call.prems(1)] call.prems(2) by auto
  then show ?case using call.IH [of t1] call.prems(2) by (fastforce intro: rtranclp_trans)
qed auto

lemma svc_run_calls: "svc_run env s f es w = (w', tr) \<Longrightarrow> Call ` fst ` set tr \<subseteq> set es"
  by (induction env s f es w arbitrary: w' tr rule: svc_run.induct) (fastforce split: prod.splits)+

lemma lifecycle_rtranclp_terminal: "lifecycle\<^sup>*\<^sup>* s s' \<Longrightarrow> terminal s \<Longrightarrow> s' = s"
  by (induction rule: rtranclp_induct) (auto dest: lifecycle_terminal)

text \<open>A deleted task is gone for every later call until an id is handed out again.\<close>

sublocale tasks_table \<subseteq> svc: task_service "NewTaskRepository db" "\<lambda>d. tasks_of (tbl d)" stamp
    TaskCache_port "\<lambda>c. map_of (items c)" "cache_inv u64" "\<lambda>ms c. snd (TaskCache_Run ms c)"
  by unfold_locales

sublocale reliable_table \<subseteq> rsvc: reliable_service "NewTaskRepository db" "\<lambda>d. tasks_of (tbl d)" stamp
    TaskCache_port "\<lambda>c. map_of (items c)" "cache_inv u64" "\<lambda>ms c. snd (TaskCache_Run ms c)" up
  by unfold_locales

context reliable_table
begin

lemmas service_run_answers = rsvc.run_answers

end

context tasks_table
begin

lemma started_sound:
  assumes "NewTaskCache conv limit interval (NewTaskRepository db) d = (d', Inr c)"
  shows "svc.sound \<lparr>tick = n, sent = q, stderr = k, w_repo = d', w_cache = c\<rparr>"
    and "tasks_of (tbl d') = tasks_of (tbl d)"
proof -
  note start = repo.warm_up_tasks [OF assms]
  show "tasks_of (tbl d') = tasks_of (tbl d)" by (rule start)
  have "map_of (items c) i = Some t \<Longrightarrow> tasks_of (tbl d) i = Some (stored stamp t)" for i t
    using start(3) repo.tasks_stored [of d i t] by (metis domI map_le_def)
  then show "svc.sound \<lparr>tick = n, sent = q, stderr = k, w_repo = d', w_cache = c\<rparr>"
    using start by (simp add: svc.sound_def coherent_def)
qed

lemma started_run:
  assumes "NewTaskCache conv limit interval (NewTaskRepository db) d = (d', Inr c)"
    and "svc_run env (NewTaskService l (NewTaskRepository db) TaskCache_port)
       (\<lambda>ms c. snd (TaskCache_Run ms c)) es \<lparr>tick = n, sent = q, stderr = k, w_repo = d', w_cache = c\<rparr> = (w', tr)"
  shows "spec_trace stamp (tasks_of (tbl d)) tr (tasks_of (tbl (w_repo w')))"
    and "coherent stamp (map_of (items (w_cache w'))) (tasks_of (tbl (w_repo w')))"
    and "cache_inv u64 (w_cache w')"
  using svc.run_spec [OF started_sound(1) [OF assms(1)] assms(2)] started_sound(2) [OF assms(1)]
  by (simp_all add: svc.sound_def)

end

subsection \<open>A sample run\<close>

text \<open>
  One task goes through the service on the reference table, with a memory tick in between and a
  transition the life cycle forbids.
\<close>

definition sample_events :: "monitor_event list svc_event list" where
  "sample_events =
     [Call (CCreate (NewTask 5001 ''a'' ''b'')), Call (CGet 1), Monitor [Tick (2 ^ 40)],
      Call (CUpdate 1 \<lparr>param_Name = None, param_Body = None, param_Status = Some TaskStatusComplete\<rparr>),
      Call (CUpdate 1 \<lparr>param_Name = None, param_Body = Some ''c'', param_Status = Some TaskStatusCancel\<rparr>),
      Call (CList 10 0), Call (CDelete 1), Call (CGet 1)]"

definition sample_cache :: TaskCache where
  "sample_cache = Cache_New (\<lambda>_. 0) 16 Second"

definition run_from :: "pg \<Rightarrow> TaskCache \<Rightarrow> monitor_event list svc_event list
    \<Rightarrow> (pg, TaskCache) world \<times> (svc_call \<times> svc_result) list" where
  "run_from d c es =
     svc_run sample_env (NewTaskService sample_logger (NewTaskRepository pg_db) TaskCache_port)
       (\<lambda>ms c. snd (TaskCache_Run ms c)) es
       \<lparr>tick = 0, sent = [], stderr = empty_sink, w_repo = d, w_cache = c\<rparr>"

abbreviation sample_run :: "monitor_event list svc_event list
    \<Rightarrow> (pg, TaskCache) world \<times> (svc_call \<times> svc_result) list" where
  "sample_run \<equiv> run_from pg_empty sample_cache"

lemma sample_start:
  "NewTaskCache (\<lambda>_. 0) 16 Second (NewTaskRepository pg_db) pg_empty = (pg_empty, Inr sample_cache)"
  by code_simp

lemma sample_results:
  "map snd (snd (sample_run sample_events)) =
     [RId 1, RTask ((NewTask 5001 ''a'' ''b'')\<lparr>ID := 1\<rparr>), RErr ErrInvalidStatusTransition,
      RTask \<lparr>ID = 1, Name = ''a'', Body = ''c'', Status = TaskStatusCancel, CreatedAt = 5000,
        UpdatedAt = Some 1700000000000000123\<rparr>,
      RPage [\<lparr>ID = 1, Name = ''a'', Body = ''c'', Status = TaskStatusCancel, CreatedAt = 5000,
        UpdatedAt = Some 1700000000000000000\<rparr>] 1,
      RDone, RErr ErrTaskNotFound]"
  by code_simp

text \<open>A table with one paused task, and the cache warmed up from it.\<close>

definition paused_task :: Task where
  "paused_task =
     \<lparr>ID = 1, Name = ''n'', Body = ''b'', Status = TaskStatusPause, CreatedAt = 5000, UpdatedAt = None\<rparr>"

definition paused_table :: pg where
  "paused_table =
     pg_empty\<lparr>pg_slots := [Some \<lparr>row_id = 1, row_name = ''n'', row_body = ''b'',
       row_status = TaskStatusPause, row_created_at = 5000, row_updated_at = None\<rparr>]\<rparr>"

definition paused_cache :: TaskCache where
  "paused_cache = sample_cache\<lparr>items := [(1, paused_task)], len := 1\<rparr>"

definition resume_events :: "monitor_event list svc_event list" where
  "resume_events =
     [Monitor [Tick 0], Call (CUpdate 1 \<lparr>param_Name = None, param_Body = None,
        param_Status = Some TaskStatusInProcess\<rparr>)]"

lemma paused_start:
  "NewTaskCache (\<lambda>_. 0) 16 Second (NewTaskRepository pg_db) paused_table = (paused_table, Inr paused_cache)"
  by code_simp

subsection \<open>Properties\<close>





text \<open>
  C3. Whatever calls are made, as long as none of them deletes task \<open>i\<close>, the task stays in the
  table and its status only moves along the documented life cycle; a COMPLETE or CANCEL task
  keeps its status for ever.
\<close>
theorem stored_status_follows_lifecycle:
  assumes "tasks_table db tbl stamp"
    and "NewTaskCache conv limit interval (NewTaskRepository db) d = (d', Inr c)"
    and "svc_run env (NewTaskService l (NewTaskRepository db) TaskCache_port)
       (\<lambda>ms c. snd (TaskCache_Run ms c)) es \<lparr>tick = n, sent = q, stderr = k, w_repo = d', w_cache = c\<rparr> = (w', tr)"
    and "tasks_of (tbl d) i = Some t" and "Call (CDelete i) \<notin> set es"
  shows "\<exists>t'. tasks_of (tbl (w_repo w')) i = Some t' \<and> lifecycle\<^sup>*\<^sup>* (Status t) (Status t') \<and>
    (terminal (Status t) \<longrightarrow> Status t' = Status t)"
proof -
  have "CDelete i \<notin> fst ` set tr" using svc_run_calls [OF assms(3)] assms(5) by auto
  then show ?thesis
    using spec_trace_survives [OF tasks_table.started_run(1) [OF assms(1-3)] assms(4)]
      lifecycle_rtranclp_terminal by blast
qed

theorem stored_status_follows_lifecycle_witness:
  "(\<exists>t'. tasks_of (pg_tbl (w_repo (fst (run_from paused_table paused_cache resume_events)))) 1 = Some t' \<and>
      lifecycle\<^sup>*\<^sup>* TaskStatusPause (Status t')) \<and>
   map_option Status (tasks_of (pg_tbl (w_repo (fst (run_from paused_table paused_cache resume_events)))) 1)
     = Some TaskStatusInProcess"
proof
  let ?run = "run_from paused_table paused_cache resume_events"
  have "tasks_of (pg_tbl paused_table) 1 = Some paused_task" by code_simp
  moreover have "Call (CDelete 1) \<notin> set resume_events" by (simp add: resume_events_def)
  moreover have "Status paused_task = TaskStatusPause" by (simp add: paused_task_def)
  ultimately show "\<exists>t'. tasks_of (pg_tbl (w_repo (fst ?run))) 1 = Some t' \<and>
      lifecycle\<^sup>*\<^sup>* TaskStatusPause (Status t')"
    using stored_status_follows_lifecycle [OF pg.tasks_table_axioms paused_start, of sample_env
        sample_logger resume_events 0 "[]" empty_sink "fst ?run" "snd ?run" 1 paused_task]
    by (auto simp: run_from_def)
qed code_simp



end
