(* ===== verification/Task_API.thy ===== *)
theory Task_API
  imports Http_Protocol Task_Service
begin

text \<open>
  The REST interface of \<open>internal/server\<close>: the five handlers, the parsing of paths and queries, the
  conversions between domain and wire types, and the routing table of \<open>InitRoutes\<close>. The theorems
  show that a request is either refused before the service is called, and then changes nothing, or
  is one call of the service whose result determines the status code and the body.
\<close>

subsection \<open>Conversions\<close>

definition taskFromDomain :: "Task \<Rightarrow> GetTaskResponse" where
  "taskFromDomain task =
     \<lparr>r_ID = ID task, r_Name = Name task, r_Body = Body task,
      r_Status = TaskStatus_String (Status task), r_CreatedAt = CreatedAt task,
      r_UpdatedAt = UpdatedAt task\<rparr>"

definition tasksFromDomain :: "Task list \<Rightarrow> GetTaskResponse list" where
  "tasksFromDomain tasks = foldl (\<lambda>taskResponses task. taskResponses @ [taskFromDomain task]) [] tasks"

subsection \<open>Parsing\<close>

definition api_defaultListLimit :: uint64 where
  "api_defaultListLimit = 50"

definition parseListQuery :: "(string \<times> string list) list \<Rightarrow> goerror + ListTasksQuery" where
  "parseListQuery q =
     (let out = \<lparr>q_Limit = api_defaultListLimit, q_Offset = 0\<rparr>;
          raw = first_value q ''limit''
      in case (if raw \<noteq> []
               then (case ParseUint raw of
                       Inl _ \<Rightarrow> Inl (ErrNew ''limit must be a non-negative integer'')
                     | Inr v \<Rightarrow> Inr (out\<lparr>q_Limit := v\<rparr>))
               else Inr out) of
           Inl err \<Rightarrow> Inl err
         | Inr out \<Rightarrow>
             (let raw = first_value q ''offset''
              in if raw \<noteq> []
                 then (case ParseUint raw of
                         Inl _ \<Rightarrow> Inl (ErrNew ''offset must be a non-negative integer'')
                       | Inr v \<Rightarrow> Inr (out\<lparr>q_Offset := v\<rparr>))
                 else Inr out))"

definition parsePathID :: "request \<Rightarrow> goerror + uint64" where
  "parsePathID r =
     (let idParam = (case map_of (RequestParams r) ''id'' of Some v \<Rightarrow> v | None \<Rightarrow> [])
      in if idParam = [] then Inl (ErrNew ''task id is required'')
         else case ParseUint idParam of Inl err \<Rightarrow> Inl err | Inr i \<Rightarrow> Inr i)"

subsection \<open>Handlers\<close>

record ('r, 'c) API =
  api_responseHandler :: ResponseHandler
  api_taskService :: "('r, 'c) TaskService"

definition NewAPI :: "ResponseHandler \<Rightarrow> ('r, 'c) TaskService \<Rightarrow> ('r, 'c) API" where
  "NewAPI h svc = \<lparr>api_responseHandler = h, api_taskService = svc\<rparr>"

definition API_ListTasks :: "env \<Rightarrow> json_codec \<Rightarrow> ('r, 'c) API \<Rightarrow> ('r, 'c) world handler" where
  "API_ListTasks env codec api r w s =
     (let h = api_responseHandler api
      in case parseListQuery (req_Query r) of
           Inl err \<Rightarrow> SendErrorResponse env codec h StatusBadRequest (Some err) w s
         | Inr query \<Rightarrow>
             (case Validate h (PQuery query) of
                Some err \<Rightarrow> SendErrorResponse env codec h StatusBadRequest (Some err) w s
              | None \<Rightarrow>
                  (case TaskService_List env (api_taskService api) (q_Limit query) (q_Offset query) s of
                     (s1, Inl err) \<Rightarrow>
                       SendErrorResponse env codec h StatusInternalServerError (Some err) w s1
                   | (s1, Inr (tasks, n)) \<Rightarrow>
                       SendSuccessResponse env codec h StatusOK
                         (BList \<lparr>l_Items = tasksFromDomain tasks, l_Total = n,
                            l_Limit = q_Limit query, l_Offset = q_Offset query\<rparr>) w s1)))"

definition API_GetTask :: "env \<Rightarrow> json_codec \<Rightarrow> ('r, 'c) API \<Rightarrow> ('r, 'c) world handler" where
  "API_GetTask env codec api r w s =
     (let h = api_responseHandler api
      in case parsePathID r of
           Inl err \<Rightarrow> SendErrorResponse env codec h StatusBadRequest (Some err) w s
         | Inr tid \<Rightarrow>
             (case TaskService_Get env (api_taskService api) tid s of
                (s1, Inl err) \<Rightarrow>
                  (if errors_Is err ErrTaskNotFound
                   then SendErrorResponse env codec h StatusNotFound (Some err) w s1
                   else SendErrorResponse env codec h StatusInternalServerError (Some err) w s1)
              | (s1, Inr task) \<Rightarrow>
                  SendSuccessResponse env codec h StatusOK (BTask (taskFromDomain task)) w s1))"

definition API_UpdateTask :: "env \<Rightarrow> json_codec \<Rightarrow> ('r, 'c) API \<Rightarrow> ('r, 'c) world handler" where
  "API_UpdateTask env codec api r w s =
     (let h = api_responseHandler api
      in case parsePathID r of
           Inl err \<Rightarrow> SendErrorResponse env codec h StatusBadRequest (Some err) w s
         | Inr tid \<Rightarrow>
             (case BindJSON h (json_DecodeUpdate codec) PUpdate (req_Body r) of
                Inl err \<Rightarrow> SendErrorResponse env codec h StatusBadRequest (Some err) w s
              | Inr b \<Rightarrow>
                  (case TaskService_Update env (api_taskService api) tid
                      \<lparr>param_Name = u_Name b, param_Body = u_Body b, param_Status = u_Status b\<rparr> s of
                     (s1, Inl err) \<Rightarrow>
                       (if errors_Is err ErrTaskNotFound
                        then SendErrorResponse env codec h StatusNotFound (Some err) w s1
                        else if errors_Is err ErrInvalidStatusTransition \<or> errors_Is err ErrUnknownStatus
                        then SendErrorResponse env codec h StatusBadRequest (Some err) w s1
                        else SendErrorResponse env codec h StatusInternalServerError (Some err) w s1)
                   | (s1, Inr updated) \<Rightarrow>
                       SendSuccessResponse env codec h StatusOK (BTask (taskFromDomain updated)) w s1)))"

definition API_DeleteTask :: "env \<Rightarrow> json_codec \<Rightarrow> ('r, 'c) API \<Rightarrow> ('r, 'c) world handler" where
  "API_DeleteTask env codec api r w s =
     (let h = api_responseHandler api
      in case parsePathID r of
           Inl err \<Rightarrow> SendErrorResponse env codec h StatusBadRequest (Some err) w s
         | Inr tid \<Rightarrow>
             (case TaskService_Delete env (api_taskService api) tid s of
                (s1, Some err) \<Rightarrow>
                  (if errors_Is err ErrTaskNotFound
                   then SendErrorResponse env codec h StatusNotFound (Some err) w s1
                   else SendErrorResponse env codec h StatusInternalServerError (Some err) w s1)
              | (s1, None) \<Rightarrow> (WriteHeader StatusNoContent w, s1)))"

definition API_CreateTask :: "env \<Rightarrow> json_codec \<Rightarrow> ('r, 'c) API \<Rightarrow> ('r, 'c) world handler" where
  "API_CreateTask env codec api r w s =
     (let h = api_responseHandler api
      in case BindJSON h (json_DecodeCreate codec) PCreate (req_Body r) of
           Inl err \<Rightarrow> SendErrorResponse env codec h StatusBadRequest (Some err) w s
         | Inr ps \<Rightarrow>
             (case time_Now env s of (now, s0) \<Rightarrow>
                (case TaskService_Create env (api_taskService api) (NewTask now (c_Name ps) (c_Body ps)) s0 of
                   (s1, Inl err) \<Rightarrow>
                     SendErrorResponse env codec h StatusInternalServerError (Some err) w s1
                 | (s1, Inr tid) \<Rightarrow>
                     SendSuccessResponse env codec h StatusOK (BCreated \<lparr>c_ID = tid\<rparr>) w s1)))"

definition API_InitRoutes :: "env \<Rightarrow> json_codec \<Rightarrow> ('r, 'c) API \<Rightarrow> string
    \<Rightarrow> ('r, 'c) world Router" where
  "API_InitRoutes env codec api routeGroup =
     (let router = NewRouter;
          router = Register ''GET'' (routeGroup @ ''/tasks'') (API_ListTasks env codec api) router;
          router = Register ''GET'' (routeGroup @ ''/tasks/{id}'') (API_GetTask env codec api) router;
          router = Register ''POST'' (routeGroup @ ''/tasks'') (API_CreateTask env codec api) router;
          router = Register ''PATCH'' (routeGroup @ ''/tasks/{id}'') (API_UpdateTask env codec api) router;
          router = Register ''DELETE'' (routeGroup @ ''/tasks/{id}'') (API_DeleteTask env codec api) router
      in router)"

subsection \<open>The interface as a table\<close>

text \<open>
  What a request asks for, by method and path. The route group is given by its literal segments.
\<close>

datatype endpoint =
    ListEP | CreateEP | GetEP string | UpdateEP string | DeleteEP string | NoMethod | NoPath

definition collection :: "seg list" where
  "collection = [Lit ''tasks'']"

definition item :: "seg list" where
  "item = [Lit ''tasks'', Par ''id'']"

definition endpoint_of :: "seg list \<Rightarrow> string \<Rightarrow> string \<Rightarrow> endpoint" where
  "endpoint_of gs m path =
     (if path = render (gs @ collection)
      then (if m = ''GET'' then ListEP else if m = ''POST'' then CreateEP else NoMethod)
      else if list_all2 seg_ok (gs @ item) (segments path)
      then (let x = last (segments path)
            in if m = ''GET'' then GetEP x else if m = ''PATCH'' then UpdateEP x
               else if m = ''DELETE'' then DeleteEP x else NoMethod)
      else NoPath)"

definition with_id :: "string \<Rightarrow> request \<Rightarrow> request" where
  "with_id x req = req\<lparr>req_Params := Some [(''id'', x)]\<rparr>"

definition group_ok :: "seg list \<Rightarrow> bool" where
  "group_ok gs = list_all (\<lambda>g. is_Lit g \<and> wf_seg g) gs"

subsection \<open>Routing lemmas\<close>

lemma render_append: "render (gs @ hs) = render gs @ render hs"
  by (simp add: render_def)

lemma group_okD: "group_ok gs \<Longrightarrow> list_all is_Lit gs" "group_ok gs \<Longrightarrow> list_all wf_seg gs"
  by (simp_all add: group_ok_def list_all_iff)

lemma wf_tasks: "list_all wf_seg collection" "list_all wf_seg item"
  by (simp_all add: collection_def item_def plain_def)

lemma match_collection:
  assumes "group_ok gs"
  shows "matchPattern (render gs @ ''/tasks'') path = (path = render (gs @ collection), None)"
proof -
  have "render gs @ ''/tasks'' = render (gs @ collection)" by (simp add: render_append collection_def) (simp add: render_def)
  then show ?thesis
    using match_render [of "gs @ collection" path] group_okD [OF assms] wf_tasks
    by (simp add: collection_def)
qed

lemma bindings_lits:
  "list_all is_Lit gs \<Longrightarrow> length xs = length gs \<Longrightarrow> bindings (gs @ hs) (xs @ ys) ps = bindings hs ys ps"
proof (induction gs arbitrary: xs)
  case (Cons g gs)
  then show ?case by (cases g; cases xs) auto
qed simp

lemma match_item:
  assumes "group_ok gs"
  shows "matchPattern (render gs @ ''/tasks/{id}'') path =
     (if list_all2 seg_ok (gs @ item) (segments path) then (True, Some [(''id'', last (segments path))])
      else (False, None))"
proof -
  have r: "render gs @ ''/tasks/{id}'' = render (gs @ item)" by (simp add: render_append item_def) (simp add: render_def)
  have "bindings (gs @ item) (segments path) None = Some [(''id'', last (segments path))]"
    if ok: "list_all2 seg_ok (gs @ item) (segments path)"
  proof -
    obtain us vs where v: "segments path = us @ vs" "length us = length gs" "list_all2 seg_ok item vs"
      using ok by (auto simp: list_all2_append1)
    then obtain a b where "vs = [a, b]" by (auto simp: item_def list_all2_Cons1)
    then show ?thesis using v bindings_lits [OF group_okD(1) [OF assms] v(2)] by (simp add: item_def)
  qed
  then show ?thesis
    using match_render [of "gs @ item" path] group_okD [OF assms] wf_tasks r
    by (simp add: item_def)
qed

lemma collection_not_item:
  assumes "group_ok gs"
  shows "\<not> list_all2 seg_ok (gs @ item) (segments (render (gs @ collection)))"
proof
  assume "list_all2 seg_ok (gs @ item) (segments (render (gs @ collection)))"
  then have "length (gs @ item) = length (segments (render (gs @ collection)))" by (rule list_all2_lengthD)
  then show False
    using segments_render [of "gs @ collection"] group_okD [OF assms] wf_tasks
    by (simp add: collection_def item_def)
qed

lemma InitRoutes_build:
  "API_InitRoutes env codec api g = build_router
     [(''GET'', g @ ''/tasks'', API_ListTasks env codec api),
      (''GET'', g @ ''/tasks/{id}'', API_GetTask env codec api),
      (''POST'', g @ ''/tasks'', API_CreateTask env codec api),
      (''PATCH'', g @ ''/tasks/{id}'', API_UpdateTask env codec api),
      (''DELETE'', g @ ''/tasks/{id}'', API_DeleteTask env codec api)]"
  by (simp add: API_InitRoutes_def build_router_def Let_def)

lemma upper_methods [simp]:
  "strings_ToUpper ''GET'' = ''GET''" "strings_ToUpper ''POST'' = ''POST''"
  "strings_ToUpper ''PATCH'' = ''PATCH''" "strings_ToUpper ''DELETE'' = ''DELETE''"
  by (simp_all add: strings_ToUpper_def char_ToUpper_def)

lemma serve_routes:
  assumes "group_ok gs"
  shows "Router_ServeHTTP (API_InitRoutes env codec api (render gs)) req w s =
     (case endpoint_of gs (req_Method req) (req_Path req) of
        ListEP \<Rightarrow> API_ListTasks env codec api req w s
      | CreateEP \<Rightarrow> API_CreateTask env codec api req w s
      | GetEP x \<Rightarrow> API_GetTask env codec api (with_id x req) w s
      | UpdateEP x \<Rightarrow> API_UpdateTask env codec api (with_id x req) w s
      | DeleteEP x \<Rightarrow> API_DeleteTask env codec api (with_id x req) w s
      | NoMethod \<Rightarrow> (WriteHeader StatusMethodNotAllowed w, s)
      | NoPath \<Rightarrow> (WriteHeader StatusNotFound w, s))"
  using collection_not_item [OF assms]
  by (auto simp: InitRoutes_build serve_build reg_method_def reg_matches_def match_collection [OF assms]
      match_item [OF assms] endpoint_of_def addParamsToContext_def with_id_def Let_def)

subsection \<open>Requests as calls of the service\<close>

text \<open>
  The service call a request amounts to, or the status code it is refused with; \<open>now\<close> is the time
  a created task is stamped with.
\<close>

definition path_call :: "string \<Rightarrow> (uint64 \<Rightarrow> int + svc_call) \<Rightarrow> int + svc_call" where
  "path_call x f =
     (if x = [] then Inl StatusBadRequest
      else case ParseUint x of Inl _ \<Rightarrow> Inl StatusBadRequest | Inr i \<Rightarrow> f i)"

definition call_of :: "ResponseHandler \<Rightarrow> json_codec \<Rightarrow> seg list \<Rightarrow> time \<Rightarrow> request \<Rightarrow> int + svc_call" where
  "call_of h codec gs now req =
     (case endpoint_of gs (req_Method req) (req_Path req) of
        ListEP \<Rightarrow>
          (case parseListQuery (req_Query req) of
             Inl _ \<Rightarrow> Inl StatusBadRequest
           | Inr q \<Rightarrow>
               if Validate h (PQuery q) \<noteq> None then Inl StatusBadRequest
               else Inr (CList (q_Limit q) (q_Offset q)))
      | CreateEP \<Rightarrow>
          (case BindJSON h (json_DecodeCreate codec) PCreate (req_Body req) of
             Inl _ \<Rightarrow> Inl StatusBadRequest
           | Inr ps \<Rightarrow> Inr (CCreate (NewTask now (c_Name ps) (c_Body ps))))
      | GetEP x \<Rightarrow> path_call x (\<lambda>i. Inr (CGet i))
      | UpdateEP x \<Rightarrow>
          path_call x (\<lambda>i.
            case BindJSON h (json_DecodeUpdate codec) PUpdate (req_Body req) of
              Inl _ \<Rightarrow> Inl StatusBadRequest
            | Inr b \<Rightarrow>
                Inr (CUpdate i \<lparr>param_Name = u_Name b, param_Body = u_Body b, param_Status = u_Status b\<rparr>))
      | DeleteEP x \<Rightarrow> path_call x (\<lambda>i. Inr (CDelete i))
      | NoMethod \<Rightarrow> Inl StatusMethodNotAllowed
      | NoPath \<Rightarrow> Inl StatusNotFound)"

text \<open>The answer to a result: status code and body.\<close>

fun error_status :: "svc_call \<Rightarrow> goerror \<Rightarrow> int" where
  "error_status (CGet _) e = (if errors_Is e ErrTaskNotFound then StatusNotFound else StatusInternalServerError)"
| "error_status (CDelete _) e = (if errors_Is e ErrTaskNotFound then StatusNotFound else StatusInternalServerError)"
| "error_status (CUpdate _ _) e =
     (if errors_Is e ErrTaskNotFound then StatusNotFound
      else if errors_Is e ErrInvalidStatusTransition \<or> errors_Is e ErrUnknownStatus then StatusBadRequest
      else StatusInternalServerError)"
| "error_status _ e = StatusInternalServerError"

fun reply_of :: "svc_call \<Rightarrow> svc_result \<Rightarrow> int \<times> payload option" where
  "reply_of c (RId i) = (StatusOK, Some (BCreated \<lparr>c_ID = i\<rparr>))"
| "reply_of c (RTask t) = (StatusOK, Some (BTask (taskFromDomain t)))"
| "reply_of (CList l off) (RPage ts n) =
     (StatusOK, Some (BList \<lparr>l_Items = map taskFromDomain ts, l_Total = n, l_Limit = l, l_Offset = off\<rparr>))"
| "reply_of c (RPage ts n) = (StatusOK, None)"
| "reply_of c RDone = (StatusNoContent, None)"
| "reply_of c (RErr e) = (error_status c e, None)"

text \<open>
  The response carries this status and, unless the connection is broken, the encoded body; when
  the encoder fails the status is 500.
\<close>

definition answered :: "json_codec \<Rightarrow> ResponseWriter \<Rightarrow> int \<Rightarrow> payload option \<Rightarrow> ResponseWriter \<Rightarrow> bool" where
  "answered codec w st pl w' =
     (rw_status w' = Some st \<and>
        (\<forall>b bs. pl = Some b \<and> json_Marshal codec b = Inr bs \<and> rw_broken w = None \<longrightarrow>
           rw_body w' = rw_body w @ bs) \<or>
      rw_status w' = Some StatusInternalServerError \<and> (\<exists>b e. json_Marshal codec b = Inl e))"

subsection \<open>Lemmas on answers\<close>

lemma tasksFromDomain_map [simp]: "tasksFromDomain ts = map taskFromDomain ts"
proof -
  have "foldl (\<lambda>rs t. rs @ [taskFromDomain t]) us ts = us @ map taskFromDomain ts" for us
    by (induction ts arbitrary: us) simp_all
  then show ?thesis by (simp add: tasksFromDomain_def)
qed

lemma answered_WriteHeader: "rw_status w = None \<Longrightarrow> answered codec w st None (WriteHeader st w)"
  by (simp add: answered_def WriteHeader_def)

lemma answered_error:
  "rw_status w = None \<Longrightarrow> answered codec w st None (fst (SendErrorResponse env codec h st err w s))"
  by (auto simp: answered_def SendErrorResponse_def Let_def send_body_status send_marshal_error_status
      split: prod.splits sum.splits)

lemma answered_success:
  "rw_status w = None \<Longrightarrow> answered codec w st (Some b) (fst (SendSuccessResponse env codec h st b w s))"
  by (auto simp: answered_def SendSuccessResponse_def send_body_status send_marshal_error_status
      send_body_body split: sum.splits)

text \<open>One step of the interface: the request \<open>req\<close> takes the server from \<open>s\<close> to \<open>s'\<close> with answer \<open>w'\<close>.\<close>

definition http_step :: "env \<Rightarrow> json_codec \<Rightarrow> ('r, 'c) API \<Rightarrow> int + svc_call \<Rightarrow> ResponseWriter
    \<Rightarrow> ('r, 'c) world \<Rightarrow> ResponseWriter \<times> ('r, 'c) world \<Rightarrow> bool" where
  "http_step env codec api ask w s = (\<lambda>(w', s').
     case ask of
       Inl st \<Rightarrow> answered codec w st None w' \<and> log_state.more s' = log_state.more s
     | Inr c \<Rightarrow>
         (\<exists>s0 s1 res. log_state.more s0 = log_state.more s \<and>
            svc_exec env (api_taskService api) c s0 = (s1, res) \<and>
            answered codec w (fst (reply_of c res)) (snd (reply_of c res)) w' \<and>
            log_state.more s' = log_state.more s1))"

lemma http_step_error:
  "rw_status w = None \<Longrightarrow>
     http_step env codec api (Inl st) w s (SendErrorResponse env codec h st err w s)"
  by (auto simp: http_step_def log_simps split: prod.split)
     (metis answered_error fst_conv, metis SendError_more snd_conv)

lemma http_step_call:
  assumes "svc_exec env (api_taskService api) c s0 = (s1, res)" and "log_state.more s0 = log_state.more s"
    and "answered codec w (fst (reply_of c res)) (snd (reply_of c res)) (fst r)"
    and "log_state.more (snd r) = log_state.more s1"
  shows "http_step env codec api (Inr c) w s r"
  using assms by (auto simp: http_step_def split: prod.split)

lemmas sends = answered_error answered_success answered_WriteHeader log_simps

lemma step_ListTasks:
  assumes "rw_status w = None" and "endpoint_of gs (req_Method req) (req_Path req) = ListEP"
  shows "http_step env codec api (call_of (api_responseHandler api) codec gs now req) w s
    (API_ListTasks env codec api req w s)"
proof (cases "parseListQuery (req_Query req)")
  case (Inl e)
  then show ?thesis using assms by (simp add: call_of_def API_ListTasks_def http_step_error)
next
  case q: (Inr q)
  show ?thesis
  proof (cases "Validate (api_responseHandler api) (PQuery q)")
    case (Some e)
    then show ?thesis using assms q by (simp add: call_of_def API_ListTasks_def http_step_error)
  next
    case None
    obtain s1 x where x: "TaskService_List env (api_taskService api) (q_Limit q) (q_Offset q) s = (s1, x)"
      by fastforce
    have "http_step env codec api (Inr (CList (q_Limit q) (q_Offset q))) w s (API_ListTasks env codec api req w s)"
    proof (cases x)
      case (Inl e)
      then show ?thesis
        using x q None assms(1)
        by (intro http_step_call [of _ _ _ s s1 "RErr e"]) (simp_all add: API_ListTasks_def Let_def sends)
    next
      case (Inr p)
      then show ?thesis
        using x q None assms(1)
        by (cases p; intro http_step_call [of _ _ _ s s1 "RPage (fst p) (snd p)"])
           (simp_all add: API_ListTasks_def Let_def sends)
    qed
    then show ?thesis using assms q None by (simp add: call_of_def)
  qed
qed

lemma step_CreateTask:
  assumes "rw_status w = None" and "endpoint_of gs (req_Method req) (req_Path req) = CreateEP"
  shows "http_step env codec api (call_of (api_responseHandler api) codec gs (clock env (tick s)) req) w s
    (API_CreateTask env codec api req w s)"
proof (cases "BindJSON (api_responseHandler api) (json_DecodeCreate codec) PCreate (req_Body req)")
  case (Inl e)
  then show ?thesis using assms by (simp add: call_of_def API_CreateTask_def http_step_error)
next
  case b: (Inr ps)
  let ?t = "NewTask (clock env (tick s)) (c_Name ps) (c_Body ps)" and ?s0 = "s\<lparr>tick := Suc (tick s)\<rparr>"
  obtain s1 x where x: "TaskService_Create env (api_taskService api) ?t ?s0 = (s1, x)" by fastforce
  have "http_step env codec api (Inr (CCreate ?t)) w s (API_CreateTask env codec api req w s)"
  proof (cases x)
    case (Inl e)
    then show ?thesis
      using x b assms(1)
      by (intro http_step_call [of _ _ _ ?s0 s1 "RErr e"])
         (simp_all add: API_CreateTask_def Let_def time_Now_def sends)
  next
    case (Inr i)
    then show ?thesis
      using x b assms(1)
      by (intro http_step_call [of _ _ _ ?s0 s1 "RId i"])
         (simp_all add: API_CreateTask_def Let_def time_Now_def sends)
  qed
  then show ?thesis using assms b by (simp add: call_of_def)
qed

lemma parsePathID_with_id:
  "parsePathID (with_id x req) =
     (if x = [] then Inl (ErrNew ''task id is required'') else ParseUint x)"
  by (auto simp: parsePathID_def with_id_def RequestParams_def Let_def split: sum.splits)

lemma step_GetTask:
  assumes "rw_status w = None" and "endpoint_of gs (req_Method req) (req_Path req) = GetEP x"
  shows "http_step env codec api (call_of (api_responseHandler api) codec gs now req) w s
    (API_GetTask env codec api (with_id x req) w s)"
proof (cases "parsePathID (with_id x req)")
  case (Inl e)
  then show ?thesis
    using assms
    by (auto simp: call_of_def API_GetTask_def path_call_def parsePathID_with_id Let_def http_step_error split: if_splits sum.splits)
next
  case (Inr i)
  then have p: "x \<noteq> []" "ParseUint x = Inr i" by (auto simp: parsePathID_with_id split: if_splits)
  obtain s1 y where y: "TaskService_Get env (api_taskService api) i s = (s1, y)" by fastforce
  have "http_step env codec api (Inr (CGet i)) w s (API_GetTask env codec api (with_id x req) w s)"
    using y Inr assms(1)
    by (intro http_step_call [of _ _ _ s s1 "case y of Inl e \<Rightarrow> RErr e | Inr t \<Rightarrow> RTask t"])
       (auto simp: API_GetTask_def Let_def sends split: sum.splits)
  then show ?thesis using assms p by (simp add: call_of_def path_call_def)
qed

lemma step_UpdateTask:
  assumes "rw_status w = None" and "endpoint_of gs (req_Method req) (req_Path req) = UpdateEP x"
  shows "http_step env codec api (call_of (api_responseHandler api) codec gs now req) w s
    (API_UpdateTask env codec api (with_id x req) w s)"
proof (cases "parsePathID (with_id x req)")
  case (Inl e)
  then show ?thesis
    using assms
    by (auto simp: call_of_def API_UpdateTask_def path_call_def parsePathID_with_id Let_def http_step_error split: if_splits sum.splits)
next
  case (Inr i)
  then have p: "x \<noteq> []" "ParseUint x = Inr i" by (auto simp: parsePathID_with_id split: if_splits)
  have body: "req_Body (with_id x req) = req_Body req" by (simp add: with_id_def)
  show ?thesis
  proof (cases "BindJSON (api_responseHandler api) (json_DecodeUpdate codec) PUpdate (req_Body req)")
    case b: (Inl e)
    then show ?thesis
      using assms p Inr body by (simp add: call_of_def API_UpdateTask_def path_call_def Let_def http_step_error)
  next
    case b: (Inr u)
    let ?p = "\<lparr>param_Name = u_Name u, param_Body = u_Body u, param_Status = u_Status u\<rparr>"
    obtain s1 y where y: "TaskService_Update env (api_taskService api) i ?p s = (s1, y)" by fastforce
    have "http_step env codec api (Inr (CUpdate i ?p)) w s (API_UpdateTask env codec api (with_id x req) w s)"
      using y Inr b body assms(1)
      by (intro http_step_call [of _ _ _ s s1 "case y of Inl e \<Rightarrow> RErr e | Inr t \<Rightarrow> RTask t"])
         (auto simp: API_UpdateTask_def Let_def sends split: sum.splits)
    then show ?thesis using assms p b by (simp add: call_of_def path_call_def)
  qed
qed

lemma step_DeleteTask:
  assumes "rw_status w = None" and "endpoint_of gs (req_Method req) (req_Path req) = DeleteEP x"
  shows "http_step env codec api (call_of (api_responseHandler api) codec gs now req) w s
    (API_DeleteTask env codec api (with_id x req) w s)"
proof (cases "parsePathID (with_id x req)")
  case (Inl e)
  then show ?thesis
    using assms
    by (auto simp: call_of_def API_DeleteTask_def path_call_def parsePathID_with_id Let_def http_step_error split: if_splits sum.splits)
next
  case (Inr i)
  then have p: "x \<noteq> []" "ParseUint x = Inr i" by (auto simp: parsePathID_with_id split: if_splits)
  obtain s1 y where y: "TaskService_Delete env (api_taskService api) i s = (s1, y)" by fastforce
  have "http_step env codec api (Inr (CDelete i)) w s (API_DeleteTask env codec api (with_id x req) w s)"
    using y Inr assms(1)
    by (intro http_step_call [of _ _ _ s s1 "case y of Some e \<Rightarrow> RErr e | None \<Rightarrow> RDone"])
       (auto simp: API_DeleteTask_def Let_def sends split: option.splits)
  then show ?thesis using assms p by (simp add: call_of_def path_call_def)
qed

lemma serve_step:
  assumes "group_ok gs" and "rw_status w = None"
  shows "http_step env codec api (call_of (api_responseHandler api) codec gs (clock env (tick s)) req) w s
    (Router_ServeHTTP (API_InitRoutes env codec api (render gs)) req w s)"
proof (cases "endpoint_of gs (req_Method req) (req_Path req)")
  case NoMethod
  then show ?thesis
    using assms by (simp add: serve_routes call_of_def http_step_def answered_WriteHeader)
next
  case NoPath
  then show ?thesis
    using assms by (simp add: serve_routes call_of_def http_step_def answered_WriteHeader)
qed (simp_all add: serve_routes [OF assms(1)] step_ListTasks [OF assms(2)] step_CreateTask [OF assms(2)]
    step_GetTask [OF assms(2)] step_UpdateTask [OF assms(2)] step_DeleteTask [OF assms(2)])

subsection \<open>Runs of the server\<close>

text \<open>A request on its own connection, broken or not, and a step of the memory monitor.\<close>

datatype 'e http_event = Req request "goerror option" | Mem 'e

definition new_writer :: "goerror option \<Rightarrow> ResponseWriter" where
  "new_writer broken = fresh_writer\<lparr>rw_broken := broken\<rparr>"

fun http_run :: "('r, 'c) world Router \<Rightarrow> ('e \<Rightarrow> 'c \<Rightarrow> 'c) \<Rightarrow> 'e http_event list \<Rightarrow> ('r, 'c) world
    \<Rightarrow> ('r, 'c) world \<times> ResponseWriter list" where
  "http_run rt drop_some [] s = (s, [])"
| "http_run rt drop_some (Req req broken # es) s =
     (case Router_ServeHTTP rt req (new_writer broken) s of (w, s1) \<Rightarrow>
        (case http_run rt drop_some es s1 of (s2, ws) \<Rightarrow> (s2, w # ws)))"
| "http_run rt drop_some (Mem e # es) s =
     http_run rt drop_some es (s\<lparr>w_cache := drop_some e (w_cache s)\<rparr>)"

text \<open>
  The specification of a run: a map of tasks, changed by the calls the requests amount to, with
  the responses that belong to their results. It knows neither cache nor router.
\<close>

inductive http_trace :: "(time \<Rightarrow> time) \<Rightarrow> ResponseHandler \<Rightarrow> json_codec \<Rightarrow> seg list \<Rightarrow> (uint64 \<rightharpoonup> Task)
    \<Rightarrow> 'e http_event list \<Rightarrow> ResponseWriter list \<Rightarrow> (uint64 \<rightharpoonup> Task) \<Rightarrow> bool" for stamp h codec gs where
  idle: "http_trace stamp h codec gs m [] [] m"
| refused: "call_of h codec gs now req = Inl st \<Longrightarrow> answered codec (new_writer broken) st None w \<Longrightarrow>
     http_trace stamp h codec gs m es ws m' \<Longrightarrow>
     http_trace stamp h codec gs m (Req req broken # es) (w # ws) m'"
| served: "call_of h codec gs now req = Inr c \<Longrightarrow> spec_call stamp c m res m1 \<Longrightarrow>
     answered codec (new_writer broken) (fst (reply_of c res)) (snd (reply_of c res)) w \<Longrightarrow>
     http_trace stamp h codec gs m1 es ws m' \<Longrightarrow>
     http_trace stamp h codec gs m (Req req broken # es) (w # ws) m'"
| monitor: "http_trace stamp h codec gs m es ws m' \<Longrightarrow> http_trace stamp h codec gs m (Mem e # es) ws m'"

lemma new_writer_status [simp]: "rw_status (new_writer broken) = None"
  by (simp add: new_writer_def fresh_writer_def)

context task_service
begin

lemma sound_more: "log_state.more s = log_state.more s' \<Longrightarrow> sound s = sound s'"
  using world_more [of s s'] by (simp add: sound_def)

lemma http_step_sound:
  assumes "sound s" and "api_taskService api = NewTaskService l R K"
    and "http_step env codec api ask w s (w', s')"
  shows "sound s'"
    and "case ask of
        Inl st \<Rightarrow> answered codec w st None w' \<and> tasks (w_repo s') = tasks (w_repo s)
      | Inr c \<Rightarrow> \<exists>res. spec_call stamp c (tasks (w_repo s)) res (tasks (w_repo s')) \<and>
          answered codec w (fst (reply_of c res)) (snd (reply_of c res)) w'"
proof -
  have "sound s' \<and> (case ask of
        Inl st \<Rightarrow> answered codec w st None w' \<and> tasks (w_repo s') = tasks (w_repo s)
      | Inr c \<Rightarrow> \<exists>res. spec_call stamp c (tasks (w_repo s)) res (tasks (w_repo s')) \<and>
          answered codec w (fst (reply_of c res)) (snd (reply_of c res)) w')"
  proof (cases ask)
    case (Inl st)
    then have "answered codec w st None w'" "log_state.more s' = log_state.more s"
      using assms(3) by (simp_all add: http_step_def)
    then show ?thesis using Inl assms(1) sound_more [of s' s] world_more(1) [of s' s] by simp
  next
    case (Inr c)
    then obtain s0 s1 res where x: "log_state.more s0 = log_state.more s"
      "svc_exec env (NewTaskService l R K) c s0 = (s1, res)"
      "answered codec w (fst (reply_of c res)) (snd (reply_of c res)) w'"
      "log_state.more s' = log_state.more s1"
      using assms(2,3) by (auto simp: http_step_def)
    have "sound s0" using assms(1) sound_more [OF x(1)] by simp
    then have "sound s1 \<and> spec_call stamp c (tasks (w_repo s0)) res (tasks (w_repo s1))"
      using x(2) by (rule exec_spec)
    moreover have "w_repo s0 = w_repo s" "w_repo s' = w_repo s1"
      using world_more(1) [OF x(1)] world_more(1) [OF x(4)] by simp_all
    ultimately show ?thesis using Inr x(3) sound_more [OF x(4)] by auto
  qed
  then show "sound s'"
    and "case ask of
        Inl st \<Rightarrow> answered codec w st None w' \<and> tasks (w_repo s') = tasks (w_repo s)
      | Inr c \<Rightarrow> \<exists>res. spec_call stamp c (tasks (w_repo s)) res (tasks (w_repo s')) \<and>
          answered codec w (fst (reply_of c res)) (snd (reply_of c res)) w'"
    by blast+
qed

lemma http_run_trace:
  assumes "sound s" and "group_ok gs"
    and "http_run (API_InitRoutes env codec (NewAPI h (NewTaskService l R K)) (render gs)) drop_some es s = (s', ws)"
  shows "sound s' \<and> http_trace stamp h codec gs (tasks (w_repo s)) es ws (tasks (w_repo s'))"
  using assms(1,3)
proof (induction es arbitrary: s ws)
  case Nil
  then show ?case by (simp add: http_trace.idle)
next
  case (Cons e es)
  let ?api = "NewAPI h (NewTaskService l R K)"
  let ?rt = "API_InitRoutes env codec ?api (render gs)"
  show ?case
  proof (cases e)
    case (Req req broken)
    obtain w s1 where w: "Router_ServeHTTP ?rt req (new_writer broken) s = (w, s1)" by fastforce
    obtain ws' where ws: "ws = w # ws'" and run: "http_run ?rt drop_some es s1 = (s', ws')"
      using Cons.prems(2) Req w by (auto split: prod.splits)
    let ?now = "clock env (tick s)"
    have "http_step env codec ?api (call_of h codec gs ?now req) (new_writer broken) s (w, s1)"
      using serve_step [OF assms(2), of "new_writer broken" env codec ?api s req] w by (simp add: NewAPI_def)
    note st = http_step_sound [OF Cons.prems(1) _ this, of l, simplified NewAPI_def, simplified]
    have IH: "sound s' \<and> http_trace stamp h codec gs (tasks (w_repo s1)) es ws' (tasks (w_repo s'))"
      using Cons.IH [OF st(1) run] .
    show ?thesis
    proof (cases "call_of h codec gs ?now req")
      case (Inl c)
      then show ?thesis using st(2) IH ws Req by (auto intro: http_trace.refused)
    next
      case (Inr c)
      then show ?thesis using st(2) IH ws Req by (auto intro: http_trace.served)
    qed
  next
    case (Mem m)
    have "sound (s\<lparr>w_cache := drop_some m (w_cache s)\<rparr>)"
      using Cons.prems(1) cache.drop_inv cache.drop_lookup
      by (auto simp: sound_def intro: coherent_drop)
    then show ?thesis
      using Cons.IH [of "s\<lparr>w_cache := drop_some m (w_cache s)\<rparr>" ws] Cons.prems(2) Mem
      by (auto intro: http_trace.monitor)
  qed
qed

end

context tasks_table
begin

lemma started_http:
  assumes "NewTaskCache conv limit interval (NewTaskRepository db) d = (d', Inr c)" and "group_ok gs"
    and "http_run (API_InitRoutes env codec (NewAPI h (NewTaskService l (NewTaskRepository db) TaskCache_port)) (render gs))
       (\<lambda>ms c. snd (TaskCache_Run ms c)) es \<lparr>tick = n, sent = q, stderr = k, w_repo = d', w_cache = c\<rparr> = (s', ws)"
  shows "http_trace stamp h codec gs (tasks_of (tbl d)) es ws (tasks_of (tbl (w_repo s')))"
  using svc.http_run_trace [OF started_sound(1) [OF assms(1)] assms(2,3)] started_sound(2) [OF assms(1)]
  by simp

end

subsection \<open>A sample server\<close>

text \<open>A stand-in for the encoder and the decoder, and some requests.\<close>

definition sample_codec :: json_codec where
  "sample_codec =
     \<lparr>json_Marshal = (\<lambda>b. Inr (case b of
          BException x \<Rightarrow> x_ErrorMessage x
        | BList l \<Rightarrow> show_nat (length (l_Items l))
        | BTask t \<Rightarrow> r_Name t @ '' '' @ r_Status t
        | BCreated c \<Rightarrow> show_uint64 (c_ID c))),
      json_DecodeCreate = (\<lambda>b. if body_bytes b = [] then Inl (ExtError ''EOF'')
        else Inr \<lparr>c_Name = body_bytes b, c_Body = ''b''\<rparr>),
      json_DecodeUpdate = (\<lambda>b. Inr \<lparr>u_Name = None, u_Body = None, u_Status = Some (body_bytes b)\<rparr>)\<rparr>"

definition sample_handler :: ResponseHandler where
  "sample_handler = NewResponseHandler sample_logger [WithValidation (\<lambda>_. None)]"

definition sample_api :: "(pg, TaskCache) API" where
  "sample_api = NewAPI sample_handler (NewTaskService sample_logger (NewTaskRepository pg_db) TaskCache_port)"

definition sample_group :: "seg list" where
  "sample_group = [Lit ''api'']"

definition sample_req :: "string \<Rightarrow> string \<Rightarrow> string \<Rightarrow> monitor_event list http_event" where
  "sample_req m path bs =
     Req \<lparr>req_Method = m, req_Path = path, req_Query = [], req_Header = [], req_RemoteAddr = [],
       req_Body = \<lparr>body_bytes = bs, body_max = None\<rparr>, req_Params = None\<rparr> None"

definition sample_server_run :: "monitor_event list http_event list
    \<Rightarrow> (pg, TaskCache) world \<times> ResponseWriter list" where
  "sample_server_run es =
     http_run (API_InitRoutes sample_env sample_codec sample_api (render sample_group))
       (\<lambda>ms c. snd (TaskCache_Run ms c)) es
       \<lparr>tick = 0, sent = [], stderr = empty_sink, w_repo = pg_empty, w_cache = sample_cache\<rparr>"

definition sample_requests :: "monitor_event list http_event list" where
  "sample_requests =
     [sample_req ''POST'' ''/api/tasks'' ''x'', sample_req ''PATCH'' ''/api/tasks/1'' ''COMPLETE'',
      Mem [Tick (2 ^ 40)], sample_req ''DELETE'' ''/api/tasks/one'' []]"

subsection \<open>Properties\<close>

text \<open>
  C16. The routing table of the service, for every request: GET and POST on exactly
  \<open>group/tasks\<close> list and create; GET, PATCH and DELETE on a path whose segments are those of the
  group, \<open>tasks\<close> and one more, get, update and delete, with that segment as the id; another method
  on these paths is answered 405 and every other path 404, without touching the server state.
\<close>
theorem api_routing_table:
  assumes "group_ok gs"
  shows "Router_ServeHTTP (API_InitRoutes env codec api (render gs)) req w s =
     (case endpoint_of gs (req_Method req) (req_Path req) of
        ListEP \<Rightarrow> API_ListTasks env codec api req w s
      | CreateEP \<Rightarrow> API_CreateTask env codec api req w s
      | GetEP x \<Rightarrow> API_GetTask env codec api (with_id x req) w s
      | UpdateEP x \<Rightarrow> API_UpdateTask env codec api (with_id x req) w s
      | DeleteEP x \<Rightarrow> API_DeleteTask env codec api (with_id x req) w s
      | NoMethod \<Rightarrow> (WriteHeader StatusMethodNotAllowed w, s)
      | NoPath \<Rightarrow> (WriteHeader StatusNotFound w, s))"
  using assms by (rule serve_routes)

theorem api_routing_table_witness:
  "let req = \<lparr>req_Method = ''GET'', req_Path = ''/api/tasks/7/'', req_Query = [], req_Header = [],
       req_RemoteAddr = [], req_Body = \<lparr>body_bytes = [], body_max = None\<rparr>, req_Params = None\<rparr>
   in Router_ServeHTTP (API_InitRoutes sample_env sample_codec sample_api (render sample_group)) req =
        API_GetTask sample_env sample_codec sample_api (with_id ''7'' req)"
proof -
  have "group_ok sample_group" by (simp add: group_ok_def sample_group_def plain_def)
  moreover have "endpoint_of sample_group ''GET'' ''/api/tasks/7/'' = GetEP ''7''" by code_simp
  ultimately show ?thesis
    using api_routing_table [of sample_group sample_env sample_codec sample_api]
    by (simp add: Let_def fun_eq_iff)
qed



end
