(* ===== verification/Utf8.thy ===== *)
theory Utf8
  imports Go_Std
begin

text \<open>
  The parts of package \<open>unicode/utf8\<close> the program relies on, through the validation rules (the length of
  a string in characters) and through the JSON encoder and decoder: the length of a string in
  characters, the replacement of invalid bytes, and the encoding of a character.
\<close>

subsection \<open>Characters of a string\<close>

text \<open>
  The table of first bytes and the range of the second byte, as package \<open>unicode/utf8\<close> has them: no
  overlong encodings, no surrogates, nothing above \<open>U+10FFFF\<close>.
\<close>

definition first_width :: "nat \<Rightarrow> nat" where
  "first_width b =
     (if b < 0x80 then 1 else if b < 0xC2 then 0 else if b < 0xE0 then 2 else if b < 0xF0 then 3
      else if b < 0xF5 then 4 else 0)"

definition second_ok :: "nat \<Rightarrow> nat \<Rightarrow> bool" where
  "second_ok b c =
     ((if b = 0xE0 then 0xA0 else if b = 0xF0 then 0x90 else 0x80) \<le> c \<and>
      c \<le> (if b = 0xED then 0x9F else if b = 0xF4 then 0x8F else 0xBF))"

definition rune_width :: "nat \<Rightarrow> nat list \<Rightarrow> nat" where
  "rune_width b cs =
     (let n = first_width b - 1
      in if 0 < n \<and> n \<le> length cs \<and> second_ok b (hd cs) \<and>
            list_all (\<lambda>c. 0x80 \<le> c \<and> c \<le> 0xBF) (take (n - 1) (tl cs))
         then n else 0)"

text \<open>\<open>rune_width\<close> is the number of bytes after the first. A well-formed encoding counts once, any other byte by itself.\<close>

fun count_runes :: "nat list \<Rightarrow> nat" where
  "count_runes [] = 0"
| "count_runes (b # cs) = Suc (count_runes (drop (rune_width b cs) cs))"

definition RuneCountInString :: "string \<Rightarrow> nat" where
  "RuneCountInString s = count_runes (map of_char s)"

subsection \<open>Lemmas on lengths\<close>

lemma rune_width_le: "rune_width b cs \<le> 3"
  by (simp add: rune_width_def first_width_def Let_def)

lemma count_runes_bounds: "count_runes bs \<le> length bs \<and> length bs \<le> 4 * count_runes bs"
proof (induction bs rule: count_runes.induct)
  case (2 b cs)
  then show ?case using rune_width_le [of b cs] by auto
qed simp

lemma RuneCount_bounds: "RuneCountInString s \<le> length s" "length s \<le> 4 * RuneCountInString s"
  using count_runes_bounds [of "map of_char s"] by (simp_all add: RuneCountInString_def)

lemma count_runes_ascii: "list_all (\<lambda>b. b < 0x80) bs \<Longrightarrow> count_runes bs = length bs"
proof (induction bs)
  case (Cons b bs)
  then show ?case by (simp add: rune_width_def first_width_def)
qed simp

subsection \<open>Invalid bytes\<close>

text \<open>The number of bytes that follow the byte \<open>c\<close> in a well-formed encoding; only three are looked at.\<close>

definition cont_len :: "char \<Rightarrow> string \<Rightarrow> nat" where
  "cont_len c s = rune_width (of_char c) (map of_char (take 3 s))"

definition is_ascii :: "char \<Rightarrow> bool" where
  "is_ascii c = (of_char c < (0x80 :: nat))"

text \<open>\<open>U+FFFD\<close>, which stands for a byte that is part of no character.\<close>

definition replacement :: string where
  "replacement = [CHR 0xEF, CHR 0xBF, CHR 0xBD]"

fun to_valid :: "string \<Rightarrow> string" where
  "to_valid [] = []"
| "to_valid (c # s) =
     (if is_ascii c then c # to_valid s
      else if cont_len c s = 0 then replacement @ to_valid s
      else c # take (cont_len c s) s @ to_valid (drop (cont_len c s) s))"

fun valid_utf8 :: "string \<Rightarrow> bool" where
  "valid_utf8 [] = True"
| "valid_utf8 (c # s) =
     (if is_ascii c then valid_utf8 s
      else cont_len c s \<noteq> 0 \<and> valid_utf8 (drop (cont_len c s) s))"

lemma to_valid_id: "valid_utf8 s \<Longrightarrow> to_valid s = s"
  by (induction s rule: valid_utf8.induct) (auto split: if_splits)

lemma cont_len_le: "cont_len c s \<le> 3" "cont_len c s \<le> length s"
  using rune_width_le [of "of_char c" "map of_char (take 3 s)"]
  by (auto simp: cont_len_def rune_width_def first_width_def Let_def)

text \<open>Only the bytes of the encoding itself matter.\<close>

lemma rune_width_append: "0 < rune_width b cs \<Longrightarrow> rune_width b (take (rune_width b cs) cs @ ds) = rune_width b cs"
  by (cases cs) (auto simp: rune_width_def Let_def take_Cons' split: if_splits)

lemma rune_width_take3: "rune_width b (take 3 cs) = rune_width b cs"
  by (cases cs) (auto simp: rune_width_def first_width_def Let_def split: if_splits)

lemma cont_len_width: "cont_len c s = rune_width (of_char c) (map of_char s)"
  by (simp add: cont_len_def rune_width_take3 flip: take_map)

lemma cont_len_append: "0 < cont_len c s \<Longrightarrow> cont_len c (take (cont_len c s) s @ t) = cont_len c s"
  using rune_width_append [of "of_char c" "map of_char s" "map of_char t"]
  by (simp add: cont_len_width take_map)

end
