(* ===== verification/Validation.thy ===== *)
theory Validation
  imports Task_API Utf8
begin

text \<open>
  The rules on requests: the \<open>validate\<close> tags of \<open>internal/server/dto/dto.go\<close>. The package that reads the
  tags (\<open>github.com/go-playground/validator\<close>) is not part of the repository; the locale \<open>tag_validator\<close>
  states what its documentation promises, that a value passes if and only if every tag of every field
  holds, and \<open>check_tags\<close> is a function that does. The theorems show what passing means for the program:
  only well-formed tasks reach the table, and no page is longer than 500 tasks.
\<close>

subsection \<open>The tags\<close>

definition len_between :: "nat \<Rightarrow> nat \<Rightarrow> string \<Rightarrow> bool" where
  "len_between lo hi s = (lo \<le> RuneCountInString s \<and> RuneCountInString s \<le> hi)"

definition valid_ListTasksQuery :: "ListTasksQuery \<Rightarrow> bool" where
  "valid_ListTasksQuery q = (1 \<le> q_Limit q \<and> q_Limit q \<le> 500 \<and> 0 \<le> q_Offset q)"

definition valid_CreateTaskRequest :: "CreateTaskRequest \<Rightarrow> bool" where
  "valid_CreateTaskRequest r =
     (c_Name r \<noteq> [] \<and> len_between 1 255 (c_Name r) \<and> c_Body r \<noteq> [] \<and> len_between 1 10000 (c_Body r))"

definition valid_UpdateTaskRequest :: "UpdateTaskRequest \<Rightarrow> bool" where
  "valid_UpdateTaskRequest r =
     (pred_option (len_between 1 255) (u_Name r) \<and> pred_option (len_between 1 10000) (u_Body r) \<and>
      pred_option (\<lambda>s. s \<in> set [''NEW'', ''IN_PROCESS'', ''PAUSE'', ''COMPLETE'', ''CANCEL'']) (u_Status r))"

fun valid_params :: "params \<Rightarrow> bool" where
  "valid_params (PQuery q) = valid_ListTasksQuery q"
| "valid_params (PCreate r) = valid_CreateTaskRequest r"
| "valid_params (PUpdate r) = valid_UpdateTaskRequest r"

subsection \<open>The validation package\<close>

locale tag_validator =
  fixes v :: validator
  assumes accepts: "v p = None \<longleftrightarrow> valid_params p"

text \<open>
  A validator of this kind: the first tag that fails of each field is reported, in the order of the
  fields.
\<close>

definition failed_tag :: "string \<Rightarrow> (string \<times> string \<times> bool) list \<Rightarrow> field_error list" where
  "failed_tag f tags =
     (case find (\<lambda>(tag, p, ok). \<not> ok) tags of
        None \<Rightarrow> [] | Some (tag, p, ok) \<Rightarrow> [\<lparr>fe_Field = f, fe_Tag = tag, fe_Param = p\<rparr>])"

definition len_tags :: "string \<Rightarrow> nat \<Rightarrow> string \<Rightarrow> (string \<times> string \<times> bool) list" where
  "len_tags p hi s = [(''min'', ''1'', 1 \<le> RuneCountInString s), (''max'', p, RuneCountInString s \<le> hi)]"

fun check_fields :: "params \<Rightarrow> field_error list" where
  "check_fields (PQuery q) =
     failed_tag ''Limit'' [(''min'', ''1'', 1 \<le> q_Limit q), (''max'', ''500'', q_Limit q \<le> 500)] @
     failed_tag ''Offset'' [(''gte'', ''0'', 0 \<le> q_Offset q)]"
| "check_fields (PCreate r) =
     failed_tag ''Name'' ((''required'', [], c_Name r \<noteq> []) # len_tags ''255'' 255 (c_Name r)) @
     failed_tag ''Body'' ((''required'', [], c_Body r \<noteq> []) # len_tags ''10000'' 10000 (c_Body r))"
| "check_fields (PUpdate r) =
     (case u_Name r of None \<Rightarrow> [] | Some s \<Rightarrow> failed_tag ''Name'' (len_tags ''255'' 255 s)) @
     (case u_Body r of None \<Rightarrow> [] | Some s \<Rightarrow> failed_tag ''Body'' (len_tags ''10000'' 10000 s)) @
     (case u_Status r of None \<Rightarrow> []
      | Some s \<Rightarrow> failed_tag ''Status'' [(''oneof'', ''NEW IN_PROCESS PAUSE COMPLETE CANCEL'',
          s \<in> set [''NEW'', ''IN_PROCESS'', ''PAUSE'', ''COMPLETE'', ''CANCEL''])])"

definition check_tags :: validator where
  "check_tags p = (if check_fields p = [] then None else Some (ValidationErrors (check_fields p)))"

lemma failed_tag_Nil: "failed_tag f tags = [] \<longleftrightarrow> list_all (\<lambda>(tag, p, ok). ok) tags"
  unfolding failed_tag_def by (induction tags) (simp_all split: prod.splits)

lemma check_fields_Nil: "check_fields p = [] \<longleftrightarrow> valid_params p"
proof (cases p)
  case (PQuery q)
  then show ?thesis by (simp add: failed_tag_Nil valid_ListTasksQuery_def)
next
  case (PCreate r)
  then show ?thesis
    by (simp add: failed_tag_Nil len_tags_def valid_CreateTaskRequest_def len_between_def)
next
  case (PUpdate r)
  then show ?thesis
    by (simp add: failed_tag_Nil len_tags_def valid_UpdateTaskRequest_def len_between_def split: option.splits)
qed

interpretation tags: tag_validator check_tags
  by unfold_locales (simp add: check_tags_def check_fields_Nil)

subsection \<open>Well-formed tasks\<close>

definition valid_task :: "Task \<Rightarrow> bool" where
  "valid_task t = (len_between 1 255 (Name t) \<and> len_between 1 10000 (Body t) \<and> IsValid (Status t))"

definition valid_tasks :: "(uint64 \<rightharpoonup> Task) \<Rightarrow> bool" where
  "valid_tasks m = (\<forall>i t. m i = Some t \<longrightarrow> valid_task t)"

lemma valid_tasks_upd: "valid_tasks m \<Longrightarrow> valid_task t \<Longrightarrow> valid_tasks (m(i \<mapsto> t))"
  by (simp add: valid_tasks_def)

lemma valid_tasks_del: "valid_tasks m \<Longrightarrow> valid_tasks (m(i := None))"
  by (simp add: valid_tasks_def)

lemma valid_stored: "valid_task (stored stamp t) = valid_task t"
  by (simp add: valid_task_def stored_def)

text \<open>What a call may carry when its request has been validated.\<close>

fun valid_call :: "svc_call \<Rightarrow> bool" where
  "valid_call (CCreate t) = valid_task t"
| "valid_call (CUpdate i p) = (pred_option (len_between 1 255) (param_Name p) \<and> pred_option (len_between 1 10000) (param_Body p))"
| "valid_call (CList l off) = (1 \<le> l \<and> l \<le> 500)"
| "valid_call _ = True"

lemma apply_params_valid:
  assumes "apply_params p t = Inr t'" and "valid_task t" and "valid_call (CUpdate i p)"
  shows "valid_task t'"
  using assms by (auto simp: apply_params_def valid_task_def Let_def split: option.splits if_splits)

lemma spec_call_valid:
  "spec_call stamp c m res m' \<Longrightarrow> valid_tasks m \<Longrightarrow> valid_call c \<Longrightarrow> valid_tasks m'"
proof (induction rule: spec_call.induct)
  case (created m i t)
  then show ?case by (intro valid_tasks_upd) (simp_all add: valid_stored, simp add: valid_task_def)
next
  case (updated m i t0 p t1 t now)
  have "valid_task t0" using updated by (simp add: valid_tasks_def)
  then have "valid_task t1" using apply_params_valid updated by blast
  then show ?case using updated by (intro valid_tasks_upd) (simp_all add: valid_stored, simp add: valid_task_def)
qed (simp_all add: valid_tasks_del)

context tag_validator
begin

lemma BindJSON_valid:
  "rh_validator h = Some v \<Longrightarrow> BindJSON h decode wrap b = Inr x \<Longrightarrow> valid_params (wrap x)"
  using accepts by (auto simp: BindJSON_def split: sum.splits option.splits)

lemma Validate_valid: "rh_validator h = Some v \<Longrightarrow> Validate h p = None \<Longrightarrow> valid_params p"
  using accepts by (simp add: Validate_def)

lemma call_of_valid:
  assumes h: "rh_validator h = Some v" and "call_of h codec gs now req = Inr c"
  shows "valid_call c"
proof (cases "endpoint_of gs (req_Method req) (req_Path req)")
  case ListEP
  then obtain q where q: "Validate h (PQuery q) = None" "c = CList (q_Limit q) (q_Offset q)"
    using assms by (auto simp: call_of_def split: sum.splits if_splits)
  then show ?thesis using Validate_valid [OF h q(1)] by (simp add: valid_ListTasksQuery_def)
next
  case CreateEP
  then obtain r where r: "BindJSON h (json_DecodeCreate codec) PCreate (req_Body req) = Inr r"
    "c = CCreate (NewTask now (c_Name r) (c_Body r))"
    using assms by (auto simp: call_of_def split: sum.splits)
  then show ?thesis
    using BindJSON_valid [OF h r(1)]
    by (simp add: valid_CreateTaskRequest_def valid_task_def NewTask_def IsValid_def)
next
  case (UpdateEP x)
  then obtain i r where r: "BindJSON h (json_DecodeUpdate codec) PUpdate (req_Body req) = Inr r"
    "c = CUpdate i \<lparr>param_Name = u_Name r, param_Body = u_Body r, param_Status = u_Status r\<rparr>"
    using assms by (auto simp: call_of_def path_call_def split: sum.splits if_splits)
  then show ?thesis
    using BindJSON_valid [OF h r(1)] by (simp add: valid_UpdateTaskRequest_def)
qed (use assms in \<open>auto simp: call_of_def path_call_def split: sum.splits if_splits\<close>)

end

subsection \<open>The size of a well-formed task\<close>

lemma valid_task_bytes:
  assumes "valid_task t"
  shows "task_bytes t \<le> 41142"
proof -
  have "length (Name t) \<le> 4 * 255" "length (Body t) \<le> 4 * 10000"
    using assms RuneCount_bounds(2) [of "Name t"] RuneCount_bounds(2) [of "Body t"]
    by (auto simp: valid_task_def len_between_def)
  moreover have "length (Status t) \<le> 10"
    using assms by (auto simp: valid_task_def IsValid_def status_defs)
  ultimately show ?thesis by (simp add: task_bytes_def)
qed

lemma valid_task_Size: "valid_task t \<Longrightarrow> unat (Size t) = task_bytes t \<and> Size t \<le> 41142"
  using valid_task_bytes [of t] unat_Size [of t] by (simp add: word_le_nat_alt)

subsection \<open>Pages\<close>

context tasks_table
begin

lemma List_page:
  assumes "TaskService_List env (NewTaskService l (NewTaskRepository db) K) lm off w = (w', Inr (ts, n))"
  shows "ts = selected (page_filter lm off) (tasks_of (tbl (w_repo w)))"
    and "unat n = card (dom (tasks_of (tbl (w_repo w))))"
proof -
  let ?R = "NewTaskRepository db" and ?f = "page_filter lm off"
  obtain r y where y: "repo_Count ?R (w_repo w) (Some ?f) = (r, y)" by fastforce
  then obtain m where m: "y = Inr m"
    using assms by (cases y) (simp_all add: TaskService_List_def NewTaskService_def page_filter_def)
  obtain r' z where z: "repo_List ?R r (Some ?f) = (r', z)" by fastforce
  then have "z = Inr ts" "m = n"
    using assms y m
    by (cases z; simp add: TaskService_List_def NewTaskService_def page_filter_def)+
  then show "ts = selected ?f (tasks_of (tbl (w_repo w)))" "unat n = card (dom (tasks_of (tbl (w_repo w))))"
    using repo.Count_ok [of "w_repo w" ?f r m] repo.List_ok [of r ?f r' ts] y z m
    by (simp_all add: page_filter_def)
qed

end

lemma error_not_ok:
  "st \<noteq> StatusOK \<Longrightarrow> rw_status (fst (SendErrorResponse env codec h st e (new_writer b) u)) \<noteq> Some StatusOK"
  using answered_error [of "new_writer b" codec st env h e u] by (auto simp: answered_def status_codes)

text \<open>The handler answers 200 only at the end of its last branch.\<close>

lemma ListTasks_ok:
  assumes "API_ListTasks env codec api req (new_writer None) s = (w', s')" and "rw_status w' = Some StatusOK"
  obtains q s1 ts n where "parseListQuery (req_Query req) = Inr q"
    and "Validate (api_responseHandler api) (PQuery q) = None"
    and "TaskService_List env (api_taskService api) (q_Limit q) (q_Offset q) s = (s1, Inr (ts, n))"
    and "json_Marshal codec (BList \<lparr>l_Items = map taskFromDomain ts, l_Total = n, l_Limit = q_Limit q, l_Offset = q_Offset q\<rparr>)
      = Inr (rw_body w')"
proof -
  let ?h = "api_responseHandler api" and ?w = "new_writer None"
  note run = assms(1) [unfolded API_ListTasks_def Let_def]
  have bad: "SendErrorResponse env codec ?h st e ?w u \<noteq> (w', s')"
    if "st = StatusBadRequest \<or> st = StatusInternalServerError" for st e u
    using error_not_ok [of st env codec ?h e None u] that assms(2) by (auto simp: status_codes)
  obtain q where q: "parseListQuery (req_Query req) = Inr q"
    using run bad by (cases "parseListQuery (req_Query req)") simp_all
  have none: "Validate ?h (PQuery q) = None"
    using run bad q by (cases "Validate ?h (PQuery q)") simp_all
  obtain s1 x where x: "TaskService_List env (api_taskService api) (q_Limit q) (q_Offset q) s = (s1, x)" by fastforce
  obtain ts n where ts: "x = Inr (ts, n)"
    using run bad q none x by (cases x) auto
  let ?b = "BList \<lparr>l_Items = map taskFromDomain ts, l_Total = n, l_Limit = q_Limit q, l_Offset = q_Offset q\<rparr>"
  have send: "SendSuccessResponse env codec ?h StatusOK ?b ?w s1 = (w', s')" using run q none x ts by simp
  obtain bs where bs: "json_Marshal codec ?b = Inr bs"
  proof (cases "json_Marshal codec ?b")
    case (Inl e)
    then have "rw_status w' = Some StatusInternalServerError"
      using send_marshal_error_status [of ?w "''SendSuccessResponse: marshal''" env ?h e s1] send
      by (simp add: SendSuccessResponse_def)
    then show ?thesis using assms(2) by (simp add: status_codes)
  qed (use that in blast)
  moreover have "rw_body w' = bs"
    using send bs by (auto simp: SendSuccessResponse_def send_body_body new_writer_def fresh_writer_def)
  ultimately show ?thesis using that q none x ts by simp
qed

subsection \<open>Properties\<close>

text \<open>
  C34. A page of tasks is bounded and is what was asked for: when the list handler answers 200, the
  query is well formed with a limit from 1 to 500 (50 if it names none), and the body is the encoding
  of at most that many tasks: those of the table, in ascending order of id, that follow the first
  \<open>offset\<close>, with the number of all tasks as the total.
\<close>
theorem list_answer_bounded:
  assumes "tasks_table db tbl stamp" and "tag_validator v" and "rh_validator h = Some v"
    and "API_ListTasks env codec (NewAPI h (NewTaskService l (NewTaskRepository db) K)) req (new_writer None) s = (w', s')"
    and "rw_status w' = Some StatusOK"
  shows "\<exists>q ts n. parseListQuery (req_Query req) = Inr q \<and> 1 \<le> q_Limit q \<and> q_Limit q \<le> 500 \<and>
    ts = take (unat (q_Limit q)) (drop (unat (q_Offset q)) (tasks_asc (tasks_of (tbl (w_repo s))))) \<and>
    length ts \<le> 500 \<and> unat n = card (dom (tasks_of (tbl (w_repo s)))) \<and>
    json_Marshal codec (BList \<lparr>l_Items = map taskFromDomain ts, l_Total = n, l_Limit = q_Limit q, l_Offset = q_Offset q\<rparr>)
      = Inr (rw_body w')"
proof -
  obtain q s1 ts n where q: "parseListQuery (req_Query req) = Inr q" "Validate h (PQuery q) = None"
    and run: "TaskService_List env (NewTaskService l (NewTaskRepository db) K) (q_Limit q) (q_Offset q) s = (s1, Inr (ts, n))"
    and body: "json_Marshal codec (BList \<lparr>l_Items = map taskFromDomain ts, l_Total = n, l_Limit = q_Limit q, l_Offset = q_Offset q\<rparr>)
      = Inr (rw_body w')"
    using ListTasks_ok [OF assms(4,5)] unfolding NewAPI_def API.select_convs by blast
  have lim: "1 \<le> q_Limit q" "q_Limit q \<le> 500"
    using tag_validator.Validate_valid [OF assms(2,3) q(2)] by (simp_all add: valid_ListTasksQuery_def)
  then have "0 < q_Limit q" by (simp add: word_le_nat_alt word_less_nat_alt)
  then have "ts = take (unat (q_Limit q)) (drop (unat (q_Offset q)) (tasks_asc (tasks_of (tbl (w_repo s)))))"
    using tasks_table.List_page(1) [OF assms(1) run]
    by (simp add: selected_def page_filter_def page_def effective_limit_def SortAsc_def SortDesc_def)
  moreover from this have "length ts \<le> 500" using lim(2) by (simp add: word_le_nat_alt)
  ultimately show ?thesis
    using q lim body tasks_table.List_page(2) [OF assms(1) run] by blast
qed

theorem list_answer_bounded_witness:
  "let w = \<lparr>tick = 0, sent = [], stderr = empty_sink, w_repo = paused_table, w_cache = paused_cache\<rparr>;
       req = \<lparr>req_Method = ''GET'', req_Path = ''/api/tasks'', req_Query = [(''limit'', [''2''])], req_Header = [],
         req_RemoteAddr = [], req_Body = \<lparr>body_bytes = [], body_max = None\<rparr>, req_Params = None\<rparr>;
       h = NewResponseHandler sample_logger [WithValidation check_tags];
       w' = fst (API_ListTasks sample_env sample_codec
         (NewAPI h (NewTaskService sample_logger (NewTaskRepository pg_db) TaskCache_port)) req (new_writer None) w)
   in rw_body w' = ''1'' \<and>
      (\<exists>q ts n. parseListQuery (req_Query req) = Inr q \<and> 1 \<le> q_Limit q \<and> q_Limit q \<le> 500 \<and>
         ts = take (unat (q_Limit q)) (drop (unat (q_Offset q)) (tasks_asc (tasks_of (pg_tbl paused_table)))) \<and>
         length ts \<le> 500 \<and> unat n = card (dom (tasks_of (pg_tbl paused_table))) \<and>
         json_Marshal sample_codec (BList \<lparr>l_Items = map taskFromDomain ts, l_Total = n, l_Limit = q_Limit q,
           l_Offset = q_Offset q\<rparr>) = Inr (rw_body w'))"
proof -
  let ?w = "\<lparr>tick = 0, sent = [], stderr = empty_sink, w_repo = paused_table, w_cache = paused_cache\<rparr>"
  let ?req = "\<lparr>req_Method = ''GET'', req_Path = ''/api/tasks'', req_Query = [(''limit'', [''2''])], req_Header = [],
         req_RemoteAddr = [], req_Body = \<lparr>body_bytes = [], body_max = None\<rparr>, req_Params = None\<rparr>"
  let ?h = "NewResponseHandler sample_logger [WithValidation check_tags]"
  let ?run = "API_ListTasks sample_env sample_codec
         (NewAPI ?h (NewTaskService sample_logger (NewTaskRepository pg_db) TaskCache_port)) ?req (new_writer None) ?w"
  have "rw_body (fst ?run) = ''1''" "rw_status (fst ?run) = Some StatusOK" by code_simp+
  moreover have "rh_validator ?h = Some check_tags" by (simp add: NewResponseHandler_def WithValidation_def)
  ultimately show ?thesis
    using list_answer_bounded [OF pg.tasks_table_axioms tags.tag_validator_axioms, of ?h sample_env sample_codec sample_logger
        TaskCache_port ?req ?w "fst ?run" "snd ?run"]
    by (simp add: Let_def)
qed

end
