(* ===== verification/Http_Middleware.thy ===== *)
theory Http_Middleware
  imports Complex_Main Http_Router Logging
begin

text \<open>
  The middlewares of \<open>pkg/http/middleware\<close>: the per-client rate limiter with its table of buckets
  and its garbage collector, and the limit on request bodies. The token bucket itself is the
  third-party package \<open>golang.org/x/time/rate\<close>: it is the argument \<open>pkg\<close>, and the locale
  \<open>token_bucket\<close> states the documented behaviour the bound on admitted requests rests on, which a
  reference bucket satisfies. A rate is a rational number (a finite \<open>float64\<close>).
\<close>

subsection \<open>Body limit\<close>

definition MaxBodyBytes :: "int \<Rightarrow> 's handler \<Rightarrow> 's handler" where
  "MaxBodyBytes limit next_handler =
     (if limit \<le> 0 then next_handler
      else (\<lambda>r w s. next_handler (r\<lparr>req_Body := MaxBytesReader limit (req_Body r)\<rparr>) w s))"

subsection \<open>Client addresses\<close>

definition is_blank :: "char \<Rightarrow> bool" where
  "is_blank c = (c = CHR '' '' \<or> c = CHR 0x09)"

fun trim_left :: "string \<Rightarrow> string" where
  "trim_left [] = []"
| "trim_left (c # cs) = (if is_blank c then trim_left cs else c # cs)"

text \<open>The two loops of \<open>trimSpace\<close>: from the front, then from the back.\<close>

definition trimSpace :: "string \<Rightarrow> string" where
  "trimSpace s = rev (trim_left (rev (trim_left s)))"

text \<open>\<open>bytealg.IndexByteString\<close> and \<open>LastIndexByteString\<close>.\<close>

fun IndexByte :: "string \<Rightarrow> char \<Rightarrow> nat option" where
  "IndexByte [] c = None"
| "IndexByte (x # xs) c = (if x = c then Some 0 else map_option Suc (IndexByte xs c))"

definition LastIndexByte :: "string \<Rightarrow> char \<Rightarrow> nat option" where
  "LastIndexByte s c = map_option (\<lambda>k. length s - 1 - k) (IndexByte (rev s) c)"

text \<open>\<open>net.SplitHostPort\<close>; its callers only ask whether it failed.\<close>

definition SplitHostPort :: "string \<Rightarrow> (string \<times> string) option" where
  "SplitHostPort hostport =
     (case LastIndexByte hostport (CHR '':'') of
        None \<Rightarrow> None
      | Some i \<Rightarrow>
          (case (if hostport ! 0 = CHR ''[''
                 then (case IndexByte hostport (CHR '']'') of
                         None \<Rightarrow> None
                       | Some e \<Rightarrow>
                           if e + 1 = length hostport then None
                           else if e + 1 = i then Some (take (e - 1) (drop 1 hostport), 1, e + 1)
                           else None)
                 else (let host = take i hostport
                       in if IndexByte host (CHR '':'') \<noteq> None then None else Some (host, 0, 0))) of
             None \<Rightarrow> None
           | Some (host, j, k) \<Rightarrow>
               if IndexByte (drop j hostport) (CHR ''['') \<noteq> None then None
               else if IndexByte (drop k hostport) (CHR '']'') \<noteq> None then None
               else Some (host, drop (i + 1) hostport)))"

definition clientIP :: "request \<Rightarrow> string" where
  "clientIP r =
     (let xff = first_value (req_Header r) ''X-Forwarded-For''
      in if xff \<noteq> []
         then (case IndexByte xff (CHR '','') of
                 Some i \<Rightarrow> trimSpace (take i xff)
               | None \<Rightarrow> trimSpace xff)
         else (case SplitHostPort (req_RemoteAddr r) of
                 None \<Rightarrow> req_RemoteAddr r
               | Some (host, _) \<Rightarrow> host))"

subsection \<open>The rate limiter\<close>

record IPRateLimitConfig =
  Rate :: rat
  Burst :: int
  TTL :: duration

record 'l rate_pkg =
  NewLimiter :: "rat \<Rightarrow> int \<Rightarrow> 'l"
  Allow :: "time \<Rightarrow> 'l \<Rightarrow> 'l \<times> bool"

record 'l ipBucket =
  bucket_limiter :: 'l
  lastSeen :: time

record 'l ipLimiterStore =
  buckets :: "(string \<times> 'l ipBucket) list"
  store_rate :: rat
  store_burst :: int
  store_ttl :: duration

definition limiter_get :: "'l rate_pkg \<Rightarrow> string \<Rightarrow> time \<Rightarrow> 'l ipLimiterStore
    \<Rightarrow> 'l ipLimiterStore \<times> 'l" where
  "limiter_get pkg ip now s =
     (let l = (case map_of (buckets s) ip of
                 Some b \<Rightarrow> bucket_limiter b
               | None \<Rightarrow> NewLimiter pkg (store_rate s) (store_burst s))
      in (s\<lparr>buckets := AList.update ip \<lparr>bucket_limiter = l, lastSeen = now\<rparr> (buckets s)\<rparr>, l))"

text \<open>One tick of the collector's ticker.\<close>

definition limiter_gc :: "time \<Rightarrow> 'l ipLimiterStore \<Rightarrow> 'l ipLimiterStore" where
  "limiter_gc now s =
     (let cutoff_time = now - store_ttl s
      in s\<lparr>buckets := filter (\<lambda>(ip, b). \<not> lastSeen b < cutoff_time) (buckets s)\<rparr>)"

text \<open>\<open>Allow\<close> on the limiter the table points to.\<close>

definition limiter_put :: "string \<Rightarrow> 'l \<Rightarrow> 'l ipLimiterStore \<Rightarrow> 'l ipLimiterStore" where
  "limiter_put ip l s =
     s\<lparr>buckets := map (\<lambda>(k, b). (k, if k = ip then b\<lparr>bucket_limiter := l\<rparr> else b)) (buckets s)\<rparr>"

definition limiter_hit :: "'l rate_pkg \<Rightarrow> string \<Rightarrow> time \<Rightarrow> time \<Rightarrow> 'l ipLimiterStore
    \<Rightarrow> 'l ipLimiterStore \<times> bool" where
  "limiter_hit pkg ip t1 t2 s =
     (case limiter_get pkg ip t1 s of (s1, l) \<Rightarrow>
        (case Allow pkg t2 l of (l', ok) \<Rightarrow> (limiter_put ip l' s1, ok)))"

definition http_Error :: "string \<Rightarrow> int \<Rightarrow> ResponseWriter \<Rightarrow> ResponseWriter" where
  "http_Error msg code w =
     (let w1 = Header_Set ''X-Content-Type-Options'' ''nosniff''
            (Header_Set ''Content-Type'' ''text/plain; charset=utf-8'' w)
      in fst (Write_bytes (msg @ ''\<newline>'') (WriteHeader code w1)))"

text \<open>
  The table \<open>IPRateLimit\<close> creates, if limiting is on at all, and the handler it returns. The table
  is part of the server state.
\<close>

definition IPRateLimit_store :: "IPRateLimitConfig \<Rightarrow> 'l ipLimiterStore option" where
  "IPRateLimit_store cfg =
     (if Rate cfg \<le> 0 then None
      else Some \<lparr>buckets = [], store_rate = Rate cfg,
                 store_burst = (if Burst cfg \<le> 0 then 1 else Burst cfg),
                 store_ttl = (if TTL cfg \<le> 0 then 10 * Minute else TTL cfg)\<rparr>)"

definition IPRateLimit :: "'l rate_pkg \<Rightarrow> env \<Rightarrow> 'a log_state_scheme handler
    \<Rightarrow> ('l ipLimiterStore option \<times> 'a log_state_scheme) handler" where
  "IPRateLimit pkg env next_handler r w st =
     (case st of
        (None, s) \<Rightarrow> (case next_handler r w s of (w', s') \<Rightarrow> (w', None, s'))
      | (Some limiters, s) \<Rightarrow>
          (let ip = clientIP r
           in case time_Now env s of (t1, s1) \<Rightarrow>
              (case time_Now env s1 of (t2, s2) \<Rightarrow>
                 (case limiter_hit pkg ip t1 t2 limiters of (limiters', ok) \<Rightarrow>
                    (if \<not> ok
                     then (http_Error ''Too Many Requests'' StatusTooManyRequests
                             (Header_Set ''Retry-After'' ''1'' w), Some limiters', s2)
                     else (case next_handler r w s2 of (w', s') \<Rightarrow> (w', Some limiters', s')))))))"

subsection \<open>Lemmas on addresses\<close>

text \<open>\<open>net.JoinHostPort\<close>.\<close>

definition JoinHostPort :: "string \<Rightarrow> string \<Rightarrow> string" where
  "JoinHostPort host port =
     (if IndexByte host (CHR '':'') \<noteq> None then ''['' @ host @ '']:'' @ port else host @ '':'' @ port)"

lemma IndexByte_None [simp]: "IndexByte s c = None \<longleftrightarrow> c \<notin> set s"
  by (induction s) auto

lemma IndexByte_first: "c \<notin> set xs \<Longrightarrow> IndexByte (xs @ c # ys) c = Some (length xs)"
  by (induction xs) auto

lemma LastIndexByte_last: "c \<notin> set ys \<Longrightarrow> LastIndexByte (xs @ c # ys) c = Some (length xs)"
  using IndexByte_first [of c "rev ys" "rev xs"] by (simp add: LastIndexByte_def)

lemma SplitHostPort_plain:
  assumes "CHR '':'' \<notin> set host" and "set host \<inter> set ''[]'' = {}" and "set port \<inter> set '':[]'' = {}"
  shows "SplitHostPort (host @ '':'' @ port) = Some (host, port)"
proof -
  have last: "LastIndexByte (host @ CHR '':'' # port) (CHR '':'') = Some (length host)"
    using LastIndexByte_last [of "CHR '':''" port host] assms(3) by auto
  have "(host @ CHR '':'' # port) ! 0 \<noteq> CHR ''[''" using assms(2) by (cases host) auto
  then show ?thesis using assms by (simp add: SplitHostPort_def last)
qed

lemma SplitHostPort_bracket:
  assumes "set host \<inter> set ''[]'' = {}" and "set port \<inter> set '':[]'' = {}"
  shows "SplitHostPort (''['' @ host @ '']:'' @ port) = Some (host, port)"
proof -
  let ?s = "CHR ''['' # host @ CHR '']'' # CHR '':'' # port"
  have last: "LastIndexByte ?s (CHR '':'') = Some (length host + 2)"
    using LastIndexByte_last [of "CHR '':''" port "CHR ''['' # host @ [CHR '']'']"] assms(2) by auto
  have first: "IndexByte (host @ CHR '']'' # CHR '':'' # port) (CHR '']'') = Some (length host)"
    using assms(1) by (intro IndexByte_first) auto
  have "CHR ''['' \<notin> set (drop 1 ?s)" "CHR '']'' \<notin> set (drop (length host + 2) ?s)"
    using assms by auto
  then show ?thesis by (simp add: SplitHostPort_def last first)
qed

lemma SplitHostPort_Join:
  assumes "set host \<inter> set ''[]'' = {}" and "set port \<inter> set '':[]'' = {}"
  shows "SplitHostPort (JoinHostPort host port) = Some (host, port)"
  using assms SplitHostPort_plain [of host port] SplitHostPort_bracket [of host port]
  by (auto simp: JoinHostPort_def)

lemma blank_no_comma: "list_all is_blank us \<Longrightarrow> CHR '','' \<notin> set us"
  by (induction us) (auto simp: is_blank_def)

lemma trim_left_eq: "trim_left s = dropWhile is_blank s"
  by (induction s) simp_all

lemma trimSpace_blank:
  assumes "list_all is_blank us" and "list_all is_blank vs" and "s \<noteq> []"
    and "\<not> is_blank (hd s)" and "\<not> is_blank (last s)"
  shows "trimSpace (us @ s @ vs) = s"
proof -
  have "dropWhile is_blank (us @ s @ vs) = s @ vs"
    using assms by (cases s) (auto simp: dropWhile_append list_all_iff)
  moreover have "dropWhile is_blank (rev vs @ rev s) = rev s"
    using assms by (cases s rule: rev_cases) (auto simp: dropWhile_append list_all_iff)
  ultimately show ?thesis by (simp add: trimSpace_def trim_left_eq)
qed

subsection \<open>Buckets\<close>

definition bucket :: "'l ipLimiterStore \<Rightarrow> string \<Rightarrow> 'l ipBucket option" where
  "bucket s ip = map_of (buckets s) ip"

definition store_ok :: "'l ipLimiterStore \<Rightarrow> bool" where
  "store_ok s = distinct (map fst (buckets s))"

lemma bucket_get:
  "bucket (fst (limiter_get pkg ip now s)) =
     (bucket s)(ip \<mapsto> \<lparr>bucket_limiter = snd (limiter_get pkg ip now s), lastSeen = now\<rparr>)"
  by (simp add: limiter_get_def bucket_def Let_def update_conv' fun_eq_iff)

lemma bucket_put:
  "bucket (limiter_put ip l s) k =
     map_option (\<lambda>b. if k = ip then b\<lparr>bucket_limiter := l\<rparr> else b) (bucket s k)"
proof -
  have "map_of (map (\<lambda>(k, b). (k, if k = ip then b\<lparr>bucket_limiter := l\<rparr> else b)) bs) k =
      map_option (\<lambda>b. if k = ip then b\<lparr>bucket_limiter := l\<rparr> else b) (map_of bs k)" for bs
    by (induction bs) auto
  then show ?thesis by (simp add: bucket_def limiter_put_def)
qed

lemma map_of_filter_distinct:
  "distinct (map fst xs) \<Longrightarrow>
     map_of (filter (\<lambda>(k, v). P k v) xs) k =
       (case map_of xs k of None \<Rightarrow> None | Some v \<Rightarrow> if P k v then Some v else None)"
  by (induction xs) (auto simp: map_of_eq_None_iff image_iff split: option.splits)

lemma bucket_gc:
  "store_ok s \<Longrightarrow> bucket (limiter_gc now s) k =
     (case bucket s k of
        None \<Rightarrow> None
      | Some b \<Rightarrow> if lastSeen b < now - store_ttl s then None else Some b)"
  using map_of_filter_distinct [of "buckets s" "\<lambda>ip b. \<not> lastSeen b < now - store_ttl s" k]
  by (auto simp: limiter_gc_def bucket_def store_ok_def Let_def split: option.splits)

lemma store_ok_get: "store_ok s \<Longrightarrow> store_ok (fst (limiter_get pkg ip now s))"
  by (simp add: limiter_get_def store_ok_def Let_def distinct_update)

lemma store_ok_put: "store_ok s \<Longrightarrow> store_ok (limiter_put ip l s)"
  by (simp add: limiter_put_def store_ok_def comp_def case_prod_beta)

lemma store_ok_gc: "store_ok s \<Longrightarrow> store_ok (limiter_gc now s)"
  by (simp add: limiter_gc_def store_ok_def Let_def distinct_map_filter)

lemma store_params [simp]:
  "store_rate (fst (limiter_get pkg ip now s)) = store_rate s"
  "store_burst (fst (limiter_get pkg ip now s)) = store_burst s"
  "store_ttl (fst (limiter_get pkg ip now s)) = store_ttl s"
  "store_rate (limiter_put ip l s) = store_rate s" "store_burst (limiter_put ip l s) = store_burst s"
  "store_ttl (limiter_put ip l s) = store_ttl s"
  "store_rate (limiter_gc now s) = store_rate s" "store_burst (limiter_gc now s) = store_burst s"
  "store_ttl (limiter_gc now s) = store_ttl s"
  by (simp_all add: limiter_get_def limiter_put_def limiter_gc_def Let_def)

lemma bucket_hit:
  assumes "limiter_hit pkg ip t1 t2 s = (s', ok)"
  defines "l \<equiv> (case bucket s ip of Some b \<Rightarrow> bucket_limiter b
      | None \<Rightarrow> NewLimiter pkg (store_rate s) (store_burst s))"
  shows "ok = snd (Allow pkg t2 l)"
    and "bucket s' = (bucket s)(ip \<mapsto> \<lparr>bucket_limiter = fst (Allow pkg t2 l), lastSeen = t1\<rparr>)"
    and "store_rate s' = store_rate s" and "store_burst s' = store_burst s"
    and "store_ttl s' = store_ttl s" and "store_ok s \<Longrightarrow> store_ok s'"
proof -
  obtain s1 where g: "limiter_get pkg ip t1 s = (s1, l)"
    by (simp add: limiter_get_def l_def bucket_def Let_def)
  have s': "s' = limiter_put ip (fst (Allow pkg t2 l)) s1" "ok = snd (Allow pkg t2 l)"
    using assms(1) g by (auto simp: limiter_hit_def split: prod.splits)
  have s1: "bucket s1 = (bucket s)(ip \<mapsto> \<lparr>bucket_limiter = l, lastSeen = t1\<rparr>)"
    using bucket_get [of pkg ip t1 s] g by simp
  show "ok = snd (Allow pkg t2 l)" by (rule s')
  show "bucket s' = (bucket s)(ip \<mapsto> \<lparr>bucket_limiter = fst (Allow pkg t2 l), lastSeen = t1\<rparr>)"
  proof
    fix k
    show "bucket s' k = ((bucket s)(ip \<mapsto> \<lparr>bucket_limiter = fst (Allow pkg t2 l), lastSeen = t1\<rparr>)) k"
      unfolding s'(1) bucket_put s1 by (cases "bucket s k") auto
  qed
  show "store_rate s' = store_rate s" "store_burst s' = store_burst s" "store_ttl s' = store_ttl s"
    using store_params(1,2,3) [of pkg ip t1 s] g by (simp_all add: s'(1))
  show "store_ok s'" if "store_ok s"
    using store_ok_put store_ok_get [OF that, of pkg ip t1] g by (simp add: s'(1))
qed

subsection \<open>Token buckets\<close>

text \<open>
  The documented behaviour of \<open>rate.Limiter\<close>: a bucket of size \<open>b\<close> that starts full and is
  refilled at \<open>r\<close> tokens per second; \<open>Allow\<close> takes one token if there is one. \<open>level l t\<close> is the
  number of tokens at time \<open>t\<close>, \<open>good r b t l\<close> says that \<open>l\<close> was made with \<open>r\<close> and \<open>b\<close> and last used
  at \<open>t\<close> or before.
\<close>

definition refill :: "rat \<Rightarrow> duration \<Rightarrow> rat" where
  "refill r d = r * of_int d / of_int Second"

locale token_bucket =
  fixes pkg :: "'l rate_pkg"
    and level :: "'l \<Rightarrow> time \<Rightarrow> rat"
    and good :: "rat \<Rightarrow> int \<Rightarrow> time \<Rightarrow> 'l \<Rightarrow> bool"
  assumes new_good: "0 < r \<Longrightarrow> 1 \<le> b \<Longrightarrow> good r b t (NewLimiter pkg r b)"
    and new_level: "level (NewLimiter pkg r b) t = of_int b"
    and good_later: "good r b t l \<Longrightarrow> t \<le> t' \<Longrightarrow> good r b t' l"
    and level_nonneg: "good r b t l \<Longrightarrow> 0 \<le> level l t"
    and level_grows: "good r b t l \<Longrightarrow> t \<le> t' \<Longrightarrow>
        level l t' = min (of_int b) (level l t + refill r (t' - t))"
    and Allow_good: "good r b t l \<Longrightarrow> good r b t (fst (Allow pkg t l))"
    and Allow_takes: "good r b t l \<Longrightarrow> snd (Allow pkg t l) = (1 \<le> level l t)"
    and Allow_level: "good r b t l \<Longrightarrow>
        level (fst (Allow pkg t l)) t = level l t - (if 1 \<le> level l t then 1 else 0)"

text \<open>
  What happens to the table of the rate limiter: a request of a client (the times of the two
  calls of \<open>time.Now\<close> it makes) and a tick of the collector.
\<close>

datatype limiter_event = Hit string time time | Gc time

fun event_time :: "limiter_event \<Rightarrow> time" where
  "event_time (Hit ip t1 t2) = t2"
| "event_time (Gc t) = t"

text \<open>How many requests of \<open>ip\<close> pass.\<close>

fun admitted :: "'l rate_pkg \<Rightarrow> string \<Rightarrow> limiter_event list \<Rightarrow> 'l ipLimiterStore \<Rightarrow> nat" where
  "admitted pkg ip [] s = 0"
| "admitted pkg ip (Hit k t1 t2 # es) s =
     (case limiter_hit pkg k t1 t2 s of (s', ok) \<Rightarrow>
        (if k = ip \<and> ok then 1 else 0) + admitted pkg ip es s')"
| "admitted pkg ip (Gc t # es) s = admitted pkg ip es (limiter_gc t s)"

text \<open>Events in the order of time, a request's two clock readings at most \<open>d\<close> apart.\<close>

fun timely :: "duration \<Rightarrow> time \<Rightarrow> limiter_event list \<Rightarrow> bool" where
  "timely d t [] = True"
| "timely d t (Hit ip t1 t2 # es) = (t \<le> t1 \<and> t1 \<le> t2 \<and> t2 \<le> t1 + d \<and> timely d t2 es)"
| "timely d t (Gc t' # es) = (t \<le> t' \<and> timely d t' es)"

definition end_time :: "time \<Rightarrow> limiter_event list \<Rightarrow> time" where
  "end_time t es = (if es = [] then t else event_time (last es))"

lemma end_time_Cons: "end_time t (e # es) = end_time (event_time e) es"
  by (simp add: end_time_def)

lemma timely_end: "timely d t es \<Longrightarrow> t \<le> end_time t es"
proof (induction es arbitrary: t)
  case (Cons e es)
  then show ?case by (cases e) (fastforce simp: end_time_Cons)+
qed (simp add: end_time_def)

lemma refill_add: "refill r (x + y) = refill r x + refill r y"
  by (simp add: refill_def ring_distribs add_divide_distrib)

lemma refill_mono: "0 < r \<Longrightarrow> x \<le> y \<Longrightarrow> refill r x \<le> refill r y"
  by (simp add: refill_def Second_def divide_right_mono mult_left_mono)

context token_bucket
begin

text \<open>Tokens a client has left, a client without bucket having a full one.\<close>

definition tokens :: "'l ipLimiterStore \<Rightarrow> string \<Rightarrow> time \<Rightarrow> rat" where
  "tokens s ip t = (case bucket s ip of None \<Rightarrow> of_int (store_burst s) | Some b \<Rightarrow> level (bucket_limiter b) t)"

text \<open>Every bucket is good at \<open>t\<close>, and one the collector may drop is full.\<close>

definition inv_at :: "time \<Rightarrow> 'l ipLimiterStore \<Rightarrow> bool" where
  "inv_at t s =
     (store_ok s \<and> 0 < store_rate s \<and> 1 \<le> store_burst s \<and>
      (\<forall>ip b. bucket s ip = Some b \<longrightarrow>
         good (store_rate s) (store_burst s) t (bucket_limiter b) \<and>
         (\<forall>t'. t \<le> t' \<and> lastSeen b + store_ttl s < t' \<longrightarrow>
            level (bucket_limiter b) t' = of_int (store_burst s))))"

lemma inv_later: "inv_at t s \<Longrightarrow> t \<le> t' \<Longrightarrow> inv_at t' s"
  by (fastforce simp: inv_at_def intro: good_later)

lemma tokens_nonneg: "inv_at t s \<Longrightarrow> 0 \<le> tokens s ip t"
  by (fastforce simp: tokens_def inv_at_def intro: level_nonneg split: option.splits)

lemma tokens_grow:
  assumes "inv_at t s" and "t \<le> t'"
  shows "tokens s ip t' \<le> tokens s ip t + refill (store_rate s) (t' - t)"
proof (cases "bucket s ip")
  case None
  have "0 \<le> refill (store_rate s) (t' - t)"
    using assms refill_mono [of "store_rate s" 0 "t' - t"] by (simp add: inv_at_def refill_def)
  then show ?thesis using None by (simp add: tokens_def)
next
  case (Some b)
  then have "good (store_rate s) (store_burst s) t (bucket_limiter b)" using assms(1) by (simp add: inv_at_def)
  then show ?thesis using Some level_grows [OF _ assms(2)] by (simp add: tokens_def)
qed

lemma gc_step:
  assumes "inv_at t s"
  shows "inv_at t (limiter_gc t s)" and "tokens (limiter_gc t s) ip t = tokens s ip t"
proof -
  have ok: "store_ok s" using assms by (simp add: inv_at_def)
  have "bucket (limiter_gc t s) k = Some b \<Longrightarrow> bucket s k = Some b" for k b
    using bucket_gc [OF ok, of t k] by (auto split: option.splits if_splits)
  then show "inv_at t (limiter_gc t s)"
    using assms store_ok_gc [OF ok] unfolding inv_at_def store_params by blast
  show "tokens (limiter_gc t s) ip t = tokens s ip t"
  proof (cases "bucket s ip")
    case None
    then show ?thesis using bucket_gc [OF ok, of t ip] by (simp add: tokens_def)
  next
    case (Some b)
    have "level (bucket_limiter b) t = of_int (store_burst s)" if "lastSeen b < t - store_ttl s"
      using assms Some that by (auto simp: inv_at_def)
    then show ?thesis using Some bucket_gc [OF ok, of t ip] by (auto simp: tokens_def)
  qed
qed

lemma hit_step:
  assumes "inv_at t2 s" and "limiter_hit pkg k t1 t2 s = (s', ok)"
    and "t2 \<le> t1 + d" and "of_int (store_burst s) \<le> refill (store_rate s) (store_ttl s - d)"
  shows "inv_at t2 s'"
    and "tokens s' ip t2 = tokens s ip t2 - (if k = ip \<and> ok then 1 else 0)"
    and "store_rate s' = store_rate s" and "store_burst s' = store_burst s" and "store_ttl s' = store_ttl s"
proof -
  let ?r = "store_rate s" and ?b = "store_burst s"
  define l where "l = (case bucket s k of Some b \<Rightarrow> bucket_limiter b | None \<Rightarrow> NewLimiter pkg ?r ?b)"
  let ?l = "fst (Allow pkg t2 l)"
  note hit = bucket_hit [OF assms(2), folded l_def]
  have r: "0 < ?r" "1 \<le> ?b" "store_ok s" using assms(1) by (simp_all add: inv_at_def)
  have good: "good ?r ?b t2 l"
    using assms(1) r new_good [of ?r ?b t2] by (auto simp: l_def inv_at_def split: option.splits)
  have lev: "level l t2 = tokens s k t2" by (simp add: l_def tokens_def new_level split: option.splits)
  have full: "level ?l t' = of_int ?b" if "t2 \<le> t'" "t1 + store_ttl s < t'" for t'
  proof -
    have "of_int ?b \<le> refill ?r (t' - t2)"
      using assms(3,4) that refill_mono [OF r(1), of "store_ttl s - d" "t' - t2"] by linarith
    moreover have "0 \<le> level ?l t2" using level_nonneg [OF Allow_good [OF good]] .
    ultimately show ?thesis using level_grows [OF Allow_good [OF good] that(1)] by simp
  qed
  show "inv_at t2 s'"
    using assms(1) hit(2-6) r full Allow_good [OF good] by (auto simp: inv_at_def)
  show "tokens s' ip t2 = tokens s ip t2 - (if k = ip \<and> ok then 1 else 0)"
    using Allow_level [OF good] Allow_takes [OF good] hit(1) lev
    unfolding tokens_def hit(2,4) by (auto split: option.splits)
  show "store_rate s' = ?r" "store_burst s' = ?b" "store_ttl s' = store_ttl s" by (rule hit)+
qed

lemma admitted_bound:
  assumes "inv_at t s" and "timely d t es"
    and "of_int (store_burst s) \<le> refill (store_rate s) (store_ttl s - d)"
  shows "of_nat (admitted pkg ip es s) \<le> tokens s ip t + refill (store_rate s) (end_time t es - t)"
  using assms
proof (induction es arbitrary: t s)
  case Nil
  then show ?case using tokens_nonneg [OF Nil(1)] by (simp add: end_time_def refill_def)
next
  case (Cons e es)
  let ?t' = "event_time e" and ?r = "store_rate s"
  have later: "t \<le> ?t'" using Cons.prems(2) by (cases e) auto
  have inv: "inv_at ?t' s" using Cons.prems(1) later by (rule inv_later)
  have grow: "tokens s ip ?t' + refill ?r (end_time t (e # es) - ?t') \<le>
      tokens s ip t + refill ?r (end_time t (e # es) - t)"
    using tokens_grow [OF Cons.prems(1) later, of ip] refill_add [of ?r "?t' - t" "end_time t (e # es) - ?t'"]
    by simp
  show ?case
  proof (cases e)
    case (Hit k t1 t2)
    obtain s' ok where h: "limiter_hit pkg k t1 t2 s = (s', ok)" by fastforce
    have "t2 \<le> t1 + d" "timely d t2 es" using Cons.prems(2) Hit by simp_all
    note st = hit_step [OF inv [unfolded Hit event_time.simps] h this(1) Cons.prems(3)]
    have "of_nat (admitted pkg ip es s') \<le> tokens s' ip t2 + refill ?r (end_time t2 es - t2)"
      using Cons.IH [OF st(1) \<open>timely d t2 es\<close>] Cons.prems(3) st(3-5) by simp
    then show ?thesis using grow Hit h st(2) [of ip] by (auto simp: end_time_Cons)
  next
    case (Gc t')
    note st = gc_step [OF inv [unfolded Gc event_time.simps]]
    have "of_nat (admitted pkg ip es (limiter_gc t' s)) \<le>
        tokens (limiter_gc t' s) ip t' + refill ?r (end_time t' es - t')"
      using Cons.IH [OF st(1)] Cons.prems(2,3) Gc by simp
    then show ?thesis using grow Gc st(2) [of ip] by (simp add: end_time_Cons)
  qed
qed

lemma fresh_inv:
  assumes "IPRateLimit_store cfg = Some s"
  shows "inv_at t s" and "tokens s ip t = of_int (store_burst s)"
  using assms by (auto simp: IPRateLimit_store_def inv_at_def store_ok_def bucket_def tokens_def split: if_splits)

lemma admitted_from_start:
  assumes "IPRateLimit_store cfg = Some s" and "timely d t es"
    and "of_int (store_burst s) \<le> refill (store_rate s) (store_ttl s - d)"
  shows "of_nat (admitted pkg ip es s) \<le> of_int (store_burst s) + refill (store_rate s) (end_time t es - t)"
  using admitted_bound [OF fresh_inv(1) [OF assms(1)] assms(2,3)] fresh_inv(2) [OF assms(1)] by simp

end

subsection \<open>A reference bucket\<close>

record tb =
  tb_rate :: rat
  tb_burst :: int
  tb_tokens :: rat
  tb_last :: "time option"

definition tb_level :: "tb \<Rightarrow> time \<Rightarrow> rat" where
  "tb_level l t =
     (case tb_last l of
        None \<Rightarrow> of_int (tb_burst l)
      | Some t0 \<Rightarrow> min (of_int (tb_burst l)) (tb_tokens l + refill (tb_rate l) (t - t0)))"

definition tb_Allow :: "time \<Rightarrow> tb \<Rightarrow> tb \<times> bool" where
  "tb_Allow t l =
     (let v = tb_level l t
      in (l\<lparr>tb_tokens := (if 1 \<le> v then v - 1 else v), tb_last := Some t\<rparr>, 1 \<le> v))"

definition tb_pkg :: "tb rate_pkg" where
  "tb_pkg =
     \<lparr>NewLimiter = (\<lambda>r b. \<lparr>tb_rate = r, tb_burst = b, tb_tokens = of_int b, tb_last = None\<rparr>),
      Allow = tb_Allow\<rparr>"

definition tb_good :: "rat \<Rightarrow> int \<Rightarrow> time \<Rightarrow> tb \<Rightarrow> bool" where
  "tb_good r b t l =
     (tb_rate l = r \<and> tb_burst l = b \<and> 0 < r \<and> 1 \<le> b \<and>
      (case tb_last l of None \<Rightarrow> True
       | Some t0 \<Rightarrow> t0 \<le> t \<and> 0 \<le> tb_tokens l \<and> tb_tokens l \<le> of_int b))"

lemma refill_nonneg: "0 < r \<Longrightarrow> 0 \<le> d \<Longrightarrow> 0 \<le> refill r d"
  by (simp add: refill_def Second_def)

lemma tb_level_bounds: "tb_good r b t l \<Longrightarrow> 0 \<le> tb_level l t \<and> tb_level l t \<le> of_int b"
  using refill_nonneg [of r] by (auto simp: tb_good_def tb_level_def split: option.splits)

lemma tb_level_grows:
  assumes "tb_good r b t l" and "t \<le> t'"
  shows "tb_level l t' = min (of_int b) (tb_level l t + refill r (t' - t))"
proof (cases "tb_last l")
  case None
  then show ?thesis using assms refill_nonneg [of r "t' - t"] by (simp add: tb_level_def tb_good_def)
next
  case (Some t0)
  have "refill r (t' - t0) = refill r (t - t0) + refill r (t' - t)"
    using refill_add [of r "t - t0" "t' - t"] by simp
  then show ?thesis
    using assms Some refill_nonneg [of r "t' - t"] by (auto simp: tb_level_def tb_good_def min_def)
qed

lemma refill_zero [simp]: "refill r 0 = 0"
  by (simp add: refill_def)

interpretation tb: token_bucket tb_pkg tb_level tb_good
proof (unfold_locales, goal_cases)
  case (6 r b t l)
  then show ?case
    using tb_level_bounds [OF 6] by (auto simp: tb_pkg_def tb_Allow_def tb_good_def Let_def)
next
  case (8 r b t l)
  then show ?case
    using tb_level_bounds [OF 8] by (auto simp: tb_pkg_def tb_Allow_def tb_good_def tb_level_def Let_def)
next
  case (3 r b t l t')
  then show ?case by (auto simp: tb_good_def split: option.splits)
next
  case (5 r b t l t')
  then show ?case by (rule tb_level_grows)
qed (simp_all add: tb_pkg_def tb_good_def tb_level_def tb_level_bounds tb_Allow_def Let_def,
     simp add: tb_level_bounds [unfolded tb_good_def tb_level_def])

context token_bucket
begin

lemmas rate_bound = admitted_from_start

end

definition sample_limits :: IPRateLimitConfig where
  "sample_limits = \<lparr>Rate = 2, Burst = 3, TTL = 10 * Second\<rparr>"

definition sample_hits :: "limiter_event list" where
  "sample_hits =
     [Hit ''a'' 0 0, Hit ''a'' 0 0, Hit ''b'' 0 0, Hit ''a'' 0 0, Hit ''a'' 0 0, Gc Second, Hit ''a'' Second Second,
      Gc (12 * Second), Hit ''a'' (12 * Second) (12 * Second)]"

subsection \<open>Properties\<close>

text \<open>
  C18. The rate limit holds: starting from the table \<open>IPRateLimit\<close> creates, in any sequence of
  requests of any clients and ticks of the collector, at most \<open>burst + rate * elapsed\<close> requests of
  one client pass. The collector gives no client extra tokens, provided that a bucket fills up
  within the time it must be idle before it is dropped (\<open>d\<close> bounds the time between the two clock
  readings of a request).
\<close>
theorem rate_limit_bound:
  assumes "token_bucket pkg level good" and "IPRateLimit_store cfg = Some s" and "timely d t es"
    and "of_int (store_burst s) \<le> refill (store_rate s) (store_ttl s - d)"
  shows "of_nat (admitted pkg ip es s) \<le> of_int (store_burst s) + refill (store_rate s) (end_time t es - t)"
  using assms by (rule token_bucket.rate_bound)

theorem rate_limit_bound_witness:
  "\<exists>s. IPRateLimit_store sample_limits = Some s \<and> admitted tb_pkg ''a'' sample_hits s = 5 \<and>
     of_nat (admitted tb_pkg ''a'' sample_hits s) \<le> (27 :: rat)"
proof -
  define s :: "tb ipLimiterStore" where
    "s = \<lparr>buckets = [], store_rate = 2, store_burst = 3, store_ttl = 10 * Second\<rparr>"
  have s: "IPRateLimit_store sample_limits = Some s"
    by (simp add: IPRateLimit_store_def sample_limits_def s_def Second_def)
  have "timely 0 0 sample_hits" "end_time 0 sample_hits = 12 * Second"
    by (simp_all add: sample_hits_def end_time_def Second_def)
  moreover have "of_int (store_burst s) \<le> refill (store_rate s) (store_ttl s - 0)"
    by (simp add: s_def refill_def Second_def)
  ultimately have "of_nat (admitted tb_pkg ''a'' sample_hits s) \<le> (3 :: rat) + refill 2 (12 * Second)"
    using rate_limit_bound [OF tb.token_bucket_axioms s, of 0 0 sample_hits "''a''"] by (simp add: s_def)
  moreover have "admitted tb_pkg ''a'' sample_hits s = 5" unfolding s_def by code_simp
  ultimately show ?thesis using s by (auto simp: refill_def Second_def)
qed

text \<open>
  C19. The key a request is limited under: with an \<open>X-Forwarded-For\<close> header it is the entry before
  the first comma, without the blanks around it; without one it is the host of the peer address,
  for IPv4 and bracketed IPv6 addresses alike.
\<close>
theorem client_address:
  assumes "list_all is_blank us" and "list_all is_blank vs" and "e \<noteq> []" and "CHR '','' \<notin> set e"
    and "\<not> is_blank (hd e)" and "\<not> is_blank (last e)" and "rest = [] \<or> hd rest = CHR '',''"
    and "set host \<inter> set ''[]'' = {}" and "set port \<inter> set '':[]'' = {}"
  shows "(first_value (req_Header r) ''X-Forwarded-For'' = us @ e @ vs @ rest \<longrightarrow> clientIP r = e) \<and>
    (first_value (req_Header r) ''X-Forwarded-For'' = [] \<and> req_RemoteAddr r = JoinHostPort host port \<longrightarrow>
       clientIP r = host)"
proof (intro conjI impI; (elim conjE)?)
  have nc: "CHR '','' \<notin> set (us @ e @ vs)" using blank_no_comma assms(1,2,4) by simp
  have trim: "trimSpace (us @ e @ vs) = e" using assms(1,2,3,5,6) by (intro trimSpace_blank)
  assume h: "first_value (req_Header r) ''X-Forwarded-For'' = us @ e @ vs @ rest"
  show "clientIP r = e"
  proof (cases rest)
    case Nil
    then have "IndexByte (us @ e @ vs) (CHR '','') = None" using nc by simp
    then show ?thesis using h Nil trim assms(3) by (simp add: clientIP_def Let_def del: IndexByte_None)
  next
    case (Cons c cs)
    then have "IndexByte (us @ e @ vs @ rest) (CHR '','') = Some (length us + length e + length vs)"
      using assms(7) IndexByte_first [OF nc, of cs] by simp
    then show ?thesis using h trim assms(3) by (simp add: clientIP_def Let_def)
  qed
next
  assume "first_value (req_Header r) ''X-Forwarded-For'' = []" "req_RemoteAddr r = JoinHostPort host port"
  then show "clientIP r = host" using SplitHostPort_Join [OF assms(8,9)] by (simp add: clientIP_def Let_def)
qed

definition peer_request :: "string \<Rightarrow> (string \<times> string list) list \<Rightarrow> request" where
  "peer_request peer hdr =
     \<lparr>req_Method = ''GET'', req_Path = ''/'', req_Query = [], req_Header = hdr, req_RemoteAddr = peer,
      req_Body = \<lparr>body_bytes = [], body_max = None\<rparr>, req_Params = None\<rparr>"

theorem client_address_witness:
  "clientIP (peer_request ''[::1]:80'' []) = ''::1'' \<and>
   clientIP (peer_request ''[::1]:80'' [(''X-Forwarded-For'', ['' 1.2.3.4 , 5.6.7.8''])]) = ''1.2.3.4''"
proof -
  have join: "''[::1]:80'' = JoinHostPort ''::1'' ''80''" by (simp add: JoinHostPort_def)
  note addr = client_address [of "'' ''" "'' ''" "''1.2.3.4''" "'', 5.6.7.8''" "''::1''" "''80''"]
  show ?thesis
    using addr [of "peer_request ''[::1]:80'' []"]
      addr [of "peer_request ''[::1]:80'' [(''X-Forwarded-For'', ['' 1.2.3.4 , 5.6.7.8''])]"]
    by (simp add: is_blank_def peer_request_def first_value_def join [symmetric])
qed

end
