(* ===== verification/Http_Server.thy ===== *)
theory Http_Server
  imports Http_Middleware
begin

text \<open>
  The HTTP server of \<open>pkg/http/server\<close> (\<open>server.go\<close>, \<open>options.go\<close>): the \<open>http.Server\<close> value, the options
  and the constructor that applies them, and the part of the standard \<open>http.ServeMux\<close> the service
  uses: subtree patterns (ending in a slash), the cleaning of paths and the redirects. The escaping
  of URLs and the redirect responses of package \<open>net/http\<close> are the argument \<open>url\<close>.
\<close>

subsection \<open>http.Server and its options\<close>

record 's http_Server =
  srv_Addr :: string
  srv_Handler :: "'s handler"
  srv_IdleTimeout :: duration
  srv_ReadTimeout :: duration
  srv_WriteTimeout :: duration
  srv_ReadHeaderTimeout :: duration

type_synonym 's server_option = "'s http_Server \<Rightarrow> 's http_Server"

definition Port :: "string \<Rightarrow> 's server_option" where
  "Port port s = s\<lparr>srv_Addr := JoinHostPort [] port\<rparr>"

definition ReadTimeout :: "duration \<Rightarrow> 's server_option" where
  "ReadTimeout timeout s = s\<lparr>srv_ReadTimeout := timeout\<rparr>"

definition WriteTimeout :: "duration \<Rightarrow> 's server_option" where
  "WriteTimeout timeout s = s\<lparr>srv_WriteTimeout := timeout\<rparr>"

definition IdleTimeout :: "duration \<Rightarrow> 's server_option" where
  "IdleTimeout timeout s = s\<lparr>srv_IdleTimeout := timeout\<rparr>"

definition ReadHeaderTimeout :: "duration \<Rightarrow> 's server_option" where
  "ReadHeaderTimeout timeout s = s\<lparr>srv_ReadHeaderTimeout := timeout\<rparr>"

definition defaultReadTimeout :: duration where "defaultReadTimeout = 10 * Second"

definition defaultWriteTimeout :: duration where "defaultWriteTimeout = 10 * Second"

definition defaultIdleTimout :: duration where "defaultIdleTimout = 60 * Second"

definition defaultReadHeaderTimeout :: duration where "defaultReadHeaderTimeout = 10 * Second"

definition defaultAddr :: string where "defaultAddr = '':8008''"

definition NewServer :: "'s handler \<Rightarrow> 's server_option list \<Rightarrow> 's http_Server" where
  "NewServer h opts =
     (let s = \<lparr>srv_Addr = defaultAddr, srv_Handler = h, srv_IdleTimeout = defaultIdleTimout,
               srv_ReadTimeout = defaultReadTimeout, srv_WriteTimeout = defaultWriteTimeout,
               srv_ReadHeaderTimeout = defaultReadHeaderTimeout\<rparr>
      in fold (\<lambda>opt s. opt s) opts s)"

lemmas option_defs = Port_def ReadTimeout_def WriteTimeout_def IdleTimeout_def ReadHeaderTimeout_def

lemmas default_defs =
  defaultReadTimeout_def defaultWriteTimeout_def defaultIdleTimout_def defaultReadHeaderTimeout_def defaultAddr_def

subsection \<open>http.ServeMux\<close>

text \<open>\<open>path.Clean\<close> on a rooted path: empty and dot segments go, two dots remove the segment before.\<close>

fun clean_segments :: "string list \<Rightarrow> string list \<Rightarrow> string list" where
  "clean_segments [] acc = rev acc"
| "clean_segments (x # xs) acc =
     (if x = [] \<or> x = ''.'' then clean_segments xs acc
      else if x = ''..'' then clean_segments xs (tl acc)
      else clean_segments xs (x # acc))"

definition path_Clean :: "string \<Rightarrow> string" where
  "path_Clean p = CHR ''/'' # strings_Join ''/'' (clean_segments (strings_Split (CHR ''/'') (tl p)) [])"

definition cleanPath :: "string \<Rightarrow> string" where
  "cleanPath p =
     (if p = [] then ''/''
      else
        (let p = (if hd p \<noteq> CHR ''/'' then CHR ''/'' # p else p); np = path_Clean p
         in if last p = CHR ''/'' \<and> np \<noteq> ''/'' then np @ ''/'' else np))"

text \<open>
  A subtree pattern is the list of its literal segments; it matches a path that has these segments
  and at least a slash after them. The longest match wins.
\<close>

type_synonym 's ServeMux = "(string list \<times> 's handler) list"

record 's url_pkg =
  EscapedPath :: "request \<Rightarrow> string"
  PathUnescape :: "string \<Rightarrow> string"
  RedirectHandler :: "string \<Rightarrow> 's handler"

definition mux_Handle :: "string list \<Rightarrow> 's handler \<Rightarrow> 's ServeMux \<Rightarrow> 's ServeMux" where
  "mux_Handle pat h mux = mux @ [(pat, h)]"

definition path_parts :: "string \<Rightarrow> string list" where
  "path_parts path = strings_Split (CHR ''/'') (tl path)"

definition pattern_matches :: "(string \<Rightarrow> string) \<Rightarrow> string \<Rightarrow> string list \<Rightarrow> bool" where
  "pattern_matches unesc path pat =
     (path \<noteq> [] \<and> length pat < length (path_parts path) \<and>
      map unesc (take (length pat) (path_parts path)) = pat)"

fun longest :: "(string list \<times> 's handler) list \<Rightarrow> (string list \<times> 's handler) option" where
  "longest [] = None"
| "longest (e # es) =
     (case longest es of
        None \<Rightarrow> Some e
      | Some f \<Rightarrow> Some (if length (fst e) < length (fst f) then f else e))"

definition mux_match :: "(string \<Rightarrow> string) \<Rightarrow> 's ServeMux \<Rightarrow> string \<Rightarrow> (string list \<times> 's handler) option" where
  "mux_match unesc mux path = longest (filter (\<lambda>(pat, h). pattern_matches unesc path pat) mux)"

definition exactMatch :: "(string list \<times> 's handler) option \<Rightarrow> string \<Rightarrow> bool" where
  "exactMatch n path =
     (case n of
        None \<Rightarrow> False
      | Some (pat, _) \<Rightarrow> path \<noteq> [] \<and> last path = CHR ''/'' \<and> length (path_parts path) = length pat + 1)"

text \<open>\<open>matchOrRedirect\<close> for a request: the entry, or that the path with a slash added is an exact match.\<close>

definition matchOrRedirect :: "(string \<Rightarrow> string) \<Rightarrow> 's ServeMux \<Rightarrow> string
    \<Rightarrow> (string list \<times> 's handler) option \<times> bool" where
  "matchOrRedirect unesc mux path =
     (let n = mux_match unesc mux path
      in if \<not> exactMatch n path \<and> \<not> strings_HasSuffix path ''/'' \<and>
            exactMatch (mux_match unesc mux (path @ ''/'')) (path @ ''/'')
         then (None, True) else (n, False))"

definition serve_entry :: "(string list \<times> 's handler) option \<Rightarrow> 's handler" where
  "serve_entry n r w s =
     (case n of
        None \<Rightarrow> (http_Error ''404 page not found'' StatusNotFound w, s)
      | Some (_, h) \<Rightarrow> h r w s)"

definition mux_ServeHTTP :: "'s url_pkg \<Rightarrow> 's ServeMux \<Rightarrow> 's handler" where
  "mux_ServeHTTP url mux r w s =
     (let escaped = EscapedPath url r; unesc = PathUnescape url
      in if escaped = ''*''
         then (WriteHeader StatusBadRequest (Header_Set ''Connection'' ''close'' w), s)
         else if req_Method r = ''CONNECT''
         then (if snd (matchOrRedirect unesc mux escaped)
               then RedirectHandler url (cleanPath (req_Path r) @ ''/'') r w s
               else serve_entry (mux_match unesc mux escaped) r w s)
         else
           (let path = cleanPath escaped
            in case matchOrRedirect unesc mux path of
                 (_, True) \<Rightarrow> RedirectHandler url (cleanPath (req_Path r) @ ''/'') r w s
               | (n, False) \<Rightarrow>
                   (if path \<noteq> escaped then RedirectHandler url path r w s
                    else serve_entry n r w s)))"

subsection \<open>Lemmas on the mux\<close>

lemma Split_snoc_sep: "strings_Split sep (s @ [sep]) = strings_Split sep s @ [[]]"
  using strings_Split_append [of sep s "[]"] by simp

lemma path_parts_slash: "path \<noteq> [] \<Longrightarrow> path_parts (path @ ''/'') = path_parts path @ [[]]"
  by (simp add: path_parts_def Split_snoc_sep)

lemma path_parts_nonempty [simp]: "path_parts path \<noteq> []"
  by (simp add: path_parts_def)

lemma cleanPath_nonempty [simp]: "cleanPath p \<noteq> []"
  by (auto simp: cleanPath_def Let_def path_Clean_def)

text \<open>The mux of the service: one subtree beside the catch-all.\<close>

definition two_mux :: "string \<Rightarrow> 's handler \<Rightarrow> 's handler \<Rightarrow> 's ServeMux" where
  "two_mux seg h rest = mux_Handle [] rest (mux_Handle [seg] h [])"

lemma two_mux_match:
  assumes "path \<noteq> []"
  shows "mux_match unesc (two_mux seg h rest) path =
    Some (if 1 < length (path_parts path) \<and> unesc (hd (path_parts path)) = seg then ([seg], h) else ([], rest))"
proof -
  obtain x xs where "path_parts path = x # xs" by (cases "path_parts path") simp_all
  then show ?thesis using assms by (simp add: mux_match_def two_mux_def mux_Handle_def pattern_matches_def)
qed

lemma two_mux_rest:
  assumes "path \<noteq> []" and "unesc (hd (path_parts path)) \<noteq> seg"
  shows "matchOrRedirect unesc (two_mux seg h rest) path = (Some ([], rest), False)"
proof -
  have "unesc (hd (path_parts (path @ ''/''))) \<noteq> seg" using assms by (simp add: path_parts_slash)
  then have "\<not> exactMatch (mux_match unesc (two_mux seg h rest) (path @ ''/'')) (path @ ''/'')"
    using assms(1) by (simp add: two_mux_match exactMatch_def path_parts_slash)
  then show ?thesis using assms by (simp add: matchOrRedirect_def two_mux_match Let_def)
qed

lemma two_mux_sub:
  assumes "path \<noteq> []" and "1 < length (path_parts path)" and "unesc (hd (path_parts path)) = seg"
  shows "matchOrRedirect unesc (two_mux seg h rest) path = (Some ([seg], h), False)"
proof -
  have "\<not> exactMatch (mux_match unesc (two_mux seg h rest) (path @ ''/'')) (path @ ''/'')"
    using assms by (simp add: two_mux_match exactMatch_def path_parts_slash)
  then show ?thesis using assms by (simp add: matchOrRedirect_def two_mux_match Let_def)
qed

text \<open>Requests whose path is already clean, and that the catch-all or the subtree gets.\<close>

definition clean_request :: "'s url_pkg \<Rightarrow> request \<Rightarrow> bool" where
  "clean_request url r =
     (EscapedPath url r \<noteq> ''*'' \<and> req_Method r \<noteq> ''CONNECT'' \<and>
      cleanPath (EscapedPath url r) = EscapedPath url r)"

definition first_segment :: "'s url_pkg \<Rightarrow> request \<Rightarrow> string" where
  "first_segment url r = PathUnescape url (hd (path_parts (EscapedPath url r)))"

lemma two_mux_serves_rest:
  assumes "clean_request url r" and "first_segment url r \<noteq> seg"
  shows "mux_ServeHTTP url (two_mux seg h rest) r w s = rest r w s"
proof -
  let ?p = "EscapedPath url r"
  have p: "?p \<noteq> []" using assms(1) by (metis clean_request_def cleanPath_nonempty)
  have "matchOrRedirect (PathUnescape url) (two_mux seg h rest) ?p = (Some ([], rest), False)"
    using p assms(2) unfolding first_segment_def by (rule two_mux_rest)
  then show ?thesis
    using assms(1) by (simp add: mux_ServeHTTP_def clean_request_def serve_entry_def Let_def)
qed

lemma two_mux_serves_sub:
  assumes "clean_request url r" and "first_segment url r = seg" and "1 < length (path_parts (EscapedPath url r))"
  shows "mux_ServeHTTP url (two_mux seg h rest) r w s = h r w s"
proof -
  let ?p = "EscapedPath url r"
  have p: "?p \<noteq> []" using assms(1) by (metis clean_request_def cleanPath_nonempty)
  have "matchOrRedirect (PathUnescape url) (two_mux seg h rest) ?p = (Some ([seg], h), False)"
    using p assms(3,2) unfolding first_segment_def by (rule two_mux_sub)
  then show ?thesis
    using assms(1) by (simp add: mux_ServeHTTP_def clean_request_def serve_entry_def Let_def)
qed

end
