(* ===== verification/Postgres_Pool.thy ===== *)
theory Postgres_Pool
  imports Task_Repository
begin

text \<open>
  \<open>pkg/postgres/postgres.go\<close>: opening the connection pool. The pool is the \<open>sql.DB\<close> of the standard
  library, with its limits as \<open>database/sql\<close> keeps them; what the pgx driver decides (whether it
  accepts the DSN, whether the server answers a ping in time) is the argument \<open>drv\<close>. The state
  lists every pool opened so far, so that a pool left open is visible.
\<close>

subsection \<open>The connection pool of database/sql\<close>

text \<open>\<open>maxOpen = 0\<close> is no limit; \<open>maxIdleCount = 0\<close> is the default of two, a negative one means none.\<close>

record sqlPool =
  pool_dsn :: string
  pool_maxOpen :: int
  pool_maxIdleCount :: int
  pool_maxLifetime :: duration
  pool_closed :: bool

definition maxIdleConns :: "sqlPool \<Rightarrow> int" where
  "maxIdleConns p =
     (if pool_maxIdleCount p = 0 then 2 else if pool_maxIdleCount p < 0 then 0 else pool_maxIdleCount p)"

definition SetMaxIdleConns :: "int \<Rightarrow> sqlPool \<Rightarrow> sqlPool" where
  "SetMaxIdleConns n p =
     (let p1 = p\<lparr>pool_maxIdleCount := (if 0 < n then n else - 1)\<rparr>
      in if 0 < pool_maxOpen p1 \<and> pool_maxOpen p1 < maxIdleConns p1
         then p1\<lparr>pool_maxIdleCount := pool_maxOpen p1\<rparr> else p1)"

definition SetMaxOpenConns :: "int \<Rightarrow> sqlPool \<Rightarrow> sqlPool" where
  "SetMaxOpenConns n p =
     (let p1 = p\<lparr>pool_maxOpen := (if n < 0 then 0 else n)\<rparr>
      in if 0 < pool_maxOpen p1 \<and> pool_maxOpen p1 < maxIdleConns p1 then SetMaxIdleConns n p1 else p1)"

definition SetConnMaxLifetime :: "duration \<Rightarrow> sqlPool \<Rightarrow> sqlPool" where
  "SetConnMaxLifetime d p = p\<lparr>pool_maxLifetime := (if d < 0 then 0 else d)\<rparr>"

text \<open>
  The driver: the error its connector reports for a DSN, the outcome of a ping within a time limit,
  the error of closing, and the statements on a pool, on a database state.
\<close>

record 'db pg_driver =
  drv_Connector :: "string \<Rightarrow> goerror option"
  drv_Ping :: "sqlPool \<Rightarrow> duration \<Rightarrow> 'db \<Rightarrow> 'db \<times> goerror option"
  drv_Close :: "sqlPool \<Rightarrow> goerror option"
  drv_Conn :: "sqlPool \<Rightarrow> 'db sqldb"

record 'db pool_state =
  ps_pools :: "sqlPool list"
  ps_db :: 'db

definition sql_Open :: "'db pg_driver \<Rightarrow> string \<Rightarrow> goerror + sqlPool" where
  "sql_Open drv dsn =
     (case drv_Connector drv dsn of
        Some err \<Rightarrow> Inl err
      | None \<Rightarrow> Inr \<lparr>pool_dsn = dsn, pool_maxOpen = 0, pool_maxIdleCount = 0, pool_maxLifetime = 0,
                     pool_closed = False\<rparr>)"

definition Close_pool :: "'db pg_driver \<Rightarrow> nat \<Rightarrow> 'db pool_state \<Rightarrow> 'db pool_state \<times> goerror option" where
  "Close_pool drv i s =
     (let p = ps_pools s ! i
      in if pool_closed p then (s, None)
         else (s\<lparr>ps_pools := (ps_pools s)[i := p\<lparr>pool_closed := True\<rparr>]\<rparr>, drv_Close drv p))"

subsection \<open>New\<close>

definition defaultPingTimeout :: duration where
  "defaultPingTimeout = 5 * Second"

record pg_Config =
  pg_DSN :: string
  pg_MaxOpenConns :: int
  pg_MaxIdleConns :: int
  pg_ConnMaxLifetime :: duration
  pg_PingTimeout :: duration

definition apply_limits :: "pg_Config \<Rightarrow> sqlPool \<Rightarrow> sqlPool" where
  "apply_limits cfg db =
     (let db = (if 0 < pg_MaxOpenConns cfg then SetMaxOpenConns (pg_MaxOpenConns cfg) db else db);
          db = (if 0 < pg_MaxIdleConns cfg then SetMaxIdleConns (pg_MaxIdleConns cfg) db else db)
      in if 0 < pg_ConnMaxLifetime cfg then SetConnMaxLifetime (pg_ConnMaxLifetime cfg) db else db)"

text \<open>The pool \<open>New\<close> returns is its index in the list of pools.\<close>

definition postgres_New :: "'db pg_driver \<Rightarrow> pg_Config \<Rightarrow> 'db pool_state
    \<Rightarrow> 'db pool_state \<times> (goerror + nat)" where
  "postgres_New drv cfg s =
     (if pg_DSN cfg = [] then (s, Inl ErrEmptyDSN)
      else
        (case sql_Open drv (pg_DSN cfg) of
           Inl err \<Rightarrow> (s, Inl (Errorf ''open postgres'' err))
         | Inr db0 \<Rightarrow>
             (let db = apply_limits cfg db0;
                  i = length (ps_pools s);
                  s1 = s\<lparr>ps_pools := ps_pools s @ [db]\<rparr>;
                  pingTimeout = (if pg_PingTimeout cfg \<le> 0 then defaultPingTimeout else pg_PingTimeout cfg)
              in case drv_Ping drv db pingTimeout (ps_db s1) of
                   (d, Some err) \<Rightarrow>
                     (fst (Close_pool drv i (s1\<lparr>ps_db := d\<rparr>)), Inl (Errorf ''ping postgres'' err))
                 | (d, None) \<Rightarrow> (s1\<lparr>ps_db := d\<rparr>, Inr i))))"

subsection \<open>Lemmas\<close>

definition open_pools :: "'db pool_state \<Rightarrow> sqlPool list" where
  "open_pools s = filter (\<lambda>p. \<not> pool_closed p) (ps_pools s)"

lemmas pool_defs =
  SetMaxOpenConns_def SetMaxIdleConns_def SetConnMaxLifetime_def maxIdleConns_def apply_limits_def

lemma sql_Open_cases:
  assumes "sql_Open drv dsn = Inr db"
  shows "db = \<lparr>pool_dsn = dsn, pool_maxOpen = 0, pool_maxIdleCount = 0, pool_maxLifetime = 0, pool_closed = False\<rparr>"
  using assms by (auto simp: sql_Open_def split: option.splits)

lemma apply_limits_fields [simp]:
  "pool_closed (apply_limits cfg db) = pool_closed db" "pool_dsn (apply_limits cfg db) = pool_dsn db"
  by (simp_all add: pool_defs Let_def)

lemma Close_appended:
  assumes "\<not> pool_closed p"
  shows "fst (Close_pool drv (length ps) \<lparr>ps_pools = ps @ [p], ps_db = d\<rparr>) =
    \<lparr>ps_pools = ps @ [p\<lparr>pool_closed := True\<rparr>], ps_db = d\<rparr>"
  using assms by (simp add: Close_pool_def)

text \<open>The limits of an opened pool: those configured, with no more idle connections than open ones.\<close>

definition limits_ok :: "pg_Config \<Rightarrow> sqlPool \<Rightarrow> bool" where
  "limits_ok cfg p =
     (pool_maxOpen p = max 0 (pg_MaxOpenConns cfg) \<and>
      pool_maxLifetime p = max 0 (pg_ConnMaxLifetime cfg) \<and>
      (let want = (if 0 < pg_MaxIdleConns cfg then pg_MaxIdleConns cfg else 2)
       in maxIdleConns p = (if 0 < pg_MaxOpenConns cfg then min (pg_MaxOpenConns cfg) want else want)))"

lemma apply_limits_ok:
  assumes "sql_Open drv dsn = Inr db"
  shows "limits_ok cfg (apply_limits cfg db)"
proof -
  define p1 where "p1 = (if 0 < pg_MaxOpenConns cfg then SetMaxOpenConns (pg_MaxOpenConns cfg) db else db)"
  define p2 where "p2 = (if 0 < pg_MaxIdleConns cfg then SetMaxIdleConns (pg_MaxIdleConns cfg) p1 else p1)"
  have p1: "pool_maxOpen p1 = max 0 (pg_MaxOpenConns cfg)" "pool_maxLifetime p1 = 0"
    "maxIdleConns p1 = (if 0 < pg_MaxOpenConns cfg then min (pg_MaxOpenConns cfg) 2 else 2)"
    by (auto simp: p1_def sql_Open_cases [OF assms] SetMaxOpenConns_def SetMaxIdleConns_def maxIdleConns_def Let_def)
  have p2: "pool_maxOpen p2 = pool_maxOpen p1" "pool_maxLifetime p2 = 0"
    "maxIdleConns p2 = (if 0 < pg_MaxIdleConns cfg
       then (if 0 < pool_maxOpen p1 then min (pool_maxOpen p1) (pg_MaxIdleConns cfg) else pg_MaxIdleConns cfg)
       else maxIdleConns p1)"
    using p1(2) by (auto simp: p2_def SetMaxIdleConns_def maxIdleConns_def Let_def)
  have "apply_limits cfg db = (if 0 < pg_ConnMaxLifetime cfg then SetConnMaxLifetime (pg_ConnMaxLifetime cfg) p2 else p2)"
    by (simp add: apply_limits_def p1_def p2_def Let_def)
  moreover have "maxIdleConns (p2\<lparr>pool_maxLifetime := d\<rparr>) = maxIdleConns p2" for d
    by (simp add: maxIdleConns_def)
  ultimately show ?thesis
    using p1 p2 by (simp add: limits_ok_def SetConnMaxLifetime_def Let_def max_def)
qed

lemma New_success:
  assumes "postgres_New drv cfg s = (s', Inr i)"
  obtains db d where "sql_Open drv (pg_DSN cfg) = Inr db" and "pg_DSN cfg \<noteq> []"
    and "drv_Ping drv (apply_limits cfg db)
      (if pg_PingTimeout cfg \<le> 0 then defaultPingTimeout else pg_PingTimeout cfg) (ps_db s) = (d, None)"
    and "i = length (ps_pools s)" and "s' = s\<lparr>ps_pools := ps_pools s @ [apply_limits cfg db], ps_db := d\<rparr>"
  using assms by (auto simp: postgres_New_def Let_def split: if_splits sum.splits prod.splits option.splits)

lemma New_failure:
  assumes "postgres_New drv cfg s = (s', Inl err)"
  shows "open_pools s' = open_pools s"
  using assms sql_Open_cases [of drv "pg_DSN cfg"]
  by (auto simp: postgres_New_def Let_def open_pools_def Close_pool_def
      split: if_splits sum.splits prod.splits option.splits)

subsection \<open>Properties\<close>

text \<open>
  C33. Opening the database never leaks a pool: if \<open>New\<close> fails (empty DSN, DSN rejected, ping failed)
  the open pools are those of before, and the error is \<open>ErrEmptyDSN\<close> exactly for an empty DSN; if it
  succeeds, one pool was added, it is open, the server answered a ping within the configured or
  default time, and its limits are the configured ones, with idle connections capped by open ones.
\<close>
theorem postgres_New_no_leak:
  "case postgres_New drv cfg s of
     (s', Inl err) \<Rightarrow> open_pools s' = open_pools s \<and> (err = ErrEmptyDSN) = (pg_DSN cfg = [])
   | (s', Inr i) \<Rightarrow>
       i = length (ps_pools s) \<and> pg_DSN cfg \<noteq> [] \<and>
       (\<exists>db d. s' = \<lparr>ps_pools = ps_pools s @ [db], ps_db = d\<rparr> \<and> \<not> pool_closed db \<and>
          pool_dsn db = pg_DSN cfg \<and> limits_ok cfg db \<and>
          drv_Ping drv db (if pg_PingTimeout cfg \<le> 0 then 5 * Second else pg_PingTimeout cfg) (ps_db s) = (d, None))"
proof (cases "postgres_New drv cfg s")
  case (Pair s' res)
  show ?thesis
  proof (cases res)
    case (Inl err)
    have "(err = ErrEmptyDSN) = (pg_DSN cfg = [])"
      using Pair Inl
      by (auto simp: postgres_New_def Let_def split: if_splits sum.splits prod.splits option.splits)
    then show ?thesis using Pair Inl New_failure [of drv cfg s s' err] by simp
  next
    case (Inr i)
    then obtain db d where n: "sql_Open drv (pg_DSN cfg) = Inr db" "pg_DSN cfg \<noteq> []"
      "drv_Ping drv (apply_limits cfg db)
        (if pg_PingTimeout cfg \<le> 0 then defaultPingTimeout else pg_PingTimeout cfg) (ps_db s) = (d, None)"
      "i = length (ps_pools s)" "s' = s\<lparr>ps_pools := ps_pools s @ [apply_limits cfg db], ps_db := d\<rparr>"
      using Pair New_success [of drv cfg s s' i] by auto
    have "s' = \<lparr>ps_pools = ps_pools s @ [apply_limits cfg db], ps_db = d\<rparr>" using n(5) by simp
    moreover have "\<not> pool_closed (apply_limits cfg db)" "pool_dsn (apply_limits cfg db) = pg_DSN cfg"
      by (simp_all add: sql_Open_cases [OF n(1)])
    ultimately show ?thesis
      using Pair Inr n(2,3,4) apply_limits_ok [OF n(1), of cfg] by (auto simp: defaultPingTimeout_def)
  qed
qed

end
