(* ===== verification/Background_Jobs.thy ===== *)
theory Background_Jobs
  imports Go_Std "HOL-Library.Multiset"
begin

text \<open>
  \<open>pkg/background/registrar.go\<close>: the registrar of jobs and stop handlers. \<open>Run\<close> starts one goroutine
  per job and waits for the context or for the first result on a channel with room for every job;
  it is a step relation over the goroutines, the channel and the waiting caller. \<open>Stop\<close> runs the
  handlers in parallel, each writing its own slot of the result array; it is a fold over any
  schedule of the handlers.
\<close>

subsection \<open>The registrar\<close>

text \<open>A job or a handler is known by what identifies it; what it returns is decided when it runs.\<close>

record ('j, 'h) Registrar =
  jobs :: "'j list"
  stops :: "'h list"

definition Registrar_New :: "('j, 'h) Registrar" where
  "Registrar_New = \<lparr>jobs = [], stops = []\<rparr>"

definition RegisterJob :: "'j \<Rightarrow> ('j, 'h) Registrar \<Rightarrow> ('j, 'h) Registrar" where
  "RegisterJob j r = r\<lparr>jobs := jobs r @ [j]\<rparr>"

definition RegisterStopHandler :: "'h \<Rightarrow> ('j, 'h) Registrar \<Rightarrow> ('j, 'h) Registrar" where
  "RegisterStopHandler h r = r\<lparr>stops := stops r @ [h]\<rparr>"

subsection \<open>Run\<close>

text \<open>
  A goroutine runs its job, then sends the result, then is done. The channel keeps the results
  sent and not yet received; \<open>returned\<close> is the value \<open>Run\<close> returned, if it did.
\<close>

datatype goroutine = Running | Sending "goerror option" | Done "goerror option"

record run_state =
  routines :: "goroutine list"
  errs_chan :: "goerror option list"
  cancelled :: bool
  returned :: "goerror option option"

definition Run_start :: "('j, 'h) Registrar \<Rightarrow> run_state" where
  "Run_start r =
     \<lparr>routines = map (\<lambda>_. Running) (jobs r), errs_chan = [], cancelled = False, returned = None\<rparr>"

text \<open>The capacity of the channel is the number of jobs; a send on a full channel would block.\<close>

inductive run_step :: "run_state \<Rightarrow> run_state \<Rightarrow> bool" where
  job_returns: "i < length (routines s) \<Longrightarrow> routines s ! i = Running \<Longrightarrow>
     run_step s (s\<lparr>routines := (routines s)[i := Sending e]\<rparr>)"
| job_sends: "i < length (routines s) \<Longrightarrow> routines s ! i = Sending e \<Longrightarrow>
     length (errs_chan s) < length (routines s) \<Longrightarrow>
     run_step s (s\<lparr>routines := (routines s)[i := Done e], errs_chan := errs_chan s @ [e]\<rparr>)"
| cancel: "run_step s (s\<lparr>cancelled := True\<rparr>)"
| return_cancelled: "returned s = None \<Longrightarrow> cancelled s \<Longrightarrow> run_step s (s\<lparr>returned := Some None\<rparr>)"
| return_result: "returned s = None \<Longrightarrow> errs_chan s = e # es \<Longrightarrow>
     run_step s (s\<lparr>returned := Some e, errs_chan := es\<rparr>)"

inductive_cases run_stepE: "run_step s s'"

subsection \<open>Stop\<close>

text \<open>One goroutine of \<open>Stop\<close>: \<open>errs[idx] = handler()\<close>. \<open>result\<close> gives what each handler returns.\<close>

definition stop_slot :: "('h \<Rightarrow> goerror option) \<Rightarrow> 'h list \<Rightarrow> nat \<Rightarrow> goerror option list
    \<Rightarrow> goerror option list" where
  "stop_slot result hs idx errs = errs[idx := result (hs ! idx)]"

text \<open>\<open>Stop\<close> under a schedule: the order in which the goroutines write their slots.\<close>

definition Registrar_Stop :: "('h \<Rightarrow> goerror option) \<Rightarrow> nat list \<Rightarrow> ('j, 'h) Registrar
    \<Rightarrow> goerror option" where
  "Registrar_Stop result schedule r =
     (let hs = stops r;
          errs = fold (stop_slot result hs) schedule (replicate (length hs) None)
      in errors_Join errs)"

subsection \<open>Lemmas on Run\<close>

definition is_done :: "goroutine \<Rightarrow> bool" where
  "is_done g = (case g of Done _ \<Rightarrow> True | _ \<Rightarrow> False)"

definition done_count :: "run_state \<Rightarrow> nat" where
  "done_count s = length (filter is_done (routines s))"

text \<open>
  Every result in the channel or returned was sent by a goroutine that is done, so there is always
  room for the next.
\<close>

definition run_inv :: "run_state \<Rightarrow> bool" where
  "run_inv s =
     (length (errs_chan s) \<le> done_count s \<and>
      set (errs_chan s) \<subseteq> {e. Done e \<in> set (routines s)} \<and>
      (\<forall>r. returned s = Some r \<longrightarrow> r = None \<and> cancelled s \<or> Done r \<in> set (routines s)))"

lemma filter_done_update:
  "i < length xs \<Longrightarrow> \<not> is_done (xs ! i) \<Longrightarrow>
     length (filter is_done (xs[i := g])) = length (filter is_done xs) + (if is_done g then 1 else 0)"
proof (induction xs arbitrary: i)
  case (Cons x xs)
  then show ?case by (cases i) auto
qed simp

lemma Done_update:
  assumes "i < length xs" and "\<not> is_done (xs ! i)" and "Done e \<in> set xs"
  shows "Done e \<in> set (xs[i := g])"
proof -
  obtain j where j: "j < length xs" "xs ! j = Done e" using assms(3) by (auto simp: in_set_conv_nth)
  then have "j \<noteq> i" using assms(2) by (auto simp: is_done_def)
  then have "xs[i := g] ! j = Done e" using j by simp
  then show ?thesis using j(1) by (metis length_list_update nth_mem)
qed

lemma run_inv_step:
  assumes "run_inv s" and "run_step s s'"
  shows "run_inv s'"
  using assms(2)
proof (cases rule: run_step.cases)
  case (job_returns i e)
  then have "\<not> is_done (routines s ! i)" by (simp add: is_done_def)
  then show ?thesis
    using assms(1) job_returns filter_done_update [of i "routines s" "Sending e"]
      Done_update [of i "routines s" _ "Sending e"]
    by (auto simp: run_inv_def done_count_def is_done_def)
next
  case (job_sends i e)
  then have nd: "\<not> is_done (routines s ! i)" by (simp add: is_done_def)
  have "Done e \<in> set ((routines s)[i := Done e])" using job_sends(2) by (rule set_update_memI)
  then show ?thesis
    using assms(1) job_sends nd filter_done_update [of i "routines s" "Done e"]
      Done_update [of i "routines s" _ "Done e"]
    by (auto simp: run_inv_def done_count_def is_done_def)
qed (use assms(1) in \<open>auto simp: run_inv_def done_count_def\<close>)

lemma run_inv_start: "run_inv (Run_start r)"
  by (simp add: run_inv_def Run_start_def)

lemma run_inv_reachable: "run_step\<^sup>*\<^sup>* (Run_start r) s \<Longrightarrow> run_inv s"
  by (induction rule: rtranclp_induct) (auto intro: run_inv_start run_inv_step)

lemma routines_length: "run_step\<^sup>*\<^sup>* (Run_start r) s \<Longrightarrow> length (routines s) = length (jobs r)"
proof (induction rule: rtranclp_induct)
  case (step s s')
  from step(2,3) show ?case by cases simp_all
qed (simp add: Run_start_def)

lemma room_to_send:
  assumes "run_inv s" and "i < length (routines s)" and "\<not> is_done (routines s ! i)"
  shows "length (errs_chan s) < length (routines s)"
proof -
  have "length (filter is_done (routines s)) < length (routines s)"
    using assms(2,3) by (intro length_filter_less) auto
  then show ?thesis using assms(1) by (simp add: run_inv_def done_count_def)
qed

subsection \<open>Lemmas on Stop\<close>

lemma stop_slots_length [simp]: "length (fold (stop_slot f hs) is errs) = length errs"
  by (induction "is" arbitrary: errs) (simp_all add: stop_slot_def)

lemma stop_slots_nth:
  "j < length errs \<Longrightarrow> distinct is \<Longrightarrow>
     fold (stop_slot f hs) is errs ! j = (if j \<in> set is then f (hs ! j) else errs ! j)"
proof (induction "is" arbitrary: errs)
  case (Cons i "is")
  have "fold (stop_slot f hs) is (stop_slot f hs i errs) ! j =
      (if j \<in> set is then f (hs ! j) else stop_slot f hs i errs ! j)"
    using Cons.prems by (intro Cons.IH) (simp_all add: stop_slot_def)
  moreover have "stop_slot f hs i errs ! j = (if j = i then f (hs ! j) else errs ! j)"
    using Cons.prems(1) by (simp add: stop_slot_def)
  ultimately show ?case by (cases "j = i") simp_all
qed simp

lemma stop_any_schedule:
  assumes "mset schedule = mset [0..<length hs]"
  shows "fold (stop_slot f hs) schedule (replicate (length hs) None) = map f hs"
proof (rule nth_equalityI)
  have sched: "set schedule = {..<length hs}" "distinct schedule"
    using mset_eq_setD [OF assms] mset_eq_imp_distinct_iff [OF assms] by (simp_all add: atLeast0LessThan)
  show "length (fold (stop_slot f hs) schedule (replicate (length hs) None)) = length (map f hs)" by simp
  fix j assume "j < length (fold (stop_slot f hs) schedule (replicate (length hs) None))"
  then show "fold (stop_slot f hs) schedule (replicate (length hs) None) ! j = map f hs ! j"
    using sched by (simp add: stop_slots_nth)
qed

subsection \<open>Stop handlers that act on a state\<close>

text \<open>
  \<open>Stop\<close> with the effects of the handlers: one goroutine runs its handler on the shared state and
  writes its slot. Handlers that do not influence each other's result, and each of which keeps what
  another has stopped stopped, behave the same under every schedule.
\<close>

definition stop_goroutine :: "('h \<Rightarrow> 's \<Rightarrow> 's \<times> goerror option) \<Rightarrow> 'h list \<Rightarrow> nat
    \<Rightarrow> 's \<times> goerror option list \<Rightarrow> 's \<times> goerror option list" where
  "stop_goroutine exec hs idx = (\<lambda>(s, errs).
     case exec (hs ! idx) s of (s', e) \<Rightarrow> (s', errs[idx := e]))"

definition Stop_effects :: "('h \<Rightarrow> 's \<Rightarrow> 's \<times> goerror option) \<Rightarrow> nat list \<Rightarrow> ('j, 'h) Registrar \<Rightarrow> 's
    \<Rightarrow> 's \<times> goerror option" where
  "Stop_effects exec schedule r s =
     (case fold (stop_goroutine exec (stops r)) schedule (s, replicate (length (stops r)) None) of
        (s', errs) \<Rightarrow> (s', errors_Join errs))"

lemma stop_goroutine_simp [simp]:
  "stop_goroutine exec hs idx (s, errs) =
     (fst (exec (hs ! idx) s), errs[idx := snd (exec (hs ! idx) s)])"
  by (simp add: stop_goroutine_def split_beta)

lemma goroutines_invariant:
  assumes "\<And>h s. h \<in> set hs \<Longrightarrow> P s \<Longrightarrow> P (fst (exec h s))" and "set is \<subseteq> {..<length hs}" and "P s"
  shows "P (fst (fold (stop_goroutine exec hs) is (s, errs)))"
  using assms(2,3)
proof (induction "is" arbitrary: s errs)
  case (Cons i "is")
  then have "P (fst (exec (hs ! i) s))" using assms(1) by simp
  then show ?case using Cons by simp
qed simp

lemma Stop_effects_invariant:
  assumes "\<And>h s. h \<in> set (stops r) \<Longrightarrow> P s \<Longrightarrow> P (fst (exec h s))"
    and "mset schedule = mset [0..<length (stops r)]" and "P s"
  shows "P (fst (Stop_effects exec schedule r s))"
proof -
  have "set schedule \<subseteq> {..<length (stops r)}" using mset_eq_setD [OF assms(2)] by (simp add: atLeast0LessThan)
  then show ?thesis
    unfolding Stop_effects_def split_beta using goroutines_invariant [where P = P, OF assms(1)] assms(3) by simp
qed

locale stop_handlers =
  fixes exec :: "'h \<Rightarrow> 's \<Rightarrow> 's \<times> goerror option"
    and stopped :: "'h \<Rightarrow> 's \<Rightarrow> bool"
  assumes result_indep: "h \<noteq> h' \<Longrightarrow> snd (exec h (fst (exec h' s))) = snd (exec h s)"
    and exec_stops: "stopped h (fst (exec h s))"
    and exec_keeps: "stopped h s \<Longrightarrow> stopped h (fst (exec h' s))"
begin

lemma goroutines_results:
  assumes "distinct hs" and "distinct is" and "set is \<subseteq> {..<length hs}"
    and "\<forall>j \<in> set is. snd (exec (hs ! j) s) = result (hs ! j)"
  shows "snd (fold (stop_goroutine exec hs) is (s, errs)) = fold (stop_slot result hs) is errs"
  using assms(2-)
proof (induction "is" arbitrary: s errs)
  case (Cons i "is")
  let ?s = "fst (exec (hs ! i) s)"
  have i: "snd (exec (hs ! i) s) = result (hs ! i)" using Cons.prems(3) by simp
  have "\<forall>j \<in> set is. snd (exec (hs ! j) ?s) = result (hs ! j)"
  proof
    fix j assume j: "j \<in> set is"
    then have "hs ! j \<noteq> hs ! i"
      using Cons.prems assms(1) by (auto simp: nth_eq_iff_index_eq)
    then show "snd (exec (hs ! j) ?s) = result (hs ! j)" using Cons.prems(3) j by (simp add: result_indep)
  qed
  then have "snd (fold (stop_goroutine exec hs) is (?s, errs[i := result (hs ! i)])) =
      fold (stop_slot result hs) is (errs[i := result (hs ! i)])"
    using Cons.prems by (intro Cons.IH) auto
  then show ?case
    using i by (simp add: stop_slot_def [of _ _ i])
qed simp

lemma goroutines_keep: "stopped h s \<Longrightarrow> stopped h (fst (fold (stop_goroutine exec hs) is (s, errs)))"
proof (induction "is" arbitrary: s errs)
  case (Cons i "is")
  then show ?case
    using exec_keeps [OF Cons.prems, of "hs ! i"] by simp
qed simp

lemma goroutines_stop:
  "i \<in> set is \<Longrightarrow> stopped (hs ! i) (fst (fold (stop_goroutine exec hs) is (s, errs)))"
proof (induction "is" arbitrary: s errs)
  case (Cons j "is")
  show ?case
  proof (cases "i = j")
    case True
    then show ?thesis
      using goroutines_keep [OF exec_stops] by simp
  next
    case False
    then show ?thesis using Cons by simp
  qed
qed simp

lemma Stop_effects_result:
  assumes "distinct (stops r)" and "mset schedule = mset [0..<length (stops r)]"
  shows "snd (Stop_effects exec schedule r s) = Registrar_Stop (\<lambda>h. snd (exec h s)) schedule r"
proof -
  have sched: "distinct schedule" "set schedule = {..<length (stops r)}"
    using mset_eq_setD [OF assms(2)] mset_eq_imp_distinct_iff [OF assms(2)] by (simp_all add: atLeast0LessThan)
  have "snd (fold (stop_goroutine exec (stops r)) schedule (s, replicate (length (stops r)) None)) =
      fold (stop_slot (\<lambda>h. snd (exec h s)) (stops r)) schedule (replicate (length (stops r)) None)"
    using assms(1) sched by (intro goroutines_results) simp_all
  then show ?thesis by (simp add: Stop_effects_def Registrar_Stop_def split_beta Let_def)
qed

lemma Stop_effects_stopped:
  assumes "mset schedule = mset [0..<length (stops r)]" and "h \<in> set (stops r)"
  shows "stopped h (fst (Stop_effects exec schedule r s))"
proof -
  obtain i where i: "i < length (stops r)" "h = stops r ! i" using assms(2) by (auto simp: in_set_conv_nth)
  then have "i \<in> set schedule" using mset_eq_setD [OF assms(1)] by simp
  then show ?thesis
    unfolding i(2) Stop_effects_def split_beta by (simp add: goroutines_stop)
qed

end

subsection \<open>Properties\<close>

text \<open>
  C20. \<open>Run\<close> never leaves a job's goroutine stuck: in every reachable state, before and after it
  returned, a goroutine that has a result can send it at once, because the channel has room.
\<close>
theorem job_never_blocks:
  assumes "run_step\<^sup>*\<^sup>* (Run_start r) s" and "i < length (routines s)" and "routines s ! i = Sending e"
  shows "\<exists>s'. run_step s s' \<and> routines s' ! i = Done e"
proof -
  have "length (errs_chan s) < length (routines s)"
    using room_to_send [OF run_inv_reachable [OF assms(1)] assms(2)] assms(3) by (simp add: is_done_def)
  then have "run_step s (s\<lparr>routines := (routines s)[i := Done e], errs_chan := errs_chan s @ [e]\<rparr>)"
    using assms(2,3) by (intro run_step.job_sends)
  then show ?thesis using assms(2) by fastforce
qed

theorem job_never_blocks_witness:
  "\<exists>s'. run_step (\<lparr>routines = [Sending None], errs_chan = [], cancelled = False, returned = None\<rparr>) s' \<and>
     routines s' ! 0 = Done None"
proof -
  let ?r = "\<lparr>jobs = [()], stops = []\<rparr> :: (unit, unit) Registrar"
  let ?s = "\<lparr>routines = [Sending None], errs_chan = [], cancelled = False, returned = None\<rparr>"
  have "run_step (Run_start ?r) ?s"
    using run_step.job_returns [of 0 "Run_start ?r" None] by (simp add: Run_start_def)
  then show ?thesis
    using job_never_blocks [of ?r ?s 0 None, OF r_into_rtranclp] by simp
qed

text \<open>
  C21. What \<open>Run\<close> returns: nil because the context was cancelled, or the result of a job that has
  finished.
\<close>
theorem run_result:
  assumes "run_step\<^sup>*\<^sup>* (Run_start r) s" and "returned s = Some e"
  shows "e = None \<and> cancelled s \<or> Done e \<in> set (routines s)"
  using run_inv_reachable [OF assms(1)] assms(2) by (simp add: run_inv_def)

definition nil_job_state :: run_state where
  "nil_job_state = \<lparr>routines = [Done None, Running], errs_chan = [], cancelled = False, returned = Some None\<rparr>"

lemma nil_job_reachable:
  "run_step\<^sup>*\<^sup>* (Run_start (\<lparr>jobs = [True, False], stops = []\<rparr> :: (bool, unit) Registrar)) nil_job_state"
proof -
  let ?a = "Run_start (\<lparr>jobs = [True, False], stops = []\<rparr> :: (bool, unit) Registrar)"
  let ?b = "?a\<lparr>routines := [Sending None, Running]\<rparr>"
  let ?c = "?b\<lparr>routines := [Done None, Running], errs_chan := [None]\<rparr>"
  have "run_step ?a ?b" using run_step.job_returns [of 0 ?a None] by (simp add: Run_start_def)
  moreover have "run_step ?b ?c" using run_step.job_sends [of 0 ?b None] by (simp add: Run_start_def)
  moreover have "run_step ?c nil_job_state"
    using run_step.return_result [of ?c None "[]"] by (simp add: Run_start_def nil_job_state_def)
  ultimately show ?thesis by (meson converse_rtranclp_into_rtranclp rtranclp.rtrancl_refl)
qed

theorem run_result_witness:
  "returned nil_job_state = Some None \<and> \<not> cancelled nil_job_state \<and>
   (None = (None :: goerror option) \<and> cancelled nil_job_state \<or> Done None \<in> set (routines nil_job_state))"
  using run_result [OF nil_job_reachable, of None] by (simp add: nil_job_state_def)

text \<open>
  C22. \<open>Stop\<close> collects the result of every handler, in the order of registration, whatever order
  the parallel handlers finish in: it returns nil if and only if all of them succeeded, and
  otherwise an error that wraps each handler's error.
\<close>
theorem stop_joins_all_errors:
  assumes "mset schedule = mset [0..<length (stops r)]"
  shows "(Registrar_Stop f schedule r = None \<longleftrightarrow> (\<forall>h \<in> set (stops r). f h = None)) \<and>
    Registrar_Stop f schedule r = errors_Join (map f (stops r)) \<and>
    (\<forall>e t. Registrar_Stop f schedule r = Some e \<longrightarrow>
       (errors_Is e t \<longleftrightarrow> (\<exists>h \<in> set (stops r). \<exists>x. f h = Some x \<and> errors_Is x t)))"
proof -
  have stop: "Registrar_Stop f schedule r = errors_Join (map f (stops r))"
    using stop_any_schedule [OF assms, of f] by (simp add: Registrar_Stop_def)
  moreover have "errors_Join (map f (stops r)) = None \<longleftrightarrow> (\<forall>h \<in> set (stops r). f h = None)"
    by (simp add: errors_Join_None)
  moreover have "errors_Is e t \<longleftrightarrow> (\<exists>h \<in> set (stops r). \<exists>x. f h = Some x \<and> errors_Is x t)"
    if "errors_Join (map f (stops r)) = Some e" for e t
    using errors_Is_Join [OF that] by (auto simp: image_iff eq_commute [of "Some _"])
  ultimately show ?thesis by simp
qed

theorem stop_joins_all_errors_witness:
  "Registrar_Stop (\<lambda>h. if h = ''db'' then Some ErrNoRows else None) [1, 0, 2]
     (\<lparr>jobs = [], stops = [''logs'', ''db'', ''http'']\<rparr> :: (unit, string) Registrar) = Some (JoinError [ErrNoRows])"
proof -
  let ?r = "\<lparr>jobs = [], stops = [''logs'', ''db'', ''http'']\<rparr> :: (unit, string) Registrar"
  have "mset [1, 0, 2] = mset [0..<length (stops ?r)]" by (simp add: upt_rec)
  then show ?thesis
    using stop_joins_all_errors [of "[1, 0, 2]" ?r "\<lambda>h. if h = ''db'' then Some ErrNoRows else None"]
    by (simp add: errors_Join_def)
qed

end
