(* ===== verification/App_Root.thy ===== *)
theory App_Root
  imports App_Config Validation Http_Server Postgres_Pool Background_Jobs
begin

text \<open>
  The composition of the service: \<open>internal/root/*.go\<close> and \<open>cmd/main.go\<close>.
  \<open>Root_New\<close> opens the pool, warms the cache, builds the service, the API and the HTTP server, and
  registers the jobs and the stop handlers; \<open>Root_Run\<close> waits for the jobs and runs the stop handlers.
  The closures the code registers are constructors of \<open>job\<close> and \<open>stop\<close>. Packages outside the
  repository are the record \<open>packages\<close>.
\<close>

subsection \<open>The root\<close>

text \<open>The state of the running server: the table of rate limiters and the world of the service.\<close>

type_synonym ('db, 'l) served = "'l ipLimiterStore option \<times> ('db, TaskCache) world"

datatype ('db, 'l) job = ProcessLogs | MonitorMemory | ListenAndServe "('db, 'l) served http_Server"

datatype stop = StopLogger | CloseDB nat | ShutdownServer

record ('db, 'l) packages =
  pk_driver :: "'db pg_driver"
  pk_conv :: "int \<Rightarrow> uint64"
  pk_codec :: json_codec
  pk_validate :: validator
  pk_rate :: "'l rate_pkg"
  pk_url :: "('db, TaskCache) world url_pkg"
  pk_swagger :: "('db, TaskCache) world handler"

record ('db, 'l) Root =
  root_config :: Config
  root_logger :: "Logger option"
  root_taskService :: "('db, TaskCache) TaskService option"
  root_taskCache :: "TaskCache option"
  root_taskRepository :: "'db TaskRepository option"
  root_background :: "(('db, 'l) job, stop) Registrar"

definition RegisterBackgroundJob :: "('db, 'l) job \<Rightarrow> ('db, 'l) Root \<Rightarrow> ('db, 'l) Root" where
  "RegisterBackgroundJob j r = r\<lparr>root_background := RegisterJob j (root_background r)\<rparr>"

definition Root_RegisterStopHandler :: "stop \<Rightarrow> ('db, 'l) Root \<Rightarrow> ('db, 'l) Root" where
  "Root_RegisterStopHandler h r = r\<lparr>root_background := RegisterStopHandler h (root_background r)\<rparr>"

definition initObservability :: "Logger \<Rightarrow> ('db, 'l) Root \<Rightarrow> ('db, 'l) Root" where
  "initObservability logger r =
     Root_RegisterStopHandler StopLogger (RegisterBackgroundJob ProcessLogs (r\<lparr>root_logger := Some logger\<rparr>))"

definition initRepositories :: "('db, 'l) packages \<Rightarrow> ('db, 'l) Root \<Rightarrow> 'db pool_state
    \<Rightarrow> 'db pool_state \<times> (goerror + ('db, 'l) Root)" where
  "initRepositories pk r s =
     (let c = cfg_Database (root_config r)
      in case postgres_New (pk_driver pk)
           \<lparr>pg_DSN = db_DSN c, pg_MaxOpenConns = db_MaxOpenConns c, pg_MaxIdleConns = db_MaxIdleConns c,
            pg_ConnMaxLifetime = db_ConnMaxLifetime c, pg_PingTimeout = 0\<rparr> s of
           (s1, Inl err) \<Rightarrow> (s1, Inl err)
         | (s1, Inr db) \<Rightarrow>
             (let r1 = Root_RegisterStopHandler (CloseDB db) r
              in (s1, Inr (r1\<lparr>root_taskRepository :=
                    Some (NewTaskRepository (drv_Conn (pk_driver pk) (ps_pools s1 ! db)))\<rparr>))))"

definition initServices :: "('db, 'l) packages \<Rightarrow> ('db, 'l) Root \<Rightarrow> 'db pool_state
    \<Rightarrow> 'db pool_state \<times> (goerror + ('db, 'l) Root)" where
  "initServices pk r s =
     (let c = cfg_Cache (root_config r); repo = the (root_taskRepository r)
      in case NewTaskCache (pk_conv pk) (cc_MemoryCacheLimitMB c) (cc_MemoryMonitorCacheInterval c) repo (ps_db s) of
           (d, Inl err) \<Rightarrow> (s\<lparr>ps_db := d\<rparr>, Inl err)
         | (d, Inr taskCache) \<Rightarrow>
             (let r1 = r\<lparr>root_taskCache := Some taskCache\<rparr>;
                  r2 = RegisterBackgroundJob MonitorMemory r1
              in (s\<lparr>ps_db := d\<rparr>,
                  Inr (r2\<lparr>root_taskService := Some (NewTaskService (the (root_logger r2)) repo TaskCache_port)\<rparr>))))"

text \<open>\<open>KeepAliveTime + KeepAliveTimeout\<close> in 64 bits.\<close>

definition add_durations :: "duration \<Rightarrow> duration \<Rightarrow> duration" where
  "add_durations a b = sint (of_int (a + b) :: 64 word)"

definition root_api :: "('db, 'l) packages \<Rightarrow> ('db, 'l) Root \<Rightarrow> ('db, TaskCache) API" where
  "root_api pk r =
     NewAPI (NewResponseHandler (the (root_logger r)) [WithValidation (pk_validate pk)]) (the (root_taskService r))"

definition root_handler :: "env \<Rightarrow> ('db, 'l) packages \<Rightarrow> ('db, 'l) Root \<Rightarrow> ('db, 'l) served handler" where
  "root_handler env pk r =
     (let mux = mux_Handle [''swagger''] (pk_swagger pk) [];
          mux = mux_Handle []
            (Router_ServeHTTP (API_InitRoutes env (pk_codec pk) (root_api pk r) (cfg_RouteGroup (root_config r)))) mux;
          h = IPRateLimit (pk_rate pk) env (mux_ServeHTTP (pk_url pk) mux)
      in MaxBodyBytes (hs_MaxRequestBodyBytes (cfg_HTTPServer (root_config r))) h)"

definition root_limits :: "Config \<Rightarrow> IPRateLimitConfig" where
  "root_limits cfg =
     \<lparr>Rate = hs_IPRateLimit (cfg_HTTPServer cfg), Burst = hs_IPRateBurst (cfg_HTTPServer cfg),
      TTL = hs_IPRateLimiterTTL (cfg_HTTPServer cfg)\<rparr>"

definition initHTTPServer :: "env \<Rightarrow> ('db, 'l) packages \<Rightarrow> ('db, 'l) Root \<Rightarrow> ('db, 'l) Root" where
  "initHTTPServer env pk r =
     (let c = cfg_HTTPServer (root_config r);
          s = NewServer (root_handler env pk r)
            [Port (hs_ListenPort c),
             IdleTimeout (add_durations (hs_KeepAliveTime c) (hs_KeepAliveTimeout c)),
             ReadHeaderTimeout (hs_ReadHeaderTimeout c),
             ReadTimeout (hs_ReadTimeout c)];
          r1 = Root_RegisterStopHandler ShutdownServer r
      in RegisterBackgroundJob (ListenAndServe s) r1)"

definition Root_New :: "env \<Rightarrow> ('db, 'l) packages \<Rightarrow> Config \<Rightarrow> Logger \<Rightarrow> 'db pool_state
    \<Rightarrow> 'db pool_state \<times> (goerror + ('db, 'l) Root)" where
  "Root_New env pk config logger s =
     (let root = \<lparr>root_config = config, root_logger = None, root_taskService = None, root_taskCache = None,
                  root_taskRepository = None, root_background = Registrar_New\<rparr>;
          root = initObservability logger root
      in case initRepositories pk root s of
           (s1, Inl err) \<Rightarrow> (s1, Inl err)
         | (s1, Inr root) \<Rightarrow>
             (case initServices pk root s1 of
                (s2, Inl err) \<Rightarrow> (s2, Inl err)
              | (s2, Inr root) \<Rightarrow> (s2, Inr (initHTTPServer env pk root))))"

subsection \<open>Run and main\<close>

text \<open>
  What the stop handlers act on: the pools, the logger's context and the server. \<open>Shutdown\<close> returns
  \<open>shutdownErr\<close>, which is up to the open connections and to the context it is given.
\<close>

record 'db runtime = log_state +
  rt_pools :: "'db pool_state"
  rt_logger_cancelled :: bool
  rt_server_down :: bool

fun exec_stop :: "'db pg_driver \<Rightarrow> goerror option \<Rightarrow> stop \<Rightarrow> 'db runtime \<Rightarrow> 'db runtime \<times> goerror option" where
  "exec_stop drv shutdownErr StopLogger s = (s\<lparr>rt_logger_cancelled := True\<rparr>, None)"
| "exec_stop drv shutdownErr (CloseDB i) s =
     (case Close_pool drv i (rt_pools s) of (p, err) \<Rightarrow> (s\<lparr>rt_pools := p\<rparr>, err))"
| "exec_stop drv shutdownErr ShutdownServer s = (s\<lparr>rt_server_down := True\<rparr>, shutdownErr)"

text \<open>\<open>runErr\<close> is what \<open>background.Run\<close> returned; the deferred \<open>Stop\<close> runs under a schedule.\<close>

definition Root_Run :: "env \<Rightarrow> 'db pg_driver \<Rightarrow> goerror option \<Rightarrow> nat list \<Rightarrow> goerror option
    \<Rightarrow> ('db, 'l) Root \<Rightarrow> 'db runtime \<Rightarrow> 'db runtime \<times> goerror option" where
  "Root_Run env drv shutdownErr schedule runErr r s =
     (let l = the (root_logger r);
          s1 = (if runErr = None then Logger_Warn env l ''stopping application, context was cancelled'' s else s)
      in case Stop_effects (exec_stop drv shutdownErr) schedule (root_background r) s1 of
           (s2, stopErr) \<Rightarrow>
             ((case stopErr of None \<Rightarrow> s2 | Some e \<Rightarrow> Logger_Error env l ''stop handlers reported errors'' e s2),
              runErr))"

text \<open>
  How the process ends. \<open>log.Fatalf\<close> exits with status 1; so does \<open>logger.Fatal\<close> if it prints at all.
  \<open>run\<close> gives what \<open>background.Run\<close> returns for the registered jobs.
\<close>

datatype main_result = Exit int | Panic

definition fatal_exit :: "'a log_state_scheme \<Rightarrow> main_result \<Rightarrow> main_result" where
  "fatal_exit s otherwise = (if exited (stderr s) then Exit 1 else otherwise)"

definition main :: "env \<Rightarrow> config_pkgs \<Rightarrow> ('db, 'l) packages \<Rightarrow> ((('db, 'l) job, stop) Registrar \<Rightarrow> goerror option)
    \<Rightarrow> goerror option \<Rightarrow> nat list \<Rightarrow> environ \<Rightarrow> 'db pool_state \<Rightarrow> main_result" where
  "main env cpk pk run shutdownErr schedule e s =
     (case NewConfigFromFile cpk DotEnvFilename e of
        (_, Inl err) \<Rightarrow> Exit 1
      | (_, Inr cfg) \<Rightarrow>
          (case NewLogger (cfg_LogLevel cfg) (cfg_ServiceName cfg) (cfg_ReleaseID cfg) of
             Inl err \<Rightarrow> Exit 1
           | Inr logger \<Rightarrow>
               (let log0 = \<lparr>tick = 0, sent = [], stderr = \<lparr>printed = [], exited = False\<rparr>\<rparr>
                in case Root_New env pk cfg logger s of
                     (s1, Inl err) \<Rightarrow>
                       fatal_exit (Logger_Fatal env logger ''application could not been initialized'' err log0) Panic
                   | (s1, Inr application) \<Rightarrow>
                       (case Root_Run env (pk_driver pk) shutdownErr schedule (run (root_background application)) application
                               (log_state.extend log0 \<lparr>rt_pools = s1, rt_logger_cancelled = False, rt_server_down = False\<rparr>) of
                          (_, None) \<Rightarrow> Exit 0
                        | (s2, Some err) \<Rightarrow>
                            fatal_exit (Logger_Fatal env logger ''application terminated abnormally'' err s2) (Exit 0)))))"

subsection \<open>Lemmas on start-up\<close>

lemmas root_defs =
  Root_New_def initObservability_def initRepositories_def initServices_def initHTTPServer_def
  RegisterBackgroundJob_def Root_RegisterStopHandler_def

definition pool_config :: "Config \<Rightarrow> pg_Config" where
  "pool_config cfg =
     \<lparr>pg_DSN = db_DSN (cfg_Database cfg), pg_MaxOpenConns = db_MaxOpenConns (cfg_Database cfg),
      pg_MaxIdleConns = db_MaxIdleConns (cfg_Database cfg),
      pg_ConnMaxLifetime = db_ConnMaxLifetime (cfg_Database cfg), pg_PingTimeout = 0\<rparr>"

text \<open>The root after a successful start on a pool with a warm cache.\<close>

definition started_root :: "env \<Rightarrow> ('db, 'l) packages \<Rightarrow> Config \<Rightarrow> Logger \<Rightarrow> nat \<Rightarrow> 'db TaskRepository
    \<Rightarrow> TaskCache \<Rightarrow> ('db, 'l) Root" where
  "started_root env pk cfg l i repo c =
     (let r = \<lparr>root_config = cfg, root_logger = Some l,
               root_taskService = Some (NewTaskService l repo TaskCache_port), root_taskCache = Some c,
               root_taskRepository = Some repo,
               root_background = \<lparr>jobs = [ProcessLogs, MonitorMemory], stops = [StopLogger, CloseDB i]\<rparr>\<rparr>
      in initHTTPServer env pk r)"

lemma started_root_fields [simp]:
  "root_config (started_root env pk cfg l i repo c) = cfg"
  "root_logger (started_root env pk cfg l i repo c) = Some l"
  "root_taskService (started_root env pk cfg l i repo c) = Some (NewTaskService l repo TaskCache_port)"
  "root_taskCache (started_root env pk cfg l i repo c) = Some c"
  "root_taskRepository (started_root env pk cfg l i repo c) = Some repo"
  by (simp_all add: started_root_def initHTTPServer_def RegisterBackgroundJob_def Root_RegisterStopHandler_def Let_def)

definition started_server :: "env \<Rightarrow> ('db, 'l) packages \<Rightarrow> ('db, 'l) Root \<Rightarrow> ('db, 'l) served http_Server" where
  "started_server env pk r =
     (let c = cfg_HTTPServer (root_config r)
      in \<lparr>srv_Addr = '':'' @ hs_ListenPort c, srv_Handler = root_handler env pk r,
          srv_IdleTimeout = add_durations (hs_KeepAliveTime c) (hs_KeepAliveTimeout c),
          srv_ReadTimeout = hs_ReadTimeout c, srv_WriteTimeout = 10 * Second,
          srv_ReadHeaderTimeout = hs_ReadHeaderTimeout c\<rparr>)"

lemma root_handler_cong:
  "root_config r = root_config r' \<Longrightarrow> root_logger r = root_logger r' \<Longrightarrow> root_taskService r = root_taskService r' \<Longrightarrow>
     root_handler env pk r = root_handler env pk r'"
  by (simp add: root_handler_def root_api_def)

lemma started_root_background:
  "root_background (started_root env pk cfg l i repo c) =
     \<lparr>jobs = [ProcessLogs, MonitorMemory, ListenAndServe (started_server env pk (started_root env pk cfg l i repo c))],
      stops = [StopLogger, CloseDB i, ShutdownServer]\<rparr>"
proof -
  let ?r = "\<lparr>root_config = cfg, root_logger = Some l,
       root_taskService = Some (NewTaskService l repo TaskCache_port), root_taskCache = Some c,
       root_taskRepository = Some repo,
       root_background = \<lparr>jobs = [ProcessLogs, MonitorMemory], stops = [StopLogger, CloseDB i]\<rparr>\<rparr>"
  have "root_handler env pk ?r = root_handler env pk (started_root env pk cfg l i repo c)"
    by (rule root_handler_cong) simp_all
  then show ?thesis
    by (simp add: started_root_def initHTTPServer_def RegisterBackgroundJob_def Root_RegisterStopHandler_def
        RegisterJob_def RegisterStopHandler_def started_server_def NewServer_def option_defs default_defs
        JoinHostPort_def Let_def)
qed

lemma Root_New_cases:
  "Root_New env pk cfg l s =
     (case postgres_New (pk_driver pk) (pool_config cfg) s of
        (s1, Inl err) \<Rightarrow> (s1, Inl err)
      | (s1, Inr i) \<Rightarrow>
          (let repo = NewTaskRepository (drv_Conn (pk_driver pk) (ps_pools s1 ! i))
           in case NewTaskCache (pk_conv pk) (cc_MemoryCacheLimitMB (cfg_Cache cfg))
                     (cc_MemoryMonitorCacheInterval (cfg_Cache cfg)) repo (ps_db s1) of
                (d, Inl err) \<Rightarrow> (s1\<lparr>ps_db := d\<rparr>, Inl err)
              | (d, Inr c) \<Rightarrow> (s1\<lparr>ps_db := d\<rparr>, Inr (started_root env pk cfg l i repo c))))"
  by (simp add: root_defs pool_config_def started_root_def Registrar_New_def RegisterJob_def
      RegisterStopHandler_def Let_def split: prod.split sum.split)

subsection \<open>The handler in front of the API\<close>

definition front_handler :: "'l rate_pkg \<Rightarrow> env \<Rightarrow> 'a log_state_scheme url_pkg \<Rightarrow> 'a log_state_scheme handler \<Rightarrow> int
    \<Rightarrow> 'a log_state_scheme handler \<Rightarrow> ('l ipLimiterStore option \<times> 'a log_state_scheme) handler" where
  "front_handler pkg env url docs mb rest =
     MaxBodyBytes mb (IPRateLimit pkg env (mux_ServeHTTP url (two_mux ''swagger'' docs rest)))"

lemma root_handler_front:
  "root_handler env pk r =
     front_handler (pk_rate pk) env (pk_url pk) (pk_swagger pk)
       (hs_MaxRequestBodyBytes (cfg_HTTPServer (root_config r)))
       (Router_ServeHTTP (API_InitRoutes env (pk_codec pk) (root_api pk r) (cfg_RouteGroup (root_config r))))"
  by (simp add: root_handler_def front_handler_def two_mux_def)

text \<open>The request as the handlers behind the body limit see it.\<close>

definition limit_body :: "int \<Rightarrow> request \<Rightarrow> request" where
  "limit_body mb r = (if mb \<le> 0 then r else r\<lparr>req_Body := MaxBytesReader mb (req_Body r)\<rparr>)"

lemma MaxBodyBytes_limit: "MaxBodyBytes mb h r w s = h (limit_body mb r) w s"
  by (simp add: MaxBodyBytes_def limit_body_def)

lemma limit_body_fields [simp]:
  "req_Method (limit_body mb r) = req_Method r" "req_Path (limit_body mb r) = req_Path r"
  by (simp_all add: limit_body_def)

text \<open>Requests that go to the API once the rate limiter lets them pass.\<close>

definition api_request :: "'s url_pkg \<Rightarrow> request \<Rightarrow> bool" where
  "api_request url r = (clean_request url r \<and> first_segment url r \<noteq> ''swagger'')"

lemma http_Error_status: "rw_status w = None \<Longrightarrow> rw_status (http_Error msg code w) = Some code"
  by (simp add: http_Error_def Let_def Header_Set_def WriteHeader_def Write_bytes_fields)

lemma serve_two_mux:
  "serve_entry n r w s = rest r w s \<or> serve_entry n r w s = docs r w s \<or> snd (serve_entry n r w s) = s"
  if "n \<in> {None, Some ([], rest), Some ([''swagger''], docs)}"
  using that by (auto simp: serve_entry_def)

lemma two_mux_entries:
  "mux_match unesc (two_mux seg docs rest) path \<in> {None, Some ([], rest), Some ([seg], docs)}"
proof (cases "path = []")
  case True
  then show ?thesis by (simp add: mux_match_def two_mux_def mux_Handle_def pattern_matches_def)
qed (simp add: two_mux_match)

text \<open>The mux hands a request to the API, or to the documentation, or answers itself.\<close>

lemma two_mux_cases:
  fixes rest docs :: "'a log_state_scheme handler"
  assumes docs: "\<And>r w s. log_state.more (snd (docs r w s)) = log_state.more s"
    and redirect: "\<And>p r w s. log_state.more (snd (RedirectHandler url p r w s)) = log_state.more s"
  shows "mux_ServeHTTP url (two_mux ''swagger'' docs rest) r w s = rest r w s \<or>
    \<not> api_request url r \<and>
    log_state.more (snd (mux_ServeHTTP url (two_mux ''swagger'' docs rest) r w s)) = log_state.more s"
proof (cases "api_request url r")
  case True
  then show ?thesis by (simp add: api_request_def two_mux_serves_rest)
next
  case False
  let ?mux = "two_mux ''swagger'' docs rest"
  have entry: "serve_entry (mux_match (PathUnescape url) ?mux p) r w s = rest r w s \<or>
      log_state.more (snd (serve_entry (mux_match (PathUnescape url) ?mux p) r w s)) = log_state.more s" for p
    using serve_two_mux [OF two_mux_entries [of "PathUnescape url" "''swagger''" docs rest p], of r w s] docs
    by metis
  have mor: "matchOrRedirect (PathUnescape url) ?mux p =
      (if snd (matchOrRedirect (PathUnescape url) ?mux p) then (None, True)
       else (mux_match (PathUnescape url) ?mux p, False))" for p
    by (simp add: matchOrRedirect_def Let_def)
  show ?thesis
  proof (cases "EscapedPath url r = ''*''")
    case True
    then show ?thesis using False by (simp add: mux_ServeHTTP_def)
  next
    case nonstar: False
    show ?thesis
    proof (cases "req_Method r = ''CONNECT''")
      case True
      then show ?thesis
        using False nonstar entry [of "EscapedPath url r"] redirect by (simp add: mux_ServeHTTP_def Let_def)
    next
      case conn: False
      let ?p = "cleanPath (EscapedPath url r)"
      show ?thesis
        using False nonstar conn entry [of ?p] entry [of "EscapedPath url r"] redirect mor [of ?p]
        by (cases "snd (matchOrRedirect (PathUnescape url) ?mux ?p)") (simp_all add: mux_ServeHTTP_def Let_def)
    qed
  qed
qed

subsection \<open>Runs of the application\<close>

datatype app_event = AppReq request "goerror option" | AppMonitor "monitor_event list" | AppGc time

fun app_run :: "('db, 'l) served handler \<Rightarrow> app_event list \<Rightarrow> ('db, 'l) served \<Rightarrow> ('db, 'l) served \<times> ResponseWriter list" where
  "app_run h [] st = (st, [])"
| "app_run h (AppReq req broken # es) st =
     (case h req (new_writer broken) st of (w, st1) \<Rightarrow>
        (case app_run h es st1 of (st2, ws) \<Rightarrow> (st2, w # ws)))"
| "app_run h (AppMonitor ms # es) (ls, s) =
     app_run h es (ls, s\<lparr>w_cache := snd (TaskCache_Run ms (w_cache s))\<rparr>)"
| "app_run h (AppGc t # es) (ls, s) = app_run h es (map_option (limiter_gc t) ls, s)"

text \<open>
  The specification of a run: as for the API alone, but a request may be turned away by the rate
  limiter, and one whose path is not that of the API leaves the tasks alone.
\<close>

inductive app_trace :: "(time \<Rightarrow> time) \<Rightarrow> ResponseHandler \<Rightarrow> json_codec \<Rightarrow> seg list \<Rightarrow> 's url_pkg \<Rightarrow> int \<Rightarrow> bool
    \<Rightarrow> (uint64 \<rightharpoonup> Task) \<Rightarrow> app_event list \<Rightarrow> ResponseWriter list \<Rightarrow> (uint64 \<rightharpoonup> Task) \<Rightarrow> bool"
  for stamp h codec gs url mb limiting where
  over: "app_trace stamp h codec gs url mb limiting m [] [] m"
| limited: "limiting \<Longrightarrow> rw_status w = Some StatusTooManyRequests \<Longrightarrow>
     app_trace stamp h codec gs url mb limiting m es ws m' \<Longrightarrow>
     app_trace stamp h codec gs url mb limiting m (AppReq req broken # es) (w # ws) m'"
| elsewhere: "\<not> api_request url (limit_body mb req) \<Longrightarrow>
     app_trace stamp h codec gs url mb limiting m es ws m' \<Longrightarrow>
     app_trace stamp h codec gs url mb limiting m (AppReq req broken # es) (w # ws) m'"
| refused: "call_of h codec gs now (limit_body mb req) = Inl st \<Longrightarrow>
     answered codec (new_writer broken) st None w \<Longrightarrow>
     app_trace stamp h codec gs url mb limiting m es ws m' \<Longrightarrow>
     app_trace stamp h codec gs url mb limiting m (AppReq req broken # es) (w # ws) m'"
| served: "call_of h codec gs now (limit_body mb req) = Inr c \<Longrightarrow> spec_call stamp c m res m1 \<Longrightarrow>
     answered codec (new_writer broken) (fst (reply_of c res)) (snd (reply_of c res)) w \<Longrightarrow>
     app_trace stamp h codec gs url mb limiting m1 es ws m' \<Longrightarrow>
     app_trace stamp h codec gs url mb limiting m (AppReq req broken # es) (w # ws) m'"
| monitor: "app_trace stamp h codec gs url mb limiting m es ws m' \<Longrightarrow>
     app_trace stamp h codec gs url mb limiting m (AppMonitor ms # es) ws m'"
| gc: "app_trace stamp h codec gs url mb limiting m es ws m' \<Longrightarrow>
     app_trace stamp h codec gs url mb limiting m (AppGc t # es) ws m'"

text \<open>The rate limiter: it answers 429, or hands the request on with the clock advanced.\<close>

lemma IPRateLimit_cases:
  assumes "IPRateLimit pkg env h r w (ls, s) = (w', ls', s')" and "rw_status w = None"
  shows "(ls \<noteq> None \<and> rw_status w' = Some StatusTooManyRequests \<and> log_state.more s' = log_state.more s \<or>
      (\<exists>s0. log_state.more s0 = log_state.more s \<and> h r w s0 = (w', s'))) \<and> (ls' = None) = (ls = None)"
proof (cases ls)
  case None
  then show ?thesis using assms(1) by (auto simp: IPRateLimit_def split: prod.splits)
next
  case (Some lt)
  let ?s2 = "s\<lparr>tick := Suc (Suc (tick s))\<rparr>"
  let ?hit = "limiter_hit pkg (clientIP r) (clock env (tick s)) (clock env (Suc (tick s))) lt"
  let ?e = "http_Error ''Too Many Requests'' StatusTooManyRequests (Header_Set ''Retry-After'' ''1'' w)"
  have run: "(w', ls', s') =
      (if \<not> snd ?hit then (?e, Some (fst ?hit), ?s2)
       else case h r w ?s2 of (w', s') \<Rightarrow> (w', Some (fst ?hit), s'))"
    using assms(1) Some by (simp add: IPRateLimit_def time_Now_def split_beta Let_def cong: if_cong)
  show ?thesis
  proof (cases "snd ?hit")
    case True
    have "h r w ?s2 = (w', s')" "ls' = Some (fst ?hit)" using run True by (simp_all add: split_beta)
    then show ?thesis using Some by (auto intro!: exI [of _ ?s2])
  next
    case False
    have "rw_status ?e = Some StatusTooManyRequests"
      using assms(2) by (intro http_Error_status) (simp add: Header_Set_def)
    then show ?thesis using run False Some by simp
  qed
qed

lemma app_trace_request:
  assumes "app_trace stamp h codec gs url mb limiting m1 es ws m'"
    and "m1 = m \<and> (limiting \<and> rw_status w = Some StatusTooManyRequests \<or> \<not> api_request url (limit_body mb req)) \<or>
     (\<exists>now. case call_of h codec gs now (limit_body mb req) of
        Inl st \<Rightarrow> answered codec (new_writer broken) st None w \<and> m1 = m
      | Inr c \<Rightarrow> \<exists>res. spec_call stamp c m res m1 \<and>
          answered codec (new_writer broken) (fst (reply_of c res)) (snd (reply_of c res)) w)"
  shows "app_trace stamp h codec gs url mb limiting m (AppReq req broken # es) (w # ws) m'"
  using assms(2)
proof (elim disjE exE conjE)
  fix now assume "case call_of h codec gs now (limit_body mb req) of
        Inl st \<Rightarrow> answered codec (new_writer broken) st None w \<and> m1 = m
      | Inr c \<Rightarrow> \<exists>res. spec_call stamp c m res m1 \<and>
          answered codec (new_writer broken) (fst (reply_of c res)) (snd (reply_of c res)) w"
  then show ?thesis
    using assms(1)
    by (cases "call_of h codec gs now (limit_body mb req)") (auto intro: app_trace.refused app_trace.served)
qed (use assms(1) in \<open>simp_all add: app_trace.limited app_trace.elsewhere\<close>)

context tasks_table
begin

lemma front_step:
  fixes docs :: "('db, TaskCache) world handler"
  assumes sound: "svc.sound s" and gs: "group_ok gs"
    and docs: "\<And>r w s. log_state.more (snd (docs r w s)) = log_state.more s"
    and redirect: "\<And>p r w s. log_state.more (snd (RedirectHandler url p r w s)) = log_state.more s"
    and run: "front_handler pkg env url docs mb
      (Router_ServeHTTP (API_InitRoutes env codec (NewAPI h (NewTaskService l (NewTaskRepository db) TaskCache_port)) (render gs)))
      req (new_writer broken) (ls, s) = (w, ls', s')"
  shows "svc.sound s' \<and> (ls' = None) = (ls = None) \<and>
    (tasks_of (tbl (w_repo s')) = tasks_of (tbl (w_repo s)) \<and>
       (ls \<noteq> None \<and> rw_status w = Some StatusTooManyRequests \<or> \<not> api_request url (limit_body mb req)) \<or>
     (\<exists>now. case call_of h codec gs now (limit_body mb req) of
        Inl st \<Rightarrow> answered codec (new_writer broken) st None w \<and> tasks_of (tbl (w_repo s')) = tasks_of (tbl (w_repo s))
      | Inr c \<Rightarrow> \<exists>res. spec_call stamp c (tasks_of (tbl (w_repo s))) res (tasks_of (tbl (w_repo s'))) \<and>
          answered codec (new_writer broken) (fst (reply_of c res)) (snd (reply_of c res)) w))"
proof -
  let ?api = "NewAPI h (NewTaskService l (NewTaskRepository db) TaskCache_port)"
  let ?rest = "Router_ServeHTTP (API_InitRoutes env codec ?api (render gs))"
  let ?mux = "mux_ServeHTTP url (two_mux ''swagger'' docs ?rest)"
  let ?req = "limit_body mb req" and ?w = "new_writer broken"
  have "IPRateLimit pkg env ?mux ?req ?w (ls, s) = (w, ls', s')"
    using run by (simp add: front_handler_def MaxBodyBytes_limit)
  from IPRateLimit_cases [OF this] have ls: "(ls' = None) = (ls = None)"
    and "ls \<noteq> None \<and> rw_status w = Some StatusTooManyRequests \<and> log_state.more s' = log_state.more s \<or>
      (\<exists>s0. log_state.more s0 = log_state.more s \<and> ?mux ?req ?w s0 = (w, s'))" by simp_all
  then consider (limited) "ls \<noteq> None" "rw_status w = Some StatusTooManyRequests" "log_state.more s' = log_state.more s"
    | (passed) s0 where "log_state.more s0 = log_state.more s" "?mux ?req ?w s0 = (w, s')" by blast
  then show ?thesis
  proof cases
    case limited
    then show ?thesis
      using sound ls svc.sound_more [of s' s] world_more(1) [of s' s] by simp
  next
    case passed
    have sound0: "svc.sound s0" using sound svc.sound_more [OF passed(1)] by simp
    have repo0: "w_repo s0 = w_repo s" using world_more(1) [OF passed(1)] .
    from two_mux_cases [of docs url ?rest ?req ?w s0, OF docs redirect] passed(2)
    consider (api) "?rest ?req ?w s0 = (w, s')"
      | (docs) "\<not> api_request url ?req" "log_state.more s' = log_state.more s0" by auto
    then show ?thesis
    proof cases
      case api
      let ?now = "clock env (tick s0)"
      have "http_step env codec ?api (call_of h codec gs ?now ?req) ?w s0 (w, s')"
        using serve_step [OF gs, of ?w env codec ?api s0 ?req] api by (simp add: NewAPI_def)
      note st = svc.http_step_sound [OF sound0 _ this, of l, simplified NewAPI_def, simplified]
      show ?thesis using st ls repo0 by (intro conjI disjI2 exI [of _ ?now]) (simp_all cong: sum.case_cong)
    next
      case docs
      then show ?thesis
        using sound0 ls repo0 svc.sound_more [of s' s0] world_more(1) [of s' s0] by simp
    qed
  qed
qed

lemma front_run:
  fixes docs :: "('db, TaskCache) world handler"
  assumes "svc.sound s" and "group_ok gs"
    and "\<And>r w s. log_state.more (snd (docs r w s)) = log_state.more s"
    and "\<And>p r w s. log_state.more (snd (RedirectHandler url p r w s)) = log_state.more s"
    and "app_run (front_handler pkg env url docs mb
      (Router_ServeHTTP (API_InitRoutes env codec (NewAPI h (NewTaskService l (NewTaskRepository db) TaskCache_port)) (render gs))))
      es (ls, s) = ((ls', s'), ws)"
  shows "app_trace stamp h codec gs url mb (ls \<noteq> None) (tasks_of (tbl (w_repo s))) es ws (tasks_of (tbl (w_repo s')))"
  using assms(1,5)
proof (induction es arbitrary: ls s ws)
  case Nil
  then show ?case by (simp add: app_trace.over)
next
  case (Cons e es)
  let ?h = "front_handler pkg env url docs mb
    (Router_ServeHTTP (API_InitRoutes env codec (NewAPI h (NewTaskService l (NewTaskRepository db) TaskCache_port)) (render gs)))"
  show ?case
  proof (cases e)
    case (AppReq req broken)
    obtain w ls1 s1 where w: "?h req (new_writer broken) (ls, s) = (w, ls1, s1)" by (rule prod_cases3)
    obtain ws' where ws: "ws = w # ws'" and run: "app_run ?h es (ls1, s1) = ((ls', s'), ws')"
      using Cons.prems(2) AppReq w by (auto split: prod.splits)
    note st = front_step [OF Cons.prems(1) assms(2,3,4) w]
    have IH: "app_trace stamp h codec gs url mb (ls \<noteq> None) (tasks_of (tbl (w_repo s1))) es ws' (tasks_of (tbl (w_repo s')))"
      using Cons.IH [OF _ run] st by simp
    have "app_trace stamp h codec gs url mb (ls \<noteq> None) (tasks_of (tbl (w_repo s))) (AppReq req broken # es) (w # ws')
        (tasks_of (tbl (w_repo s')))"
      by (rule app_trace_request [OF IH]) (use st in blast)
    then show ?thesis using AppReq ws by simp
  next
    case (AppMonitor ms)
    have "svc.sound (s\<lparr>w_cache := snd (TaskCache_Run ms (w_cache s))\<rparr>)"
      using Cons.prems(1) tcm.drop_inv tcm.drop_lookup
      by (auto simp: svc.sound_def intro: coherent_drop)
    then show ?thesis
      using Cons.IH [of "s\<lparr>w_cache := snd (TaskCache_Run ms (w_cache s))\<rparr>" ls ws] Cons.prems(2) AppMonitor
      by (simp add: app_trace.monitor)
  next
    case (AppGc t)
    then show ?thesis
      using Cons.IH [of s "map_option (limiter_gc t) ls" ws] Cons.prems by (simp add: app_trace.gc)
  qed
qed

end

subsection \<open>The stop handlers\<close>

fun stop_done :: "stop \<Rightarrow> 'db runtime \<Rightarrow> bool" where
  "stop_done StopLogger s = rt_logger_cancelled s"
| "stop_done (CloseDB i) s = (i < length (ps_pools (rt_pools s)) \<longrightarrow> pool_closed (ps_pools (rt_pools s) ! i))"
| "stop_done ShutdownServer s = rt_server_down s"

lemma Close_pool_pools:
  "ps_pools (fst (Close_pool drv i s)) =
     (if pool_closed (ps_pools s ! i) then ps_pools s
      else (ps_pools s)[i := (ps_pools s ! i)\<lparr>pool_closed := True\<rparr>])"
  by (simp add: Close_pool_def Let_def)

lemma Close_pool_nth: "i \<noteq> j \<Longrightarrow> ps_pools (fst (Close_pool drv j s)) ! i = ps_pools s ! i"
  by (simp add: Close_pool_pools)

lemma Close_pool_keeps:
  "pool_closed (ps_pools s ! i) \<Longrightarrow> pool_closed (ps_pools (fst (Close_pool drv j s)) ! i)"
  by (cases "i = j") (simp_all add: Close_pool_nth, simp add: Close_pool_pools)

lemma Close_pool_length [simp]: "length (ps_pools (fst (Close_pool drv j s))) = length (ps_pools s)"
  by (simp add: Close_pool_pools)

lemma Close_pool_result: "snd (Close_pool drv i s) = (if pool_closed (ps_pools s ! i) then None else drv_Close drv (ps_pools s ! i))"
  by (simp add: Close_pool_def Let_def)

lemma exec_stop_pools:
  "rt_pools (fst (exec_stop drv e h s)) = (case h of CloseDB i \<Rightarrow> fst (Close_pool drv i (rt_pools s)) | _ \<Rightarrow> rt_pools s)"
  by (cases h) (simp_all add: split_beta)

interpretation shut: stop_handlers "exec_stop drv shutdownErr" stop_done for drv shutdownErr
proof (unfold_locales, goal_cases)
  case (1 h h' s)
  then show ?case
    by (cases h; cases h') (simp_all add: split_beta Close_pool_result Close_pool_nth)
next
  case (2 h s)
  then show ?case by (cases h) (simp_all add: split_beta Close_pool_pools)
next
  case (3 h s h')
  then show ?case
    by (cases h; cases h') (simp_all add: split_beta Close_pool_keeps)
qed

lemma Root_New_success:
  assumes "Root_New env pk cfg l s = (s', Inr r)"
  obtains s1 db d c where
    "postgres_New (pk_driver pk) (pool_config cfg) s = (s1, Inr (length (ps_pools s)))"
    and "ps_pools s1 = ps_pools s @ [db]" and "\<not> pool_closed db" and "limits_ok (pool_config cfg) db"
    and "NewTaskCache (pk_conv pk) (cc_MemoryCacheLimitMB (cfg_Cache cfg)) (cc_MemoryMonitorCacheInterval (cfg_Cache cfg))
      (NewTaskRepository (drv_Conn (pk_driver pk) db)) (ps_db s1) = (d, Inr c)"
    and "s' = s1\<lparr>ps_db := d\<rparr>"
    and "r = started_root env pk cfg l (length (ps_pools s)) (NewTaskRepository (drv_Conn (pk_driver pk) db)) c"
proof -
  obtain i s1 where new: "postgres_New (pk_driver pk) (pool_config cfg) s = (s1, Inr i)"
    using assms by (auto simp: Root_New_cases split: prod.splits sum.splits)
  obtain db where db: "sql_Open (pk_driver pk) (pg_DSN (pool_config cfg)) = Inr db" "i = length (ps_pools s)"
    "ps_pools s1 = ps_pools s @ [apply_limits (pool_config cfg) db]"
    by (rule New_success [OF new]) simp
  have "\<not> pool_closed (apply_limits (pool_config cfg) db)" by (simp add: sql_Open_cases [OF db(1)])
  then show ?thesis
    using that [of s1 "apply_limits (pool_config cfg) db"] assms new db apply_limits_ok [OF db(1), of "pool_config cfg"]
    by (auto simp: Root_New_cases Let_def split: prod.splits sum.splits)
qed

lemma runtime_more:
  assumes "log_state.more (s' :: 'db runtime) = log_state.more s"
  shows "rt_pools s' = rt_pools s" "rt_logger_cancelled s' = rt_logger_cancelled s" "rt_server_down s' = rt_server_down s"
  using assms by (cases s; cases s'; simp)+

lemma runtime_log:
  fixes s :: "'db runtime"
  shows "rt_pools (Logger_Warn env l msg s) = rt_pools s" "rt_pools (Logger_Error env l msg err s) = rt_pools s"
    "rt_logger_cancelled (Logger_Error env l msg err s) = rt_logger_cancelled s"
    "rt_server_down (Logger_Error env l msg err s) = rt_server_down s"
  by (rule runtime_more, simp add: log_simps)+

lemma mset_upt3: "mset [0..<3] = {#0, 1, 2#}"
  by (simp add: upt_rec numeral_eq_Suc)

text \<open>The stop handlers of a started root, under any schedule.\<close>

lemma started_stop:
  fixes s :: "'db runtime"
  assumes "stops (root_background r) = [StopLogger, CloseDB (length ps), ShutdownServer]"
    and "ps_pools (rt_pools s) = ps @ [db]" and "\<not> pool_closed db" and "mset schedule = {#0, 1, 2#}"
  shows "rt_logger_cancelled (fst (Stop_effects (exec_stop drv e) schedule (root_background r) s))"
    and "rt_server_down (fst (Stop_effects (exec_stop drv e) schedule (root_background r) s))"
    and "ps_pools (rt_pools (fst (Stop_effects (exec_stop drv e) schedule (root_background r) s))) = ps @ [db\<lparr>pool_closed := True\<rparr>]"
    and "snd (Stop_effects (exec_stop drv e) schedule (root_background r) s) = errors_Join [None, drv_Close drv db, e]"
    and "log_state.truncate (fst (Stop_effects (exec_stop drv e) schedule (root_background r) s)) = log_state.truncate s"
proof -
  let ?x = "exec_stop drv e" and ?r = "root_background r"
  let ?s = "fst (Stop_effects ?x schedule ?r s)"
  have sched: "mset schedule = mset [0..<length (stops ?r)]" using assms(1,4) mset_upt3 by simp
  note stopped = shut.Stop_effects_stopped [OF sched, where s = s, of _ drv e]
  show "rt_logger_cancelled ?s" "rt_server_down ?s"
    using stopped [of StopLogger] stopped [of ShutdownServer] assms(1) by simp_all
  let ?P = "\<lambda>s. ps_pools (rt_pools s) = ps @ [db] \<or> ps_pools (rt_pools s) = ps @ [db\<lparr>pool_closed := True\<rparr>]"
  have "?P ?s"
    by (rule Stop_effects_invariant [OF _ sched]) (auto simp: assms exec_stop_pools Close_pool_pools)
  moreover have "length ps < length (ps_pools (rt_pools ?s)) \<longrightarrow> pool_closed (ps_pools (rt_pools ?s) ! length ps)"
    using stopped [of "CloseDB (length ps)"] assms(1) by simp
  ultimately show "ps_pools (rt_pools ?s) = ps @ [db\<lparr>pool_closed := True\<rparr>]" using assms(3) by auto
  have "snd (Stop_effects ?x schedule ?r s) = Registrar_Stop (\<lambda>h. snd (?x h s)) schedule ?r"
    using sched by (intro shut.Stop_effects_result) (simp_all add: assms(1))
  also have "\<dots> = errors_Join (map (\<lambda>h. snd (?x h s)) (stops ?r))"
    using stop_any_schedule [OF sched] by (simp add: Registrar_Stop_def Let_def)
  finally show "snd (Stop_effects ?x schedule ?r s) = errors_Join [None, drv_Close drv db, e]"
    using assms by (simp add: split_beta Close_pool_result)
  show "log_state.truncate ?s = log_state.truncate s"
  proof (rule Stop_effects_invariant [OF _ sched, where P = "\<lambda>s'. log_state.truncate s' = log_state.truncate s"])
    fix h and s' :: "'db runtime" assume "log_state.truncate s' = log_state.truncate s"
    then show "log_state.truncate (fst (?x h s')) = log_state.truncate s"
      by (cases h) (simp_all add: log_state.defs split_beta)
  qed simp
qed

subsection \<open>Lemmas on main\<close>

lemma fatal_exits:
  assumes "NewLogger lvl name rel = Inr l"
  shows "exited (stderr (Logger_Fatal env l msg err s))"
proof -
  have "log_Level l \<le> FatalLevel"
    using assms by (auto simp: NewLogger_def parseLogLevel_def level_defs Let_def split: if_splits)
  then show ?thesis by (simp add: Logger_Fatal_def checkLevel_def core_Fatalf_def time_Now_def)
qed

lemma run_result_of: "Root_Run env drv shutdownErr schedule x r t = (t', y) \<Longrightarrow> y = x"
  by (auto simp: Root_Run_def Let_def split_beta)

subsection \<open>What the composition relies on\<close>

text \<open>
  Connections of every pool reach one tasks table, a ping does not change it, and the documentation
  handler and the redirects of the mux do not touch the service's stores.
\<close>

locale app_packages =
  fixes pk :: "('db, 'l) packages"
    and tbl :: "'db \<Rightarrow> int \<rightharpoonup> task_row"
    and stamp :: "time \<Rightarrow> time"
  assumes conn_table: "tasks_table (drv_Conn (pk_driver pk) p) tbl stamp"
    and ping_table: "tbl (fst (drv_Ping (pk_driver pk) p t d)) = tbl d"
    and swagger_pure: "log_state.more (snd (pk_swagger pk req w s)) = log_state.more s"
    and redirect_pure: "log_state.more (snd (RedirectHandler (pk_url pk) path req w s)) = log_state.more s"
begin

lemma New_keeps_table:
  assumes "postgres_New (pk_driver pk) cfg s = (s1, Inr i)"
  shows "tbl (ps_db s1) = tbl (ps_db s)"
proof (rule New_success [OF assms])
  fix db d assume "drv_Ping (pk_driver pk) (apply_limits cfg db)
    (if pg_PingTimeout cfg \<le> 0 then defaultPingTimeout else pg_PingTimeout cfg) (ps_db s) = (d, None)"
    and "s1 = s\<lparr>ps_pools := ps_pools s @ [apply_limits cfg db], ps_db := d\<rparr>"
  then show ?thesis by (metis fst_conv ping_table pool_state.select_convs(2) pool_state.surjective pool_state.update_convs(2))
qed

end

context tasks_table
begin

lemma started_app:
  fixes pk :: "('db, 'l) packages"
  assumes "NewTaskCache conv limit interval (NewTaskRepository db) d = (d', Inr c)" and "group_ok gs"
    and "\<And>r w s. log_state.more (snd (pk_swagger pk r w s)) = log_state.more s"
    and "\<And>p r w s. log_state.more (snd (RedirectHandler (pk_url pk) p r w s)) = log_state.more s"
    and "r = started_root env pk cfg l i (NewTaskRepository db) c" and "cfg_RouteGroup cfg = render gs"
    and "app_run (root_handler env pk r) es
      (ls, \<lparr>tick = n, sent = q, stderr = k, w_repo = d', w_cache = c\<rparr>) = ((ls', w), ws)"
  shows "app_trace stamp (NewResponseHandler l [WithValidation (pk_validate pk)]) (pk_codec pk) gs (pk_url pk)
    (hs_MaxRequestBodyBytes (cfg_HTTPServer cfg)) (ls \<noteq> None)
    (tasks_of (tbl d)) es ws (tasks_of (tbl (w_repo w)))"
proof -
  have h: "root_handler env pk r = front_handler (pk_rate pk) env (pk_url pk) (pk_swagger pk)
      (hs_MaxRequestBodyBytes (cfg_HTTPServer cfg))
      (Router_ServeHTTP (API_InitRoutes env (pk_codec pk)
        (NewAPI (NewResponseHandler l [WithValidation (pk_validate pk)])
          (NewTaskService l (NewTaskRepository db) TaskCache_port)) (render gs)))"
    using assms(5,6) by (simp add: root_handler_front root_api_def)
  show ?thesis
    using front_run [OF started_sound(1) [OF assms(1)] assms(2,3,4) assms(7) [unfolded h]]
      started_sound(2) [OF assms(1)] by simp
qed

end

context app_packages
begin

lemma app_refines:
  assumes "Root_New env pk cfg l s = (s', Inr r)" and "cfg_RouteGroup cfg = render gs" and "group_ok gs"
    and "app_run (root_handler env pk r) es
      (IPRateLimit_store (root_limits cfg),
       \<lparr>tick = n, sent = q, stderr = k, w_repo = ps_db s', w_cache = the (root_taskCache r)\<rparr>) = ((ls, w), ws)"
  shows "app_trace stamp (NewResponseHandler l [WithValidation (pk_validate pk)]) (pk_codec pk) gs (pk_url pk)
    (hs_MaxRequestBodyBytes (cfg_HTTPServer cfg)) (0 < hs_IPRateLimit (cfg_HTTPServer cfg))
    (tasks_of (tbl (ps_db s))) es ws (tasks_of (tbl (w_repo w)))"
proof -
  obtain s1 db d c where new: "postgres_New (pk_driver pk) (pool_config cfg) s = (s1, Inr (length (ps_pools s)))"
    and start: "NewTaskCache (pk_conv pk) (cc_MemoryCacheLimitMB (cfg_Cache cfg))
       (cc_MemoryMonitorCacheInterval (cfg_Cache cfg)) (NewTaskRepository (drv_Conn (pk_driver pk) db)) (ps_db s1) = (d, Inr c)"
      "s' = s1\<lparr>ps_db := d\<rparr>"
      "r = started_root env pk cfg l (length (ps_pools s)) (NewTaskRepository (drv_Conn (pk_driver pk) db)) c"
    by (rule Root_New_success [OF assms(1)])
  have "app_trace stamp (NewResponseHandler l [WithValidation (pk_validate pk)]) (pk_codec pk) gs (pk_url pk)
      (hs_MaxRequestBodyBytes (cfg_HTTPServer cfg)) (IPRateLimit_store (root_limits cfg) \<noteq> (None :: 'l ipLimiterStore option))
      (tasks_of (tbl (ps_db s1))) es ws (tasks_of (tbl (w_repo w)))"
    using tasks_table.started_app [OF conn_table start(1) assms(3) swagger_pure redirect_pure start(3) assms(2)] assms(4) start(2,3)
    by simp
  moreover have "(IPRateLimit_store (root_limits cfg) \<noteq> (None :: 'l ipLimiterStore option)) = (0 < hs_IPRateLimit (cfg_HTTPServer cfg))"
    by (simp add: IPRateLimit_store_def root_limits_def not_le)
  ultimately show ?thesis by (simp add: New_keeps_table [OF new])
qed

end

subsection \<open>Sample packages\<close>

definition sample_driver :: "pg pg_driver" where
  "sample_driver =
     \<lparr>drv_Connector = (\<lambda>_. None), drv_Ping = (\<lambda>p t d. (d, None)), drv_Close = (\<lambda>_. None), drv_Conn = (\<lambda>_. pg_db)\<rparr>"

definition sample_url :: "(pg, TaskCache) world url_pkg" where
  "sample_url =
     \<lparr>EscapedPath = req_Path, PathUnescape = (\<lambda>s. s),
      RedirectHandler = (\<lambda>p r w s. (WriteHeader 301 (Header_Set ''Location'' p w), s))\<rparr>"

definition sample_packages :: "(pg, tb) packages" where
  "sample_packages =
     \<lparr>pk_driver = sample_driver, pk_conv = (\<lambda>_. 0), pk_codec = sample_codec, pk_validate = check_tags,
      pk_rate = tb_pkg, pk_url = sample_url,
      pk_swagger = (\<lambda>r w s. (fst (Write_bytes ''docs'' w), s))\<rparr>"

interpretation sample: app_packages sample_packages pg_tbl pg_stamp
  by (intro app_packages.intro) (simp_all add: sample_packages_def sample_driver_def sample_url_def pg.tasks_table_axioms)

definition sample_config :: Config where
  "sample_config =
     (default_Config ''host=db'')\<lparr>cfg_RouteGroup := ''/api'',
       cfg_HTTPServer := (cfg_HTTPServer (default_Config []))\<lparr>hs_IPRateLimit := 1 / 1000, hs_IPRateBurst := 2\<rparr>\<rparr>"

definition app_req :: "string \<Rightarrow> string \<Rightarrow> string \<Rightarrow> app_event" where
  "app_req m path bs =
     AppReq \<lparr>req_Method = m, req_Path = path, req_Query = [], req_Header = [], req_RemoteAddr = ''10.0.0.1:9'',
       req_Body = \<lparr>body_bytes = bs, body_max = None\<rparr>, req_Params = None\<rparr> None"

definition app_requests :: "app_event list" where
  "app_requests =
     [app_req ''GET'' ''/api/tasks/one'' [], app_req ''GET'' ''/swagger/index.html'' [],
      app_req ''GET'' ''/api//tasks'' []]"

definition pools0 :: "pg pool_state" where
  "pools0 = \<lparr>ps_pools = [], ps_db = pg_empty\<rparr>"

definition sample_pool :: sqlPool where
  "sample_pool = \<lparr>pool_dsn = ''host=db'', pool_maxOpen = 10, pool_maxIdleCount = 5, pool_maxLifetime = 30 * Minute,
     pool_closed = False\<rparr>"

definition empty_cache :: TaskCache where
  "empty_cache = Cache_New (\<lambda>_. 0) 1024 (5 * Second)"

definition sample_root :: "(pg, tb) Root" where
  "sample_root = started_root sample_env sample_packages sample_config sample_logger 0 (NewTaskRepository pg_db) empty_cache"

lemma sample_New:
  "Root_New sample_env sample_packages sample_config sample_logger pools0 =
     (\<lparr>ps_pools = [sample_pool], ps_db = pg_empty\<rparr>, Inr sample_root)"
proof -
  have "postgres_New sample_driver (pool_config sample_config) pools0 = (\<lparr>ps_pools = [sample_pool], ps_db = pg_empty\<rparr>, Inr 0)"
    by (simp add: postgres_New_def sql_Open_def sample_driver_def pool_config_def sample_config_def default_Config_def
        pool_defs pools0_def sample_pool_def Second_def Minute_def)
  moreover have "NewTaskCache (\<lambda>_. 0) 1024 (5 * Second) (NewTaskRepository pg_db) pg_empty = (pg_empty, Inr empty_cache)"
    by code_simp
  ultimately show ?thesis
    by (simp add: Root_New_cases sample_packages_def sample_driver_def sample_config_def default_Config_def sample_root_def)
qed

subsection \<open>Properties\<close>


definition sample_app_run :: "app_event list \<Rightarrow> (pg, tb) served \<times> ResponseWriter list" where
  "sample_app_run es =
     app_run (root_handler sample_env sample_packages sample_root) es
       (IPRateLimit_store (root_limits sample_config),
        \<lparr>tick = 0, sent = [], stderr = empty_sink, w_repo = pg_empty, w_cache = empty_cache\<rparr>)"

lemma sample_app_statuses:
  "map rw_status (snd (sample_app_run app_requests)) = map Some [400, 200, 429]"
  by code_simp

lemma sample_api_group: "group_ok sample_group" "cfg_RouteGroup sample_config = render sample_group"
  by (simp_all add: group_ok_def sample_group_def plain_def sample_config_def default_Config_def render_def)


text \<open>
  C26. What a successful start sets up: exactly one new pool, open and with the configured limits; the
  service on the repository of that pool and on the cache warmed from it; three jobs (log processing,
  memory monitor, HTTP server) and three stop handlers (logger, database, server), in this order;
  and an HTTP server on the configured port and timeouts whose write timeout is always ten seconds.
\<close>
theorem startup_wiring:
  assumes "Root_New env pk cfg l s = (s', Inr r)"
  shows "\<exists>db d c. let i = length (ps_pools s); repo = NewTaskRepository (drv_Conn (pk_driver pk) db) in
    ps_pools s' = ps_pools s @ [db] \<and> \<not> pool_closed db \<and> limits_ok (pool_config cfg) db \<and>
    NewTaskCache (pk_conv pk) (cc_MemoryCacheLimitMB (cfg_Cache cfg)) (cc_MemoryMonitorCacheInterval (cfg_Cache cfg))
      repo d = (ps_db s', Inr c) \<and>
    root_taskCache r = Some c \<and> root_taskService r = Some (NewTaskService l repo TaskCache_port) \<and>
    jobs (root_background r) = [ProcessLogs, MonitorMemory, ListenAndServe (started_server env pk r)] \<and>
    stops (root_background r) = [StopLogger, CloseDB i, ShutdownServer]"
proof -
  obtain s1 db d c where start: "ps_pools s1 = ps_pools s @ [db]" "\<not> pool_closed db" "limits_ok (pool_config cfg) db"
    "NewTaskCache (pk_conv pk) (cc_MemoryCacheLimitMB (cfg_Cache cfg)) (cc_MemoryMonitorCacheInterval (cfg_Cache cfg))
       (NewTaskRepository (drv_Conn (pk_driver pk) db)) (ps_db s1) = (d, Inr c)"
    "s' = s1\<lparr>ps_db := d\<rparr>"
    "r = started_root env pk cfg l (length (ps_pools s)) (NewTaskRepository (drv_Conn (pk_driver pk) db)) c"
    by (rule Root_New_success [OF assms])
  then show ?thesis
    by (intro exI [of _ db] exI [of _ "ps_db s1"] exI [of _ c]) (simp add: started_root_background)
qed

theorem startup_wiring_witness:
  "stops (root_background sample_root) = [StopLogger, CloseDB 0, ShutdownServer] \<and>
   srv_Addr (started_server sample_env sample_packages sample_root) = '':8888'' \<and>
   srv_WriteTimeout (started_server sample_env sample_packages sample_root) = 10 * Second"
  using startup_wiring [OF sample_New]
  by (auto simp: pools0_def started_server_def sample_root_def sample_config_def default_Config_def Let_def)

text \<open>
  C27. What a failed start leaves behind: either the database could not be opened and no pool is left
  open, or the cache could not be warmed from the database, and then the pool just opened stays open:
  its stop handler is registered on a root that is never returned.
\<close>
theorem startup_failure:
  assumes "Root_New env pk cfg l s = (s', Inl err)"
  shows "postgres_New (pk_driver pk) (pool_config cfg) s = (s', Inl err) \<and> open_pools s' = open_pools s \<or>
    (\<exists>db d. NewTaskCache (pk_conv pk) (cc_MemoryCacheLimitMB (cfg_Cache cfg)) (cc_MemoryMonitorCacheInterval (cfg_Cache cfg))
        (NewTaskRepository (drv_Conn (pk_driver pk) db)) d = (ps_db s', Inl err) \<and>
      open_pools s' = open_pools s @ [db])"
proof (cases "postgres_New (pk_driver pk) (pool_config cfg) s")
  case (Pair s1 res)
  show ?thesis
  proof (cases res)
    case (Inl e)
    then show ?thesis
      using assms Pair New_failure [of "pk_driver pk" "pool_config cfg" s s1 e] by (simp add: Root_New_cases)
  next
    case (Inr i)
    then have new: "postgres_New (pk_driver pk) (pool_config cfg) s = (s1, Inr i)" using Pair by simp
    obtain db where db: "sql_Open (pk_driver pk) (pg_DSN (pool_config cfg)) = Inr db" "i = length (ps_pools s)"
      "ps_pools s1 = ps_pools s @ [apply_limits (pool_config cfg) db]" by (rule New_success [OF new]) simp
    have "\<not> pool_closed (apply_limits (pool_config cfg) db)" by (simp add: sql_Open_cases [OF db(1)])
    then show ?thesis
      using assms new db(2,3)
      by (auto simp: Root_New_cases Let_def open_pools_def split: prod.splits sum.splits)
  qed
qed

definition failing_packages :: "(pg, tb) packages" where
  "failing_packages = sample_packages\<lparr>pk_driver := sample_driver\<lparr>drv_Conn := (\<lambda>_.
     \<lparr>QueryContext = (\<lambda>d q as. (d, Inl (ExtError ''down''))), ExecContext = (\<lambda>d q as. (d, Inl (ExtError ''down'')))\<rparr>)\<rparr>\<rparr>"

lemma failing_New:
  "Root_New sample_env failing_packages sample_config sample_logger pools0 =
     (\<lparr>ps_pools = [sample_pool], ps_db = pg_empty\<rparr>, Inl (Errorf ''list tasks'' (ExtError ''down'')))"
  by (simp add: Root_New_cases failing_packages_def sample_packages_def sample_driver_def postgres_New_def sql_Open_def
      pool_config_def sample_config_def default_Config_def pool_defs pools0_def sample_pool_def Second_def Minute_def
      NewTaskCache_def TaskCache_fill_def NewTaskRepository_def TaskRepository_List_def buildListQuery_def Let_def)

theorem startup_failure_witness:
  "open_pools (fst (Root_New sample_env failing_packages sample_config sample_logger pools0)) = [sample_pool] \<and>
   open_pools pools0 = []"
  using startup_failure [OF failing_New] unfolding failing_New fst_conv
  by (auto simp: open_pools_def pools0_def sample_pool_def)



text \<open>
  C29. How the process ends, on every path: it exits with status 1 if the configuration cannot be
  loaded, the log level is unknown, the application cannot be initialised, or a job ends with an
  error, and with status 0 exactly if the jobs ended without one. It never goes on with a nil
  application: every log level lets the fatal message through.
\<close>
theorem main_exit_status:
  "main env cpk pk run shutdownErr schedule e s =
     (case snd (NewConfigFromFile cpk DotEnvFilename e) of
        Inl err \<Rightarrow> Exit 1
      | Inr cfg \<Rightarrow>
          (case NewLogger (cfg_LogLevel cfg) (cfg_ServiceName cfg) (cfg_ReleaseID cfg) of
             Inl err \<Rightarrow> Exit 1
           | Inr logger \<Rightarrow>
               (case snd (Root_New env pk cfg logger s) of
                  Inl err \<Rightarrow> Exit 1
                | Inr application \<Rightarrow> Exit (if run (root_background application) = None then 0 else 1))))"
  by (auto simp: main_def Let_def fatal_exit_def fatal_exits dest: run_result_of
      split: prod.splits sum.splits option.splits)

text \<open>
  With the default settings (50 requests a second, bursts of 100, tables kept for ten minutes)
  no client address gets more than 100 requests plus 50 for every second of the period through the
  rate limiter, whatever requests of whatever addresses and collections of the table happen, as
  long as a request takes less than 598 seconds to reach its bucket.
\<close>
theorem default_rate_bound:
  assumes "token_bucket pkg level good" and "IPRateLimit_store (root_limits (default_Config dsn)) = Some s"
    and "timely d t es" and "d \<le> 598 * Second"
  shows "of_nat (admitted pkg ip es s) \<le> 100 + 50 * (of_int (end_time t es - t) / of_int Second :: rat)"
proof -
  have s: "store_rate s = 50" "store_burst s = 100" "store_ttl s = 10 * Minute"
    using assms(2) by (auto simp: IPRateLimit_store_def root_limits_def default_Config_def Minute_def Second_def)
  have "of_int (store_burst s) \<le> refill (store_rate s) (store_ttl s - d)"
  proof -
    have "2 * Second \<le> store_ttl s - d" using assms(4) by (simp add: s Minute_def)
    then have "(of_int (2 * Second) :: rat) \<le> of_int (store_ttl s - d)" by (simp only: of_int_le_iff)
    then show ?thesis by (simp add: s refill_def Second_def)
  qed
  then show ?thesis
    using token_bucket.rate_bound [OF assms(1,2,3), of ip] by (simp add: s refill_def)
qed

theorem default_rate_bound_witness:
  "\<exists>s. IPRateLimit_store (root_limits (default_Config ''host=db'')) = Some s \<and>
     of_nat (admitted tb_pkg ''a'' [Hit ''a'' 0 0, Gc Second, Hit ''a'' Second Second] s) \<le> (150 :: rat)"
proof -
  obtain s :: "tb ipLimiterStore" where s: "IPRateLimit_store (root_limits (default_Config ''host=db'')) = Some s"
    by (simp add: IPRateLimit_store_def root_limits_def default_Config_def)
  have "timely 0 0 [Hit ''a'' 0 0, Gc Second, Hit ''a'' Second Second]" by (simp add: Second_def)
  from default_rate_bound [OF tb.token_bucket_axioms s this, of "''a''"]
  have "of_nat (admitted tb_pkg ''a'' [Hit ''a'' 0 0, Gc Second, Hit ''a'' Second Second] s) \<le> (150 :: rat)"
    by (simp add: Second_def end_time_def)
  then show ?thesis using s by blast
qed

end
