(* ===== verification/Json.thy ===== *)
theory Json
  imports Utf8
begin

text \<open>
  The parts of package \<open>encoding/json\<close> the program uses: the text \<open>json.Marshal\<close> writes and the values
  \<open>json.Decoder\<close> reads. The scanner is the library's state machine, byte by byte, for strings, numbers
  and literals; above it a machine with the stack of open arrays and objects, which refuses more than
  10000 of them. The decoder takes the first value of its input and does not look at what follows.
  The theorem at the end of this theory is the round trip: what is written is read back.
\<close>

subsection \<open>Values and their text\<close>

text \<open>A number is its text; an object keeps its members in order, with repetitions.\<close>

datatype json =
    JNull
  | JBool bool
  | JNum string
  | JStr string
  | JArr "json list"
  | JObj "(string \<times> json) list"

abbreviation quote_char :: char where
  "quote_char \<equiv> CHR 0x22"

abbreviation backslash :: char where
  "backslash \<equiv> CHR 0x5C"

definition hex_digit :: "nat \<Rightarrow> char" where
  "hex_digit k = ''0123456789abcdef'' ! k"

definition code :: "char \<Rightarrow> nat" where
  "code c = of_char c"

text \<open>
  \<open>appendString\<close> with HTML escaping, which \<open>Marshal\<close> always asks for: quotes, backslashes and control
  characters are escaped, so are \<open><\<close>, \<open>>\<close>, \<open>&\<close> and the line separators \<open>U+2028\<close> and \<open>U+2029\<close>; a byte that
  belongs to no character is written as the escape of \<open>U+FFFD\<close>.
\<close>

definition unicode_escape :: "nat \<Rightarrow> string" where
  "unicode_escape n =
     [backslash, CHR ''u'', hex_digit (n div 4096 mod 16), hex_digit (n div 256 mod 16),
      hex_digit (n div 16 mod 16), hex_digit (n mod 16)]"

definition short_escapes :: "(char \<times> char) list" where
  "short_escapes =
     [(quote_char, quote_char), (backslash, backslash), (CHR 0x08, CHR ''b''), (CHR 0x0C, CHR ''f''),
      (CHR 0x0A, CHR ''n''), (CHR 0x0D, CHR ''r''), (CHR 0x09, CHR ''t'')]"

definition escape_ascii :: "char \<Rightarrow> string" where
  "escape_ascii c =
     (case map_of short_escapes c of
        Some e \<Rightarrow> [backslash, e]
      | None \<Rightarrow> if code c < 0x20 \<or> c \<in> set ''<>&'' then unicode_escape (code c) else [c])"

definition line_separator :: "char \<Rightarrow> string \<Rightarrow> nat option" where
  "line_separator c s =
     (if c = CHR 0xE2 \<and> take 2 s = [CHR 0x80, CHR 0xA8] then Some 0x2028
      else if c = CHR 0xE2 \<and> take 2 s = [CHR 0x80, CHR 0xA9] then Some 0x2029 else None)"

fun escape :: "string \<Rightarrow> string" where
  "escape [] = []"
| "escape (c # s) =
     (if is_ascii c then escape_ascii c @ escape s
      else if cont_len c s = 0 then unicode_escape 0xFFFD @ escape s
      else case line_separator c s of
          Some r \<Rightarrow> unicode_escape r @ escape (drop (cont_len c s) s)
        | None \<Rightarrow> c # take (cont_len c s) s @ escape (drop (cont_len c s) s))"

definition string_text :: "string \<Rightarrow> string" where
  "string_text s = quote_char # escape s @ [quote_char]"

fun json_text :: "json \<Rightarrow> string" where
  "json_text JNull = ''null''"
| "json_text (JBool b) = (if b then ''true'' else ''false'')"
| "json_text (JNum n) = n"
| "json_text (JStr s) = string_text s"
| "json_text (JArr vs) = ''['' @ strings_Join '','' (map json_text vs) @ '']''"
| "json_text (JObj ms) = ''{'' @ strings_Join '','' (map (\<lambda>m. string_text (fst m) @ '':'' @ json_text (snd m)) ms) @ ''}''"

subsection \<open>Reading strings\<close>

text \<open>The scanner on what follows the opening quote: the raw text up to the closing one.\<close>

datatype 'a scan = Scanned 'a string | ScanBad | ScanCut

datatype str_state = InString | InEsc | InHex nat

fun keep :: "char \<Rightarrow> string scan \<Rightarrow> string scan" where
  "keep c (Scanned s r) = Scanned (c # s) r"
| "keep c ScanBad = ScanBad"
| "keep c ScanCut = ScanCut"

definition is_hex :: "char \<Rightarrow> bool" where
  "is_hex c = (c \<in> set ''0123456789abcdefABCDEF'')"

fun str_next :: "str_state \<Rightarrow> char \<Rightarrow> str_state option" where
  "str_next InString c =
     (if c = backslash then Some InEsc else if code c < 0x20 then None else Some InString)"
| "str_next InEsc c =
     (if c \<in> set [quote_char, backslash] \<or> c \<in> set ''/bfnrt'' then Some InString
      else if c = CHR ''u'' then Some (InHex 3) else None)"
| "str_next (InHex n) c =
     (if \<not> is_hex c then None else if n = 0 then Some InString else Some (InHex (n - 1)))"

fun scan_string :: "str_state \<Rightarrow> string \<Rightarrow> string scan" where
  "scan_string st [] = ScanCut"
| "scan_string st (c # s) =
     (if st = InString \<and> c = quote_char then Scanned [] s
      else case str_next st c of None \<Rightarrow> ScanBad | Some st' \<Rightarrow> keep c (scan_string st' s))"

text \<open>\<open>unquote\<close> on the raw text: escapes, pairs of surrogates, invalid bytes.\<close>

definition hex_val :: "char \<Rightarrow> nat" where
  "hex_val c =
     (if code c < 0x3A then code c - 0x30 else if code c < 0x47 then code c - 0x37 else code c - 0x57)"

definition hex4 :: "string \<Rightarrow> nat" where
  "hex4 s = foldl (\<lambda>n c. n * 16 + hex_val c) 0 (take 4 s)"

definition is_surrogate :: "nat \<Rightarrow> bool" where
  "is_surrogate r = (0xD800 \<le> r \<and> r < 0xE000)"

text \<open>The character of a pair of surrogates, if the escape that follows completes one.\<close>

definition pair_rune :: "nat \<Rightarrow> string \<Rightarrow> nat option" where
  "pair_rune r s =
     (let r2 = hex4 (drop 2 s)
      in if take 2 s = [backslash, CHR ''u''] \<and> 6 \<le> length s \<and> r < 0xDC00 \<and> 0xDC00 \<le> r2 \<and> r2 < 0xE000
         then Some (0x10000 + (r - 0xD800) * 0x400 + (r2 - 0xDC00)) else None)"

text \<open>\<open>utf8.AppendRune\<close> for a character that is no surrogate.\<close>

definition encode_rune :: "nat \<Rightarrow> string" where
  "encode_rune r =
     map char_of
       (if r < 0x80 then [r]
        else if r < 0x800 then [0xC0 + r div 64, 0x80 + r mod 64]
        else if r < 0x10000 then [0xE0 + r div 4096, 0x80 + r div 64 mod 64, 0x80 + r mod 64]
        else [0xF0 + r div 262144, 0x80 + r div 4096 mod 64, 0x80 + r div 64 mod 64, 0x80 + r mod 64])"

definition unescape :: "char \<Rightarrow> char" where
  "unescape e = (case map_of (map prod.swap short_escapes) e of Some c \<Rightarrow> c | None \<Rightarrow> e)"

fun unquote :: "string \<Rightarrow> string" where
  "unquote [] = []"
| "unquote (c # s) =
     (if c = backslash \<and> s \<noteq> [] then
        (if hd s = CHR ''u'' then
           (let r = hex4 (tl s)
            in if is_surrogate r
               then (case pair_rune r (drop 5 s) of
                       Some q \<Rightarrow> encode_rune q @ unquote (drop 11 s)
                     | None \<Rightarrow> replacement @ unquote (drop 5 s))
               else encode_rune r @ unquote (drop 5 s))
         else unescape (hd s) # unquote (tl s))
      else if is_ascii c then c # unquote s
      else if cont_len c s = 0 then replacement @ unquote s
      else c # take (cont_len c s) s @ unquote (drop (cont_len c s) s))"

subsection \<open>Reading numbers and literals\<close>

datatype num_state = NNeg | NZero | NInt | NDot | NFrac | NExp | NSign | NExpDigit

definition is_exp :: "char \<Rightarrow> bool" where
  "is_exp c = (c = CHR ''e'' \<or> c = CHR ''E'')"

fun num_next :: "num_state \<Rightarrow> char \<Rightarrow> num_state option" where
  "num_next NNeg c = (if c = CHR ''0'' then Some NZero else if is_digit c then Some NInt else None)"
| "num_next NZero c = (if c = CHR ''.'' then Some NDot else if is_exp c then Some NExp else None)"
| "num_next NInt c =
     (if is_digit c then Some NInt else if c = CHR ''.'' then Some NDot else if is_exp c then Some NExp else None)"
| "num_next NDot c = (if is_digit c then Some NFrac else None)"
| "num_next NFrac c = (if is_digit c then Some NFrac else if is_exp c then Some NExp else None)"
| "num_next NExp c = (if c = CHR ''+'' \<or> c = CHR ''-'' then Some NSign else if is_digit c then Some NExpDigit else None)"
| "num_next NSign c = (if is_digit c then Some NExpDigit else None)"
| "num_next NExpDigit c = (if is_digit c then Some NExpDigit else None)"

definition num_complete :: "num_state \<Rightarrow> bool" where
  "num_complete st = (st \<in> set [NZero, NInt, NFrac, NExpDigit])"

fun scan_number :: "num_state \<Rightarrow> string \<Rightarrow> string scan" where
  "scan_number st [] = (if num_complete st then Scanned [] [] else ScanCut)"
| "scan_number st (c # s) =
     (case num_next st c of
        Some st' \<Rightarrow> keep c (scan_number st' s)
      | None \<Rightarrow> if num_complete st then Scanned [] (c # s) else ScanBad)"

definition num_start :: "char \<Rightarrow> num_state" where
  "num_start c = (if c = CHR ''-'' then NNeg else if c = CHR ''0'' then NZero else NInt)"

subsection \<open>Tokens\<close>

text \<open>\<open>TBad\<close> is a byte no value can have at its place, \<open>TCut\<close> the end of the input.\<close>

datatype token =
    TObj | TObjEnd | TArr | TArrEnd | TComma | TColon
  | TStr string | TNum string | TTrue | TFalse | TNull | TBad | TCut

fun scan_literal :: "token \<Rightarrow> string \<Rightarrow> string \<Rightarrow> token \<times> string" where
  "scan_literal t [] s = (t, s)"
| "scan_literal t (l # ls) [] = (TCut, [])"
| "scan_literal t (l # ls) (c # s) = (if c = l then scan_literal t ls s else (TBad, []))"

fun scan_token :: "(string \<Rightarrow> token) \<Rightarrow> string scan \<Rightarrow> token \<times> string" where
  "scan_token f (Scanned s r) = (f s, r)"
| "scan_token f ScanBad = (TBad, [])"
| "scan_token f ScanCut = (TCut, [])"

definition is_space :: "char \<Rightarrow> bool" where
  "is_space c = (c \<in> set [CHR 0x20, CHR 0x09, CHR 0x0D, CHR 0x0A])"

definition punctuation :: "(char \<times> token) list" where
  "punctuation =
     [(CHR ''{'', TObj), (CHR ''}'', TObjEnd), (CHR ''['', TArr), (CHR '']'', TArrEnd), (CHR '','', TComma), (CHR '':'', TColon)]"

definition first_token :: "char \<Rightarrow> string \<Rightarrow> token \<times> string" where
  "first_token c s =
     (case map_of punctuation c of
        Some t \<Rightarrow> (t, s)
      | None \<Rightarrow>
          if c = quote_char then scan_token (\<lambda>raw. TStr (unquote raw)) (scan_string InString s)
          else if c = CHR ''t'' then scan_literal TTrue ''rue'' s
          else if c = CHR ''f'' then scan_literal TFalse ''alse'' s
          else if c = CHR ''n'' then scan_literal TNull ''ull'' s
          else if c = CHR ''-'' \<or> is_digit c then scan_token (\<lambda>n. TNum (c # n)) (scan_number (num_start c) s)
          else (TBad, []))"

definition next_token :: "string \<Rightarrow> token \<times> string" where
  "next_token s = (case dropWhile is_space s of [] \<Rightarrow> (TCut, []) | c # r \<Rightarrow> first_token c r)"

lemma scan_string_rest: "scan_string st s = Scanned t r \<Longrightarrow> length r < length s"
proof (induction s arbitrary: st t)
  case (Cons c s)
  show ?case
  proof (cases "st = InString \<and> c = quote_char")
    case False
    then obtain st' where "keep c (scan_string st' s) = Scanned t r" using Cons.prems by (auto split: option.splits)
    then show ?thesis using Cons.IH by (cases "scan_string st' s") fastforce+
  qed (use Cons.prems in simp)
qed simp

lemma scan_number_rest: "scan_number st s = Scanned t r \<Longrightarrow> length r \<le> length s"
proof (induction s arbitrary: st t)
  case (Cons c s)
  show ?case
  proof (cases "num_next st c")
    case None
    then show ?thesis using Cons.prems by (auto split: if_splits)
  next
    case (Some st')
    then have "keep c (scan_number st' s) = Scanned t r" using Cons.prems by simp
    then show ?thesis using Cons.IH by (cases "scan_number st' s") fastforce+
  qed
qed (auto split: if_splits)

lemma scan_literal_rest: "length (snd (scan_literal t ls s)) \<le> length s"
  by (induction t ls s rule: scan_literal.induct) auto

lemma first_token_rest: "length (snd (first_token c s)) \<le> length s"
proof -
  have "length (snd (scan_token f (scan_string st s))) \<le> length s" for f st
    using scan_string_rest [of st s] by (cases "scan_string st s") fastforce+
  moreover have "length (snd (scan_token f (scan_number st s))) \<le> length s" for f st
    using scan_number_rest [of st s] by (cases "scan_number st s") fastforce+
  ultimately show ?thesis by (simp add: first_token_def scan_literal_rest split: option.splits)
qed

lemma next_token_rest: "next_token s = (t, r) \<Longrightarrow> t \<noteq> TCut \<Longrightarrow> length r < length s"
proof -
  assume a: "next_token s = (t, r)" "t \<noteq> TCut"
  then obtain c u where u: "dropWhile is_space s = c # u" "first_token c u = (t, r)"
    by (auto simp: next_token_def split: list.splits)
  have "length r \<le> length u" using first_token_rest [of c u] u(2) by simp
  also have "\<dots> < length s" using length_dropWhile_le [of is_space s] u(1) by simp
  finally show ?thesis .
qed

function tokens :: "string \<Rightarrow> token list" where
  "tokens s =
     (case next_token s of (t, r) \<Rightarrow> if t = TCut \<or> t = TBad then [t] else t # tokens r)"
  by pat_completeness auto

termination tokens
  by (relation "measure length") (auto dest: next_token_rest [OF sym])

declare tokens.simps [simp del]

subsection \<open>The value machine\<close>

text \<open>Open arrays and objects, the innermost first; \<open>FKey\<close> is an object that waits for the value of a key.\<close>

datatype frame = FArr "json list" | FObj "(string \<times> json) list" | FKey "(string \<times> json) list" string

datatype expect = Value | FirstElem | FirstKey | Key | Colon | After

datatype parse_error = Syntax | Eof

definition max_depth :: nat where
  "max_depth = 10000"

text \<open>A finished value goes into the innermost open array or object, or is the result.\<close>

fun put :: "json \<Rightarrow> frame list \<Rightarrow> frame list option" where
  "put v (FArr vs # st) = Some (FArr (vs @ [v]) # st)"
| "put v (FKey ms k # st) = Some (FObj (ms @ [(k, v)]) # st)"
| "put v _ = None"

fun closed :: "frame \<Rightarrow> json" where
  "closed (FArr vs) = JArr vs"
| "closed (FObj ms) = JObj ms"
| "closed (FKey ms k) = JObj ms"

fun scalar :: "token \<Rightarrow> json option" where
  "scalar (TStr s) = Some (JStr s)"
| "scalar (TNum n) = Some (JNum n)"
| "scalar TTrue = Some (JBool True)"
| "scalar TFalse = Some (JBool False)"
| "scalar TNull = Some JNull"
| "scalar _ = None"

fun parse :: "frame list \<Rightarrow> expect \<Rightarrow> token list \<Rightarrow> parse_error + json \<times> token list"
and parsed :: "json \<Rightarrow> frame list \<Rightarrow> token list \<Rightarrow> parse_error + json \<times> token list" where
  "parse st x [] = Inl Eof"
| "parse st x (t # ts) =
     (if t = TCut then Inl Eof
      else if x = Value \<or> x = FirstElem then
        (case scalar t of
           Some v \<Rightarrow> parsed v st ts
         | None \<Rightarrow>
             if t = TArr \<and> length st < max_depth then parse (FArr [] # st) FirstElem ts
             else if t = TObj \<and> length st < max_depth then parse (FObj [] # st) FirstKey ts
             else if t = TArrEnd \<and> x = FirstElem \<and> st \<noteq> [] then parsed (closed (hd st)) (tl st) ts
             else Inl Syntax)
      else (case st of
          FArr vs # st' \<Rightarrow>
            if x = After \<and> t = TComma then parse st Value ts
            else if x = After \<and> t = TArrEnd then parsed (JArr vs) st' ts else Inl Syntax
        | FObj ms # st' \<Rightarrow>
            (if x = FirstKey \<or> x = Key then
               (case t of
                  TStr k \<Rightarrow> parse (FKey ms k # st') Colon ts
                | TObjEnd \<Rightarrow> if x = FirstKey then parsed (JObj ms) st' ts else Inl Syntax
                | _ \<Rightarrow> Inl Syntax)
             else if x = After \<and> t = TComma then parse st Key ts
             else if x = After \<and> t = TObjEnd then parsed (JObj ms) st' ts else Inl Syntax)
        | FKey ms k # st' \<Rightarrow> if x = Colon \<and> t = TColon then parse st Value ts else Inl Syntax
        | [] \<Rightarrow> Inl Syntax))"
| "parsed v st ts = (case put v st of None \<Rightarrow> Inr (v, ts) | Some st' \<Rightarrow> parse st' After ts)"

definition parse_text :: "string \<Rightarrow> parse_error + json \<times> token list" where
  "parse_text s = parse [] Value (tokens s)"

subsection \<open>Strings are read back\<close>

lemma hex_digits: "k < 16 \<Longrightarrow> hex_val (hex_digit k) = k \<and> is_hex (hex_digit k)"
proof -
  have "list_all (\<lambda>k. hex_val (hex_digit k) = k \<and> is_hex (hex_digit k)) [0..<16]" by code_simp
  then show "k < 16 \<Longrightarrow> ?thesis" by (simp add: list_all_iff)
qed

lemma hex4_escape: "n < 65536 \<Longrightarrow> hex4 (drop 2 (unicode_escape n) @ r) = n"
proof -
  assume "n < 65536"
  then have "n div 4096 mod 16 = n div 4096" "n div 4096 < 16" by simp_all
  moreover have "n div 4096 * 16 + n div 256 mod 16 = n div 256"
    using div_mult2_eq [of n 256 16] div_mult_mod_eq [of "n div 256" 16] by simp
  moreover have "n div 256 * 16 + n div 16 mod 16 = n div 16"
    using div_mult2_eq [of n 16 16] div_mult_mod_eq [of "n div 16" 16] by simp
  moreover have "n div 16 * 16 + n mod 16 = n" by simp
  ultimately show ?thesis by (simp add: hex4_def unicode_escape_def hex_digits)
qed

lemma unquote_unicode:
  assumes "n < 65536" and "\<not> is_surrogate n"
  shows "unquote (unicode_escape n @ r) = encode_rune n @ unquote r"
proof -
  have "unicode_escape n = backslash # CHR ''u'' # drop 2 (unicode_escape n)" "length (drop 2 (unicode_escape n)) = 4"
    by (simp_all add: unicode_escape_def)
  then obtain h where h: "unicode_escape n = backslash # CHR ''u'' # h" "length h = 4" "hex4 (h @ r) = n"
    using hex4_escape [OF assms(1), of r] by metis
  have "drop 4 (h @ r) = r" using h(2) by simp
  then show ?thesis using h assms(2) by (simp add: Let_def eval_nat_numeral)
qed

lemma encode_ascii: "is_ascii c \<Longrightarrow> encode_rune (code c) = [c]"
  by (simp add: is_ascii_def code_def encode_rune_def)

lemma unquote_ascii:
  assumes "is_ascii c"
  shows "unquote (escape_ascii c @ r) = c # unquote r"
proof (cases "map_of short_escapes c")
  case None
  then have "c \<noteq> backslash" by (auto simp: short_escapes_def split: if_splits)
  moreover have "code c < 65536" "\<not> is_surrogate (code c)"
    using assms by (simp_all add: is_ascii_def code_def is_surrogate_def)
  ultimately show ?thesis
    using None assms unquote_unicode [of "code c" r] by (simp add: escape_ascii_def encode_ascii)
next
  case (Some e)
  then have "e \<noteq> CHR ''u'' \<and> unescape e = c" by (auto simp: short_escapes_def unescape_def split: if_splits)
  then show ?thesis using Some by (simp add: escape_ascii_def)
qed

lemma unquote_multibyte:
  assumes "\<not> is_ascii c" and "0 < cont_len c s"
  shows "unquote (c # take (cont_len c s) s @ r) = c # take (cont_len c s) s @ unquote r"
proof -
  have "c \<noteq> backslash" using assms(1) by (auto simp: is_ascii_def)
  moreover have "cont_len c (take (cont_len c s) s @ r) = cont_len c s" by (rule cont_len_append [OF assms(2)])
  ultimately show ?thesis using assms cont_len_le(2) [of c s] by (simp add: min_def)
qed

lemma byte_chars:
  "char_of (226 :: nat) = CHR 0xE2" "char_of (128 :: nat) = CHR 0x80" "char_of (168 :: nat) = CHR 0xA8"
  "char_of (169 :: nat) = CHR 0xA9" "char_of (239 :: nat) = CHR 0xEF" "char_of (191 :: nat) = CHR 0xBF"
  "char_of (189 :: nat) = CHR 0xBD"
  by code_simp+

lemma line_separator_rune:
  assumes "line_separator c s = Some r"
  shows "r < 65536 \<and> \<not> is_surrogate r \<and> encode_rune r = c # take (cont_len c s) s"
proof -
  have "\<exists>x. c = CHR 0xE2 \<and> take 2 s = [CHR 0x80, x] \<and> (x = CHR 0xA8 \<and> r = 0x2028 \<or> x = CHR 0xA9 \<and> r = 0x2029)"
    using assms unfolding line_separator_def by (metis option.distinct(1) option.inject)
  then obtain x s' where x: "c = CHR 0xE2" "s = CHR 0x80 # x # s'" "x = CHR 0xA8 \<and> r = 0x2028 \<or> x = CHR 0xA9 \<and> r = 0x2029"
    by (cases s; cases "tl s") auto
  then have "cont_len c s = 2" by (auto simp: cont_len_width rune_width_def first_width_def second_ok_def)
  then show ?thesis using x by (auto simp: is_surrogate_def encode_rune_def byte_chars)
qed

lemma encode_replacement: "encode_rune 0xFFFD = replacement" "\<not> is_surrogate 0xFFFD"
  by (simp_all add: encode_rune_def replacement_def is_surrogate_def byte_chars)

lemma unquote_escape: "unquote (escape s) = to_valid s"
proof (induction s rule: escape.induct)
  case (2 c s)
  consider (ascii) "is_ascii c" | (bad) "\<not> is_ascii c" "cont_len c s = 0"
    | (sep) r where "\<not> is_ascii c" "cont_len c s \<noteq> 0" "line_separator c s = Some r"
    | (raw) "\<not> is_ascii c" "cont_len c s \<noteq> 0" "line_separator c s = None"
    by (cases "line_separator c s") auto
  then show ?case
  proof cases
    case ascii
    then show ?thesis using 2 by (simp add: unquote_ascii del: unquote.simps)
  next
    case bad
    then show ?thesis using 2 by (simp add: unquote_unicode encode_replacement del: unquote.simps)
  next
    case sep
    then show ?thesis
      using 2 line_separator_rune [OF sep(3)] by (simp add: unquote_unicode del: unquote.simps)
  next
    case raw
    then show ?thesis using 2 by (simp add: unquote_multibyte del: unquote.simps)
  qed
qed simp

text \<open>Escaped text has no end of the string in it.\<close>

definition inner :: "string \<Rightarrow> bool" where
  "inner b = (\<forall>u. scan_string InString (b @ u) = foldr keep b (scan_string InString u))"

lemma innerD: "inner b \<Longrightarrow> scan_string InString (b @ u) = foldr keep b (scan_string InString u)"
  by (simp add: inner_def)

lemma inner_append: "inner a \<Longrightarrow> inner b \<Longrightarrow> inner (a @ b)"
  by (simp add: inner_def)

lemma inner_plain: "code c \<ge> 0x20 \<Longrightarrow> c \<noteq> quote_char \<Longrightarrow> c \<noteq> backslash \<Longrightarrow> inner [c]"
  by (simp add: inner_def)

lemma inner_nonascii: "\<forall>c \<in> set b. \<not> is_ascii c \<Longrightarrow> inner b"
proof (induction b)
  case (Cons c b)
  have "inner [c]" using Cons.prems by (intro inner_plain) (auto simp: is_ascii_def code_def)
  then show ?case using Cons inner_append [of "[c]" b] by simp
qed (simp add: inner_def)

lemma inner_unicode: "inner (unicode_escape n)"
  by (simp add: inner_def unicode_escape_def hex_digits)

lemma inner_ascii: "is_ascii c \<Longrightarrow> inner (escape_ascii c)"
proof (cases "map_of short_escapes c")
  case None
  then have "c \<noteq> quote_char" "c \<noteq> backslash" by (auto simp: short_escapes_def split: if_splits)
  then show ?thesis using None inner_unicode inner_plain by (simp add: escape_ascii_def)
next
  case (Some e)
  then have "e \<in> set [quote_char, backslash] \<or> e \<in> set ''/bfnrt''" by (auto simp: short_escapes_def split: if_splits)
  then show ?thesis using Some by (auto simp: escape_ascii_def inner_def)
qed

lemma cont_nonascii: "x \<in> set (take (cont_len c s) s) \<Longrightarrow> \<not> is_ascii x"
proof -
  have "list_all (\<lambda>b. 0x80 \<le> b) (take (rune_width b bs) bs)" for b bs
  proof (cases "0 < rune_width b bs")
    case True
    then obtain d ds where "bs = d # ds" "second_ok b d" "list_all (\<lambda>c. 0x80 \<le> c \<and> c \<le> 0xBF) (take (rune_width b bs - 1) ds)"
      by (cases bs) (auto simp: rune_width_def Let_def split: if_splits)
    then show ?thesis using True by (auto simp: take_Cons' second_ok_def list_all_iff split: if_splits)
  qed simp
  from this [of "of_char c" "map of_char s"] show "x \<in> set (take (cont_len c s) s) \<Longrightarrow> ?thesis"
    by (auto simp: cont_len_width is_ascii_def list_all_iff take_map)
qed

lemma inner_escape: "inner (escape s)"
proof (induction s rule: escape.induct)
  case (2 c s)
  have "inner (c # take (cont_len c s) s)" if "\<not> is_ascii c"
    using that cont_nonascii by (intro inner_nonascii) auto
  then show ?case
    using 2 inner_append [OF inner_ascii] inner_append [OF inner_unicode] inner_append [of "c # take (cont_len c s) s"]
    by (auto split: option.splits)
qed (simp add: inner_def)

lemma foldr_keep: "foldr keep b (Scanned t r) = Scanned (b @ t) r"
  by (induction b) simp_all

lemma scan_escape: "scan_string InString (escape s @ quote_char # r) = Scanned (escape s) r"
  by (simp add: innerD [OF inner_escape] foldr_keep)

subsection \<open>Numbers are read back\<close>

definition number_ok :: "string \<Rightarrow> bool" where
  "number_ok n = (n \<noteq> [] \<and> (hd n = CHR ''-'' \<or> is_digit (hd n)) \<and> scan_number (num_start (hd n)) (tl n) = Scanned (tl n) [])"

text \<open>What may follow a number: nothing, or a byte that cannot continue one.\<close>

definition delimited :: "string \<Rightarrow> bool" where
  "delimited r = (r = [] \<or> \<not> is_digit (hd r) \<and> hd r \<notin> set ''.eE+-'')"

lemma scan_number_append: "scan_number st s = Scanned t [] \<Longrightarrow> delimited r \<Longrightarrow> scan_number st (s @ r) = Scanned t r"
proof (induction s arbitrary: st t)
  case Nil
  then have "num_complete st" "t = []" by (simp_all split: if_splits)
  then show ?case using Nil(2) by (cases r; cases st) (auto simp: num_complete_def delimited_def is_exp_def)
next
  case (Cons c s)
  show ?case
  proof (cases "num_next st c")
    case None
    then show ?thesis using Cons.prems by (simp split: if_splits)
  next
    case (Some st')
    then have "keep c (scan_number st' s) = Scanned t []" using Cons.prems by simp
    then obtain t' where "scan_number st' s = Scanned t' []" "t = c # t'" by (cases "scan_number st' s") auto
    then show ?thesis using Cons Some by simp
  qed
qed

lemma scan_digits: "list_all is_digit s \<Longrightarrow> scan_number NInt s = Scanned s []"
  by (induction s) (simp_all add: num_complete_def)

lemma show_nat_head: "0 < n \<Longrightarrow> hd (show_nat n) \<noteq> CHR ''0''"
proof (induction n rule: show_nat.induct)
  case (1 n)
  show ?case
  proof (cases "n < 10")
    case True
    then have "digit_val (digit_char n) \<noteq> digit_val (CHR ''0'')" using 1 digit_char_props(2) [of n] by (simp add: digit_val_def)
    then show ?thesis using True by (auto simp: show_nat.simps [of n])
  next
    case False
    then show ?thesis using 1 show_nat_digits [of "n div 10"] by (simp add: show_nat.simps [of n])
  qed
qed

lemma show_nat_number: "number_ok (show_nat n)"
proof (cases "n = 0")
  case True
  moreover have "number_ok (show_nat 0)" by code_simp
  ultimately show ?thesis by simp
next
  case False
  obtain c s where c: "show_nat n = c # s" using show_nat_digits [of n] by (cases "show_nat n") auto
  then have "is_digit c" "list_all is_digit s" "c \<noteq> CHR ''0''" using show_nat_digits [of n] show_nat_head [of n] False by simp_all
  moreover from this(1) have "c \<noteq> CHR ''-''" by (auto simp: is_digit_def)
  ultimately show ?thesis using c scan_digits by (simp add: number_ok_def num_start_def)
qed

subsection \<open>Values are read back\<close>

fun read_back :: "json \<Rightarrow> json" where
  "read_back (JStr s) = JStr (to_valid s)"
| "read_back (JArr vs) = JArr (map read_back vs)"
| "read_back (JObj ms) = JObj (map (\<lambda>m. (to_valid (fst m), read_back (snd m))) ms)"
| "read_back v = v"

fun numbers_ok :: "json \<Rightarrow> bool" where
  "numbers_ok (JNum n) = number_ok n"
| "numbers_ok (JArr vs) = list_all numbers_ok vs"
| "numbers_ok (JObj ms) = list_all (\<lambda>m. numbers_ok (snd m)) ms"
| "numbers_ok v = True"

fun depth :: "json \<Rightarrow> nat" where
  "depth (JArr vs) = Suc (fold max (map depth vs) 0)"
| "depth (JObj ms) = Suc (fold max (map (\<lambda>m. depth (snd m)) ms) 0)"
| "depth v = 0"

fun commas :: "token list list \<Rightarrow> token list" where
  "commas [] = []"
| "commas [t] = t"
| "commas (t # u # ts) = t @ TComma # commas (u # ts)"

fun toks :: "json \<Rightarrow> token list" where
  "toks JNull = [TNull]"
| "toks (JBool b) = [if b then TTrue else TFalse]"
| "toks (JNum n) = [TNum n]"
| "toks (JStr s) = [TStr (to_valid s)]"
| "toks (JArr vs) = TArr # commas (map toks vs) @ [TArrEnd]"
| "toks (JObj ms) = TObj # commas (map (\<lambda>m. TStr (to_valid (fst m)) # TColon # toks (snd m)) ms) @ [TObjEnd]"

lemma tokens_step: "next_token s = (t, r) \<Longrightarrow> t \<noteq> TCut \<Longrightarrow> t \<noteq> TBad \<Longrightarrow> tokens s = t # tokens r"
  by (simp add: tokens.simps [of s])

lemma next_token_Cons: "\<not> is_space c \<Longrightarrow> next_token (c # s) = first_token c s"
  by (simp add: next_token_def)

lemma tokens_punctuation: "map_of punctuation c = Some t \<Longrightarrow> tokens (c # s) = t # tokens s"
proof (rule tokens_step)
  assume a: "map_of punctuation c = Some t"
  then have "\<not> is_space c" by (auto simp: punctuation_def is_space_def split: if_splits)
  then show "next_token (c # s) = (t, s)" using a by (simp add: next_token_Cons first_token_def)
  show "t \<noteq> TCut" "t \<noteq> TBad" using a by (auto simp: punctuation_def split: if_splits)
qed

lemma tokens_string: "tokens (string_text s @ r) = TStr (to_valid s) # tokens r"
  by (rule tokens_step)
    (simp_all add: string_text_def next_token_Cons is_space_def first_token_def punctuation_def scan_escape unquote_escape)

lemma tokens_number:
  assumes "number_ok n" and "delimited r"
  shows "tokens (n @ r) = TNum n # tokens r"
proof (rule tokens_step)
  obtain c s where n: "n = c # s" "c = CHR ''-'' \<or> is_digit c" "scan_number (num_start c) s = Scanned s []"
    using assms(1) by (cases n) (auto simp: number_ok_def)
  have c: "\<not> is_space c" "map_of punctuation c = None" "c \<noteq> quote_char" "c \<noteq> CHR ''t''" "c \<noteq> CHR ''f''" "c \<noteq> CHR ''n''"
    using n(2) by (auto simp: is_space_def punctuation_def is_digit_def)
  have "scan_number (num_start c) (s @ r) = Scanned s r" by (rule scan_number_append [OF n(3) assms(2)])
  then show "next_token (n @ r) = (TNum n, r)" using n c by (auto simp: next_token_Cons first_token_def)
qed simp_all

lemma tokens_words:
  "tokens (''null'' @ r) = TNull # tokens r" "tokens (''true'' @ r) = TTrue # tokens r"
  "tokens (''false'' @ r) = TFalse # tokens r"
  by (rule tokens_step; simp add: next_token_Cons is_space_def first_token_def punctuation_def)+

lemma delimited_punctuation: "map_of punctuation c = Some t \<Longrightarrow> delimited (c # r)"
  by (auto simp: punctuation_def delimited_def is_digit_def split: if_splits)

lemmas puncts = tokens_punctuation delimited_punctuation punctuation_def

text \<open>A list of texts, each of which is read whatever delimits it, with commas between.\<close>

lemma tokens_commas:
  assumes "\<And>x r. x \<in> set xs \<Longrightarrow> delimited r \<Longrightarrow> tokens (f x @ r) = g x @ tokens r"
    and "map_of punctuation c = Some t"
  shows "tokens (strings_Join '','' (map f xs) @ c # r) = commas (map g xs) @ t # tokens r"
  using assms(1)
proof (induction xs)
  case (Cons x xs)
  have r: "delimited (c # r)" "tokens (c # r) = t # tokens r"
    using assms(2) by (simp_all add: delimited_punctuation tokens_punctuation)
  show ?case
  proof (cases xs)
    case Nil
    then show ?thesis using Cons.prems [of x] r by simp
  next
    case (Cons y ys)
    have "tokens (CHR '','' # u) = TComma # tokens u" "delimited (CHR '','' # u)" for u
      by (simp_all add: puncts)
    then show ?thesis using Cons.IH Cons.prems Cons by simp
  qed
qed (simp add: assms(2) tokens_punctuation)

lemma tokens_text: "numbers_ok v \<Longrightarrow> delimited r \<Longrightarrow> tokens (json_text v @ r) = toks v @ tokens r"
proof (induction v arbitrary: r)
  case (JArr vs)
  have "tokens (strings_Join '','' (map json_text vs) @ CHR '']'' # r) = commas (map toks vs) @ TArrEnd # tokens r"
    using JArr by (intro tokens_commas) (auto simp: list_all_iff punctuation_def)
  then show ?case by (simp add: puncts)
next
  case (JObj ms)
  have "tokens ((string_text (fst m) @ '':'' @ json_text (snd m)) @ u) = (TStr (to_valid (fst m)) # TColon # toks (snd m)) @ tokens u"
    if "m \<in> set ms" "delimited u" for m u
    using JObj.IH [OF that(1), of "snd m" u] JObj.prems(1) that
    by (cases m) (auto simp: tokens_string list_all_iff puncts)
  then have "tokens (strings_Join '','' (map (\<lambda>m. string_text (fst m) @ '':'' @ json_text (snd m)) ms) @ CHR ''}'' # r) =
      commas (map (\<lambda>m. TStr (to_valid (fst m)) # TColon # toks (snd m)) ms) @ TObjEnd # tokens r"
    by (intro tokens_commas) (auto simp: punctuation_def)
  then show ?case by (simp add: puncts)
qed (auto simp: tokens_string tokens_number tokens_words [simplified])

lemma fold_max_ge: "x \<in> set xs \<Longrightarrow> x \<le> fold max xs a" for x :: nat
proof (induction xs arbitrary: a)
  case (Cons y ys)
  have "b \<le> fold max ys b" for b :: nat by (induction ys arbitrary: b) (simp, force intro: order_trans [OF max.cobounded2])
  then show ?case using Cons by (auto intro: order_trans [OF max.cobounded1])
qed simp

declare parse.simps(2) [simp del] parsed.simps [simp del]

lemma parse_elements:
  assumes "vs \<noteq> []" and "x = Value \<or> x = FirstElem"
    and "\<And>v us x ts. v \<in> set vs \<Longrightarrow> x = Value \<or> x = FirstElem \<Longrightarrow>
      parse (FArr us # st) x (toks v @ ts) = parse (FArr (us @ [read_back v]) # st) After ts"
  shows "parse (FArr us # st) x (commas (map toks vs) @ TArrEnd # ts) = parsed (JArr (us @ map read_back vs)) st ts"
  using assms
proof (induction vs arbitrary: us x)
  case (Cons v vs)
  show ?case
  proof (cases vs)
    case Nil
    then show ?thesis using Cons.prems(2) Cons.prems(3) [of v] by (simp add: parse.simps(2) [of _ After])
  next
    case (Cons w ws)
    then show ?thesis
      using Cons.IH [of Value "us @ [read_back v]"] Cons.prems(2,3) by (simp add: parse.simps(2) [of _ After])
  qed
qed simp

lemma parse_members:
  assumes "ms \<noteq> []" and "x = FirstKey \<or> x = Key"
    and "\<And>m ns k ts. m \<in> set ms \<Longrightarrow>
      parse (FKey ns k # st) Value (toks (snd m) @ ts) = parse (FObj (ns @ [(k, read_back (snd m))]) # st) After ts"
  shows "parse (FObj ns # st) x (commas (map (\<lambda>m. TStr (to_valid (fst m)) # TColon # toks (snd m)) ms) @ TObjEnd # ts) =
    parsed (JObj (ns @ map (\<lambda>m. (to_valid (fst m), read_back (snd m))) ms)) st ts"
  using assms
proof (induction ms arbitrary: ns x)
  case (Cons m ms)
  have key: "parse (FObj ns # st) x (TStr k # TColon # ts) = parse (FKey ns k # st) Value ts" for k ts
    using Cons.prems(2) by (auto simp: parse.simps(2) [of _ x] parse.simps(2) [of _ Colon])
  show ?case
  proof (cases ms)
    case Nil
    then show ?thesis using Cons.prems(3) [of m] by (simp add: key parse.simps(2) [of _ After])
  next
    case (Cons m' ms')
    then show ?thesis
      using Cons.IH [of Key "ns @ [(to_valid (fst m), read_back (snd m))]"] Cons.prems(3)
      by (simp add: key parse.simps(2) [of _ After])
  qed
qed simp

lemma parse_value:
  "depth v + length st \<le> max_depth \<Longrightarrow> x = Value \<or> x = FirstElem \<Longrightarrow>
     parse st x (toks v @ ts) = parsed (read_back v) st ts"
proof (induction v arbitrary: st x ts)
  case (JArr vs)
  have "parse st x (toks (JArr vs) @ ts) = parse (FArr [] # st) FirstElem (commas (map toks vs) @ TArrEnd # ts)"
    using JArr.prems by (auto simp: parse.simps(2) [of _ x])
  also have "\<dots> = parsed (JArr (map read_back vs)) st ts"
  proof (cases "vs = []")
    case True
    then show ?thesis by (simp add: parse.simps(2))
  next
    case False
    have "parse (FArr us # st) y (toks v @ us') = parse (FArr (us @ [read_back v]) # st) After us'"
      if "v \<in> set vs" "y = Value \<or> y = FirstElem" for v us y us'
      using JArr.IH [OF that(1), of "FArr us # st" y us'] that JArr.prems(1) fold_max_ge [of "depth v" "map depth vs" 0]
      by (simp add: parsed.simps)
    then show ?thesis using parse_elements [OF False, of FirstElem st "[]" ts] by simp
  qed
  finally show ?case by simp
next
  case (JObj ms)
  have "parse st x (toks (JObj ms) @ ts) = parse (FObj [] # st) FirstKey
      (commas (map (\<lambda>m. TStr (to_valid (fst m)) # TColon # toks (snd m)) ms) @ TObjEnd # ts)"
    using JObj.prems by (auto simp: parse.simps(2) [of _ x])
  also have "\<dots> = parsed (JObj (map (\<lambda>m. (to_valid (fst m), read_back (snd m))) ms)) st ts"
  proof (cases "ms = []")
    case True
    then show ?thesis by (simp add: parse.simps(2))
  next
    case False
    have "parse (FKey ns k # st) Value (toks (snd m) @ us') = parse (FObj (ns @ [(k, read_back (snd m))]) # st) After us'"
      if "m \<in> set ms" for m ns k us'
      using JObj.IH [OF that, of "snd m" "FKey ns k # st" Value us'] that JObj.prems(1)
        fold_max_ge [of "depth (snd m)" "map (\<lambda>m. depth (snd m)) ms" 0]
      by (cases m) (force simp: parsed.simps)
    then show ?thesis using parse_members [OF False, of FirstKey st "[]" ts] by simp
  qed
  finally show ?case by simp
qed (auto simp: parse.simps(2))

text \<open>
  The text of a value is one value for the decoder, and the same one, but for bytes in strings that
  belong to no character.
\<close>

lemma parse_json_text:
  assumes "numbers_ok v" and "depth v \<le> max_depth" and "delimited r"
  shows "parse_text (json_text v @ r) = Inr (read_back v, tokens r)"
  using parse_value [of v "[]" Value "tokens r"] assms
  by (simp add: parse_text_def tokens_text parsed.simps)

subsection \<open>Texts that are cut short\<close>

lemma tokens_Nil [simp]: "tokens [] = [TCut]"
  by (simp add: tokens.simps next_token_def)

lemma scan_string_extend:
  "scan_string st a = Scanned t r \<Longrightarrow> scan_string st (a @ b) = Scanned t (r @ b)"
  "scan_string st a = ScanBad \<Longrightarrow> scan_string st (a @ b) = ScanBad"
proof -
  have "(\<forall>t r. scan_string st a = Scanned t r \<longrightarrow> scan_string st (a @ b) = Scanned t (r @ b)) \<and>
      (scan_string st a = ScanBad \<longrightarrow> scan_string st (a @ b) = ScanBad)"
  proof (induction a arbitrary: st)
    case (Cons c a)
    show ?case
    proof (cases "st = InString \<and> c = quote_char")
      case False
      show ?thesis
      proof (cases "str_next st c")
        case (Some st')
        then show ?thesis using False Cons.IH [of st'] by (cases "scan_string st' a") auto
      qed (use False in auto)
    qed simp
  qed simp
  then show "scan_string st a = Scanned t r \<Longrightarrow> scan_string st (a @ b) = Scanned t (r @ b)"
    "scan_string st a = ScanBad \<Longrightarrow> scan_string st (a @ b) = ScanBad" by blast+
qed

lemma scan_escape_cut: "k \<le> length (escape s) \<Longrightarrow> scan_string InString (take k (escape s)) = ScanCut"
proof (cases "scan_string InString (take k (escape s))")
  case (Scanned t r)
  from scan_string_extend(1) [OF this, of "drop k (escape s) @ [quote_char]"] show ?thesis
    using scan_escape [of s "[]"] by (simp flip: append_assoc)
next
  case ScanBad
  from scan_string_extend(2) [OF this, of "drop k (escape s) @ [quote_char]"] show ?thesis
    using scan_escape [of s "[]"] by (simp flip: append_assoc)
qed

text \<open>A piece of text is one token, and every shorter part of it is none.\<close>

definition piece :: "string \<Rightarrow> token \<Rightarrow> bool" where
  "piece p t = ((\<forall>r. tokens (p @ r) = t # tokens r) \<and> (\<forall>k < length p. tokens (take k p) = [TCut]))"

lemma piece_string: "piece (string_text s) (TStr (to_valid s))"
proof -
  have "tokens (take k (string_text s)) = [TCut]" if k: "k < length (string_text s)" for k
  proof (cases k)
    case (Suc j)
    then have "take k (string_text s) = quote_char # take j (escape s)" "j \<le> length (escape s)"
      using k by (simp_all add: string_text_def)
    then show ?thesis
      using scan_escape_cut [of j s]
      by (simp add: tokens.simps next_token_Cons is_space_def first_token_def punctuation_def)
  qed simp
  then show ?thesis by (simp add: piece_def tokens_string)
qed

lemma piece_punctuation: "map_of punctuation c = Some t \<Longrightarrow> piece [c] t"
  by (simp add: piece_def tokens_punctuation)

lemma pieces_prefix:
  "list_all2 piece ps ts \<Longrightarrow> k < length (concat ps) \<Longrightarrow> \<exists>j < length ts. tokens (take k (concat ps)) = take j ts @ [TCut]"
proof (induction ps arbitrary: k ts)
  case (Cons p ps)
  then obtain t us where ts: "ts = t # us" "piece p t" "list_all2 piece ps us" by (auto simp: list_all2_Cons1)
  show ?case
  proof (cases "k < length p")
    case True
    then show ?thesis using ts(1,2) by (intro exI [of _ 0]) (simp add: piece_def)
  next
    case False
    then have "k - length p < length (concat ps)" using Cons.prems(2) by (simp add: less_diff_conv2)
    then obtain j where j: "j < length us" "tokens (take (k - length p) (concat ps)) = take j us @ [TCut]"
      using Cons.IH [OF ts(3)] by blast
    have "tokens (p @ take (k - length p) (concat ps)) = t # tokens (take (k - length p) (concat ps))"
      using ts(2) by (simp add: piece_def)
    then show ?thesis using False ts(1) j by (intro exI [of _ "Suc j"]) simp
  qed
qed simp

text \<open>More input changes neither a value that is complete nor an error.\<close>

definition extends :: "parse_error + json \<times> token list \<Rightarrow> (token list \<Rightarrow> parse_error + json \<times> token list) \<Rightarrow> bool" where
  "extends x f =
     (case x of
        Inl Eof \<Rightarrow> True
      | Inl Syntax \<Rightarrow> (\<forall>bs. f bs = Inl Syntax)
      | Inr (v, r) \<Rightarrow> (\<exists>r'. r = r' @ [TCut] \<and> (\<forall>bs. f bs = Inr (v, r' @ bs))))"

lemma extends_simps [simp]: "extends (Inl Eof) f" "extends (Inl Syntax) (\<lambda>bs. Inl Syntax)"
  by (simp_all add: extends_def)

lemma parse_extends: "extends (parse st x (us @ [TCut])) (\<lambda>bs. parse st x (us @ bs))"
proof (induction us arbitrary: st x)
  case Nil
  then show ?case by (simp add: parse.simps(2))
next
  case (Cons t us)
  have fin: "extends (parsed v st (us @ [TCut])) (\<lambda>bs. parsed v st (us @ bs))" for v st
    using Cons by (cases "put v st") (simp_all add: parsed.simps extends_def)
  show ?case
  proof (cases "x = Value \<or> x = FirstElem")
    case True
    then show ?thesis using Cons fin by (cases t; cases st) (auto simp: parse.simps(2))
  next
    case False
    then show ?thesis
    proof (cases st)
      case (Cons f st')
      then show ?thesis using False \<open>\<And>st x. extends (parse st x (us @ [TCut])) (\<lambda>bs. parse st x (us @ bs))\<close> fin
        by (cases f; cases t) (auto simp: parse.simps(2))
    qed (auto simp: parse.simps(2))
  qed
qed

lemma parse_prefix:
  assumes "j < length ts" and "parse [] Value (ts @ [TCut]) = Inr (v, [TCut])"
  shows "parse [] Value (take j ts @ [TCut]) = Inl Eof"
proof -
  have e: "extends (parse [] Value (take j ts @ [TCut])) (\<lambda>bs. parse [] Value (take j ts @ bs))" by (rule parse_extends)
  have full: "parse [] Value (take j ts @ (drop j ts @ [TCut])) = Inr (v, [TCut])"
    using assms(2) by (metis append_assoc append_take_drop_id)
  show ?thesis
  proof (cases "parse [] Value (take j ts @ [TCut])")
    case (Inl er)
    then show ?thesis using e full by (cases er) (auto simp: extends_def)
  next
    case (Inr p)
    then obtain r' where "parse [] Value (take j ts @ (drop j ts @ [TCut])) = Inr (fst p, r' @ drop j ts @ [TCut])"
      using e by (cases p) (auto simp: extends_def)
    then have "r' @ drop j ts @ [TCut] = [TCut]" using full by simp
    then show ?thesis using assms(1) by simp
  qed
qed

end
