(* ===== verification/Dto_Codec.thy ===== *)
theory Dto_Codec
  imports Json Http_Protocol
begin

text \<open>
  What \<open>encoding/json\<close> does at the types of \<open>internal/server/dto\<close> and \<open>pkg/http/protocol\<close>: the fields and
  their \<open>json\<close> names, times in RFC 3339, and the decoding of request bodies, which may be limited by an
  \<open>http.MaxBytesReader\<close>. \<open>go_json\<close> is the codec the program runs with. The offset of the local time
  zone is the argument \<open>zone\<close>, the wording of syntax and type errors the argument \<open>wording\<close>.
\<close>

subsection \<open>Times\<close>

text \<open>The Gregorian date of a day, counted from 1970-01-01, by years that begin in March.\<close>

definition civil_date :: "int \<Rightarrow> int \<times> int \<times> int" where
  "civil_date days =
     (let z = days + 719468; era = z div 146097; doe = z mod 146097;
          yoe = (doe - doe div 1460 + doe div 36524 - doe div 146096) div 365;
          doy = doe - (365 * yoe + yoe div 4 - yoe div 100);
          mp = (5 * doy + 2) div 153;
          d = doy - (153 * mp + 2) div 5 + 1;
          m = (if mp < 10 then mp + 3 else mp - 9)
      in (yoe + era * 400 + (if m \<le> 2 then 1 else 0), m, d))"

definition pad :: "nat \<Rightarrow> int \<Rightarrow> string" where
  "pad w n = (let s = show_nat (nat n) in replicate (w - length s) (CHR ''0'') @ s)"

definition nano_text :: "int \<Rightarrow> string" where
  "nano_text ns = (if ns = 0 then [] else CHR ''.'' # rev (dropWhile (\<lambda>c. c = CHR ''0'') (rev (pad 9 ns))))"

definition zone_text :: "int \<Rightarrow> string" where
  "zone_text offset =
     (if offset = 0 then ''Z''
      else (let z = abs offset div 60
            in (if offset \<le> - 60 then ''-'' else ''+'') @ pad 2 (z div 60) @ '':'' @ pad 2 (z mod 60)))"

text \<open>\<open>Time.MarshalJSON\<close>: RFC 3339 with nanoseconds, refused outside of the years 0 to 9999.\<close>

definition time_json :: "(time \<Rightarrow> int) \<Rightarrow> time \<Rightarrow> string + json" where
  "time_json zone t =
     (let offset = zone t; secs = t div Second + offset; sod = secs mod 86400
      in case civil_date (secs div 86400) of (y, m, d) \<Rightarrow>
           if y < 0 \<or> 9999 < y then Inl ''Time.MarshalJSON: year outside of range [0,9999]''
           else if 24 * 3600 \<le> abs offset then Inl ''Time.MarshalJSON: timezone hour outside of range [0,23]''
           else Inr (JStr (pad 4 y @ ''-'' @ pad 2 m @ ''-'' @ pad 2 d @ ''T'' @
                  pad 2 (sod div 3600) @ '':'' @ pad 2 (sod div 60 mod 60) @ '':'' @ pad 2 (sod mod 60) @
                  nano_text (t mod Second) @ zone_text offset)))"

fun time_ptr_json :: "(time \<Rightarrow> int) \<Rightarrow> time option \<Rightarrow> string + json" where
  "time_ptr_json zone None = Inr JNull"
| "time_ptr_json zone (Some t) = time_json zone t"

subsection \<open>Responses\<close>

definition uint_json :: "uint64 \<Rightarrow> json" where
  "uint_json n = JNum (show_uint64 n)"

definition task_json :: "(time \<Rightarrow> int) \<Rightarrow> GetTaskResponse \<Rightarrow> string + json" where
  "task_json zone r =
     (case time_json zone (r_CreatedAt r) of
        Inl e \<Rightarrow> Inl e
      | Inr created \<Rightarrow>
          (case time_ptr_json zone (r_UpdatedAt r) of
             Inl e \<Rightarrow> Inl e
           | Inr updated \<Rightarrow>
               Inr (JObj [(''id'', uint_json (r_ID r)), (''name'', JStr (r_Name r)), (''body'', JStr (r_Body r)),
                 (''status'', JStr (r_Status r)), (''createdAt'', created), (''updatedAt'', updated)])))"

fun tasks_json :: "(time \<Rightarrow> int) \<Rightarrow> GetTaskResponse list \<Rightarrow> string + json list" where
  "tasks_json zone [] = Inr []"
| "tasks_json zone (r # rs) =
     (case task_json zone r of
        Inl e \<Rightarrow> Inl e
      | Inr v \<Rightarrow> (case tasks_json zone rs of Inl e \<Rightarrow> Inl e | Inr vs \<Rightarrow> Inr (v # vs)))"

definition list_json :: "(time \<Rightarrow> int) \<Rightarrow> ListTasksResponse \<Rightarrow> string + json" where
  "list_json zone l =
     (case tasks_json zone (l_Items l) of
        Inl e \<Rightarrow> Inl e
      | Inr vs \<Rightarrow>
          Inr (JObj [(''items'', JArr vs), (''total'', uint_json (l_Total l)), (''limit'', uint_json (l_Limit l)),
            (''offset'', uint_json (l_Offset l))]))"

definition created_json :: "CreateTaskResponse \<Rightarrow> json" where
  "created_json c = JObj [(''id'', uint_json (c_ID c))]"

definition exception_json :: "(time \<Rightarrow> int) \<Rightarrow> ExceptionResponse \<Rightarrow> string + json" where
  "exception_json zone x =
     (case time_json zone (x_Timestamp x) of
        Inl e \<Rightarrow> Inl e
      | Inr ts \<Rightarrow>
          Inr (JObj [(''errorMessage'', JStr (x_ErrorMessage x)), (''status'', JNum (show_int (x_Status x))),
            (''timestamp'', ts)]))"

fun payload_json :: "(time \<Rightarrow> int) \<Rightarrow> payload \<Rightarrow> string + json" where
  "payload_json zone (BException x) = exception_json zone x"
| "payload_json zone (BList l) = list_json zone l"
| "payload_json zone (BTask t) = task_json zone t"
| "payload_json zone (BCreated c) = Inr (created_json c)"

definition go_Marshal :: "(time \<Rightarrow> int) \<Rightarrow> payload \<Rightarrow> goerror + string" where
  "go_Marshal zone b =
     (case payload_json zone b of
        Inl e \<Rightarrow> Inl (ExtError (''json: error calling MarshalJSON for type time.Time: '' @ e))
      | Inr v \<Rightarrow> Inr (json_text v))"

subsection \<open>Request bodies\<close>

datatype body_error = BodyEOF | BodyUnexpectedEOF | BodyTooLarge | BodySyntax | BodyType

text \<open>What the decoder can read of a body, and whether the limit cuts it short.\<close>

definition available :: "body \<Rightarrow> string" where
  "available b = (case body_max b of None \<Rightarrow> body_bytes b | Some n \<Rightarrow> take (nat n) (body_bytes b))"

definition truncated :: "body \<Rightarrow> bool" where
  "truncated b = (available b \<noteq> body_bytes b)"

text \<open>
  \<open>Decoder.Decode\<close> up to the value: an array or object ends with its bracket; of any other value the end
  is seen only at the next byte or at the end of the body.
\<close>

definition read_value :: "body \<Rightarrow> body_error + json" where
  "read_value b =
     (let s = available b
      in case next_token s of (t, r) \<Rightarrow>
        if scalar t \<noteq> None \<and> r = [] \<and> truncated b then Inl BodyTooLarge
        else (case parse_text s of
            Inr (v, ts) \<Rightarrow> Inr v
          | Inl Syntax \<Rightarrow> Inl BodySyntax
          | Inl Eof \<Rightarrow>
              Inl (if truncated b then BodyTooLarge
                   else if dropWhile is_space s = [] then BodyEOF else BodyUnexpectedEOF)))"

text \<open>
  Names of fields are compared without regard to case: \<open>foldName\<close> maps a letter to the least character
  of its class, and of the characters outside ASCII only \<open>U+017F\<close> (long s) and \<open>U+212A\<close> (Kelvin) fall
  into the class of an ASCII letter.
\<close>

fun fold_name :: "string \<Rightarrow> string" where
  "fold_name [] = []"
| "fold_name (c # s) =
     (if c = CHR 0xC5 \<and> take 1 s = [CHR 0xBF] then CHR ''S'' # fold_name (drop 1 s)
      else if c = CHR 0xE2 \<and> take 2 s = [CHR 0x84, CHR 0xAA] then CHR ''K'' # fold_name (drop 2 s)
      else char_ToUpper c # fold_name s)"

definition names :: "string \<Rightarrow> string \<Rightarrow> bool" where
  "names field key = (fold_name key = fold_name field)"

text \<open>Into a \<open>string\<close>: \<open>null\<close> changes nothing. Into a \<open>*string\<close>: \<open>null\<close> is nil.\<close>

fun into_string :: "json \<Rightarrow> string \<Rightarrow> string option" where
  "into_string (JStr s) old = Some s"
| "into_string JNull old = Some old"
| "into_string _ old = None"

fun into_string_ptr :: "json \<Rightarrow> string option option" where
  "into_string_ptr (JStr s) = Some (Some s)"
| "into_string_ptr JNull = Some None"
| "into_string_ptr _ = None"

definition create_member :: "string \<times> json \<Rightarrow> CreateTaskRequest \<Rightarrow> CreateTaskRequest option" where
  "create_member m r =
     (if names ''name'' (fst m) then map_option (\<lambda>s. r\<lparr>c_Name := s\<rparr>) (into_string (snd m) (c_Name r))
      else if names ''body'' (fst m) then map_option (\<lambda>s. r\<lparr>c_Body := s\<rparr>) (into_string (snd m) (c_Body r))
      else Some r)"

definition update_member :: "string \<times> json \<Rightarrow> UpdateTaskRequest \<Rightarrow> UpdateTaskRequest option" where
  "update_member m r =
     (if names ''name'' (fst m) then map_option (\<lambda>s. r\<lparr>u_Name := s\<rparr>) (into_string_ptr (snd m))
      else if names ''body'' (fst m) then map_option (\<lambda>s. r\<lparr>u_Body := s\<rparr>) (into_string_ptr (snd m))
      else if names ''status'' (fst m) then map_option (\<lambda>s. r\<lparr>u_Status := s\<rparr>) (into_string_ptr (snd m))
      else Some r)"

text \<open>The members in their order, the later ones over the earlier; a value of the wrong type is an error.\<close>

fun into_struct :: "(string \<times> json \<Rightarrow> 'r \<Rightarrow> 'r option) \<Rightarrow> json \<Rightarrow> 'r \<Rightarrow> 'r option" where
  "into_struct store (JObj ms) r = foldl (\<lambda>x m. Option.bind x (store m)) (Some r) ms"
| "into_struct store JNull r = Some r"
| "into_struct store _ r = None"

fun body_error_text :: "(body_error \<Rightarrow> body \<Rightarrow> string) \<Rightarrow> body \<Rightarrow> body_error \<Rightarrow> string" where
  "body_error_text wording b BodyEOF = ''EOF''"
| "body_error_text wording b BodyUnexpectedEOF = ''unexpected EOF''"
| "body_error_text wording b BodyTooLarge = ''http: request body too large''"
| "body_error_text wording b e = wording e b"

definition go_Decode :: "(body_error \<Rightarrow> body \<Rightarrow> string) \<Rightarrow> (string \<times> json \<Rightarrow> 'r \<Rightarrow> 'r option) \<Rightarrow> 'r \<Rightarrow> body
    \<Rightarrow> goerror + 'r" where
  "go_Decode wording store zero b =
     (case read_value b of
        Inl e \<Rightarrow> Inl (ExtError (body_error_text wording b e))
      | Inr v \<Rightarrow>
          (case into_struct store v zero of
             None \<Rightarrow> Inl (ExtError (body_error_text wording b BodyType))
           | Some r \<Rightarrow> Inr r))"

definition go_json :: "(time \<Rightarrow> int) \<Rightarrow> (body_error \<Rightarrow> body \<Rightarrow> string) \<Rightarrow> json_codec" where
  "go_json zone wording =
     \<lparr>json_Marshal = go_Marshal zone,
      json_DecodeCreate = go_Decode wording create_member \<lparr>c_Name = [], c_Body = []\<rparr>,
      json_DecodeUpdate = go_Decode wording update_member \<lparr>u_Name = None, u_Body = None, u_Status = None\<rparr>\<rparr>"

subsection \<open>Lemmas on responses\<close>

lemma show_int_number: "number_ok (show_int i)"
proof (cases "i < 0")
  case True
  obtain c s where c: "show_nat (nat (- i)) = c # s" using show_nat_digits [of "nat (- i)"] by (cases "show_nat (nat (- i))") auto
  then have "is_digit c" "list_all is_digit s" "c \<noteq> CHR ''0''"
    using show_nat_digits [of "nat (- i)"] show_nat_head [of "nat (- i)"] True by simp_all
  then show ?thesis using True c by (simp add: number_ok_def show_int_def num_start_def scan_digits)
qed (simp add: show_int_def show_nat_number)

lemma show_uint64_number: "number_ok (show_uint64 n)"
  by (simp add: show_uint64_def show_nat_number)

lemma time_json_flat: "time_json zone t = Inr v \<Longrightarrow> depth v = 0 \<and> numbers_ok v"
  by (auto simp: time_json_def Let_def split: prod.splits if_splits)

lemma time_ptr_json_flat: "time_ptr_json zone t = Inr v \<Longrightarrow> depth v = 0 \<and> numbers_ok v"
  by (cases t) (auto dest: time_json_flat)

lemma task_json_flat: "task_json zone r = Inr v \<Longrightarrow> depth v = 1 \<and> numbers_ok v"
  by (auto simp: task_json_def uint_json_def show_uint64_number dest!: time_json_flat time_ptr_json_flat split: sum.splits)

lemma tasks_json_flat: "tasks_json zone rs = Inr vs \<Longrightarrow> list_all (\<lambda>v. depth v = 1 \<and> numbers_ok v) vs"
  by (induction rs arbitrary: vs) (auto dest: task_json_flat split: sum.splits)

lemma fold_max_le: "list_all (\<lambda>x. x \<le> n) xs \<Longrightarrow> a \<le> n \<Longrightarrow> fold max xs a \<le> n" for n :: nat
  by (induction xs arbitrary: a) simp_all

lemma list_json_flat: "list_json zone l = Inr v \<Longrightarrow> depth v \<le> 3 \<and> numbers_ok v"
proof -
  assume "list_json zone l = Inr v"
  then obtain vs where vs: "tasks_json zone (l_Items l) = Inr vs"
    and v: "v = JObj [(''items'', JArr vs), (''total'', uint_json (l_Total l)), (''limit'', uint_json (l_Limit l)),
      (''offset'', uint_json (l_Offset l))]"
    by (auto simp: list_json_def split: sum.splits)
  have "list_all (\<lambda>x. x \<le> 1) (map depth vs)" "list_all numbers_ok vs"
    using tasks_json_flat [OF vs] by (simp_all add: list_all_iff)
  then show ?thesis
    using fold_max_le [of 1 "map depth vs" 0] by (simp add: v uint_json_def show_uint64_number)
qed

lemma payload_json_flat: "payload_json zone b = Inr v \<Longrightarrow> depth v \<le> 3 \<and> numbers_ok v"
proof (cases b)
  case (BException x)
  then show "payload_json zone b = Inr v \<Longrightarrow> ?thesis"
    by (auto simp: exception_json_def show_int_number dest!: time_json_flat split: sum.splits)
next
  case (BTask t)
  then show "payload_json zone b = Inr v \<Longrightarrow> ?thesis" by (auto dest: task_json_flat)
qed (auto dest: list_json_flat simp: created_json_def uint_json_def show_uint64_number)

lemma payload_text_parses:
  assumes "payload_json zone b = Inr v"
  shows "parse_text (json_text v) = Inr (read_back v, [TCut])"
  using parse_json_text [of v "[]"] payload_json_flat [OF assms] by (simp add: delimited_def max_depth_def)

text \<open>The times a response carries: the only values that can fail to be encoded.\<close>

definition task_times :: "GetTaskResponse \<Rightarrow> time list" where
  "task_times r = r_CreatedAt r # (case r_UpdatedAt r of None \<Rightarrow> [] | Some t \<Rightarrow> [t])"

fun payload_times :: "payload \<Rightarrow> time list" where
  "payload_times (BException x) = [x_Timestamp x]"
| "payload_times (BList l) = concat (map task_times (l_Items l))"
| "payload_times (BTask t) = task_times t"
| "payload_times (BCreated c) = []"

definition no_text :: "(time \<Rightarrow> int) \<Rightarrow> time \<Rightarrow> bool" where
  "no_text zone t = isl (time_json zone t)"

lemma task_json_isl: "isl (task_json zone r) = list_ex (no_text zone) (task_times r)"
  by (cases "r_UpdatedAt r") (auto simp: task_json_def task_times_def no_text_def split: sum.splits)

lemma tasks_json_isl: "isl (tasks_json zone rs) = list_ex (no_text zone) (concat (map task_times rs))"
proof (induction rs)
  case (Cons r rs)
  then show ?case using task_json_isl [of zone r] by (auto split: sum.splits)
qed simp

lemma payload_json_isl: "isl (payload_json zone b) = list_ex (no_text zone) (payload_times b)"
proof (cases b)
  case (BList l)
  then show ?thesis using tasks_json_isl [of zone "l_Items l"] by (auto simp: list_json_def split: sum.splits)
qed (auto simp: exception_json_def task_json_isl no_text_def split: sum.splits)

subsection \<open>Lemmas on request bodies\<close>

text \<open>The body a client sends to create a task.\<close>

definition create_value :: "string \<Rightarrow> string \<Rightarrow> json" where
  "create_value name body = JObj [(''name'', JStr name), (''body'', JStr body)]"

definition create_text :: "string \<Rightarrow> string \<Rightarrow> string" where
  "create_text name body = json_text (create_value name body)"

lemma to_valid_names: "to_valid ''name'' = ''name''" "to_valid ''body'' = ''body''"
  by code_simp+

lemma parse_create_text: "parse_text (create_text n b) = Inr (create_value (to_valid n) (to_valid b), [TCut])"
  using parse_json_text [of "create_value n b" "[]"]
  by (simp add: create_text_def create_value_def delimited_def max_depth_def to_valid_names del: to_valid.simps)

lemma read_create:
  assumes "available bd = create_text n b"
  shows "read_value bd = Inr (create_value (to_valid n) (to_valid b))"
proof -
  obtain r where "next_token (create_text n b) = (TObj, r)"
    by (simp add: create_text_def create_value_def next_token_Cons is_space_def first_token_def punctuation_def)
  then show ?thesis using assms by (simp add: read_value_def parse_create_text)
qed

lemma into_create: "into_struct create_member (create_value n b) r = Some \<lparr>c_Name = n, c_Body = b\<rparr>"
proof -
  have "names ''name'' ''name''" "\<not> names ''name'' ''body''" "names ''body'' ''body''" by code_simp+
  then show ?thesis by (cases r) (simp add: create_value_def create_member_def)
qed

lemma decode_create:
  assumes "available bd = create_text n b" and "valid_utf8 n" and "valid_utf8 b"
  shows "json_DecodeCreate (go_json zone wording) bd = Inr \<lparr>c_Name = n, c_Body = b\<rparr>"
  using assms by (simp add: go_json_def go_Decode_def read_create to_valid_id into_create)

lemma create_text_pieces:
  "\<exists>ps ts. create_text n b = concat ps \<and> list_all2 piece ps ts \<and> ts = toks (create_value n b)"
proof (intro exI conjI)
  show "create_text n b = concat [''{'', string_text ''name'', '':'', string_text n, '','', string_text ''body'', '':'', string_text b, ''}'']"
    by (simp add: create_text_def create_value_def)
  show "list_all2 piece [''{'', string_text ''name'', '':'', string_text n, '','', string_text ''body'', '':'', string_text b, ''}'']
      (toks (create_value n b))"
    by (simp add: create_value_def piece_string piece_punctuation punctuation_def del: to_valid.simps)
qed simp

lemma read_create_cut:
  assumes "available bd = take k (create_text n b)" and "k < length (create_text n b)" and "truncated bd"
  shows "read_value bd = Inl BodyTooLarge"
proof -
  obtain ps where ps: "create_text n b = concat ps" "list_all2 piece ps (toks (create_value n b))"
    using create_text_pieces by blast
  then obtain j where j: "j < length (toks (create_value n b))"
    and cut: "tokens (take k (create_text n b)) = take j (toks (create_value n b)) @ [TCut]"
    using pieces_prefix [OF ps(2), of k] assms(2) by auto
  have "parse [] Value (toks (create_value n b) @ [TCut]) = Inr (create_value (to_valid n) (to_valid b), [TCut])"
    using parse_create_text [of n b] tokens_text [of "create_value n b" "[]"]
    by (simp add: parse_text_def create_text_def create_value_def delimited_def del: to_valid.simps)
  from parse_prefix [OF j this] have "parse_text (take k (create_text n b)) = Inl Eof" by (simp add: parse_text_def cut)
  then show ?thesis using assms(1,3) by (simp add: read_value_def Let_def split: prod.splits)
qed

subsection \<open>Properties\<close>


end
