(* ===== verification/Http_Bytes.thy ===== *)
theory Http_Bytes
  imports Validation Dto_Codec Http_Middleware
begin

text \<open>
  Requests and responses as bytes: the REST interface with the JSON encoder and decoder of Go in place
  of the abstract codec. A task that a client posts is the task a client gets, and a body that exceeds
  the configured limit is refused.
\<close>

subsection \<open>Paths\<close>

definition tasks_path :: "seg list \<Rightarrow> string" where
  "tasks_path gs = render (gs @ collection)"

definition task_path :: "seg list \<Rightarrow> uint64 \<Rightarrow> string" where
  "task_path gs i = render (gs @ [Lit ''tasks'', Lit (show_uint64 i)])"

lemma plain_digits: "list_all is_digit s \<Longrightarrow> plain s"
  by (auto simp: plain_def list_all_iff is_digit_def)

lemma endpoint_tasks: "endpoint_of gs ''POST'' (tasks_path gs) = CreateEP"
  by (simp add: endpoint_of_def tasks_path_def)

lemma endpoint_task:
  assumes "group_ok gs"
  shows "endpoint_of gs ''GET'' (task_path gs i) = GetEP (show_uint64 i)"
proof -
  let ?hs = "[Lit ''tasks'', Lit (show_uint64 i)]"
  have "plain (show_uint64 i)" "show_uint64 i \<noteq> []"
    using show_nat_digits [of "unat i"] plain_digits by (simp_all add: show_uint64_def)
  then have wf: "list_all wf_seg (gs @ ?hs)" "list_all wf_seg (gs @ collection)"
    using group_okD(2) [OF assms] wf_tasks(1) by (simp_all add: collection_def)
  have segs: "segments (task_path gs i) = map seg_text gs @ [''tasks'', show_uint64 i]"
    using segments_render [of "gs @ ?hs"] wf(1) by (simp add: task_path_def)
  have "length (segments (task_path gs i)) \<noteq> length (segments (render (gs @ collection)))"
    using segments_render [of "gs @ collection"] wf(2) segs by (simp add: collection_def)
  then have other: "task_path gs i \<noteq> render (gs @ collection)" by auto
  have "list_all is_Lit gs \<Longrightarrow> list_all2 seg_ok gs (map seg_text gs)"
  proof (induction gs)
    case (Cons g gs)
    then show ?case by (cases g) auto
  qed simp
  then have "list_all2 seg_ok (gs @ item) (segments (task_path gs i))"
    using group_okD(1) [OF assms] by (simp add: segs item_def list_all2_append)
  then show ?thesis using other segs by (simp add: endpoint_of_def Let_def)
qed

subsection \<open>Creating and reading a task\<close>

context reliable_table
begin

lemma Create_cached:
  assumes "up (Suc n) (w_repo w)" and "cache_inv u64 (w_cache w)"
  shows "\<exists>w' i. TaskService_Create env (NewTaskService l (NewTaskRepository db) TaskCache_port) t w = (w', Inr i) \<and>
    TaskCache_Get i (w_cache w') = Some (t\<lparr>ID := i\<rparr>)"
proof -
  obtain r i where "repo_Store (NewTaskRepository db) (w_repo w) t = (r, Inr i)" using rel.Store_up [OF assms(1), of t] by blast
  moreover have "TaskCache_Get (ID t') (TaskCache_Store t' (w_cache w)) = Some t'" for t'
    using tc.Store_lookup [OF assms(2), of t'] tc.Get_lookup [OF tc.Store_inv [OF assms(2), of t'], of "ID t'"]
    by (simp add: TaskCache_port_def)
  from this [of "t\<lparr>ID := i\<rparr>"] have "TaskCache_Get i (TaskCache_Store (t\<lparr>ID := i\<rparr>) (w_cache w)) = Some (t\<lparr>ID := i\<rparr>)" by simp
  ultimately show ?thesis
    by (simp add: TaskService_Create_def NewTaskService_def Let_def log_simps TaskCache_port_def)
qed

end

lemma Get_cached:
  "TaskCache_Get i (w_cache w) = Some t \<Longrightarrow>
     \<exists>w'. TaskService_Get env (NewTaskService l R TaskCache_port) i w = (w', Inr t)"
  by (simp add: TaskService_Get_def NewTaskService_def TaskCache_port_def)

lemma SendSuccess_text:
  assumes "json_Marshal codec b = Inr bs"
  shows "rw_status (fst (SendSuccessResponse env codec h st b (new_writer None) s)) = Some st \<and>
    rw_body (fst (SendSuccessResponse env codec h st b (new_writer None) s)) = bs"
  using assms by (simp add: SendSuccessResponse_def send_body_body new_writer_def fresh_writer_def)

text \<open>A request without query and headers, as far as the handlers look at it.\<close>

definition bytes_request :: "string \<Rightarrow> string \<Rightarrow> body \<Rightarrow> request" where
  "bytes_request m path b =
     \<lparr>req_Method = m, req_Path = path, req_Query = [], req_Header = [], req_RemoteAddr = [], req_Body = b, req_Params = None\<rparr>"

lemma bind_create:
  assumes "tag_validator v" and "rh_validator h = Some v" and "available bd = create_text name body"
    and "valid_utf8 name" and "valid_utf8 body" and "len_between 1 255 name" and "len_between 1 10000 body"
  shows "BindJSON h (json_DecodeCreate (go_json zone wording)) PCreate bd = Inr \<lparr>c_Name = name, c_Body = body\<rparr>"
proof -
  have "name \<noteq> []" "body \<noteq> []" using assms(6,7) by (auto simp: len_between_def RuneCountInString_def)
  then have "v (PCreate \<lparr>c_Name = name, c_Body = body\<rparr>) = None"
    using tag_validator.accepts [OF assms(1)] assms(6,7) by (simp add: valid_CreateTaskRequest_def)
  then show ?thesis using assms(2) decode_create [OF assms(3,4,5)] by (simp add: BindJSON_def)
qed

text \<open>What a client reads of a task that has just been created.\<close>

definition new_task_json :: "uint64 \<Rightarrow> string \<Rightarrow> string \<Rightarrow> json \<Rightarrow> json" where
  "new_task_json i name body created =
     JObj [(''id'', uint_json i), (''name'', JStr name), (''body'', JStr body), (''status'', JStr ''NEW''),
       (''createdAt'', created), (''updatedAt'', JNull)]"

context reliable_table
begin

lemma post_created:
  assumes "group_ok gs" and "up (Suc n) (w_repo s)" and "cache_inv u64 (w_cache s)"
    and "BindJSON h (json_DecodeCreate (go_json zone wording)) PCreate bd = Inr \<lparr>c_Name = name, c_Body = body\<rparr>"
    and "Router_ServeHTTP (API_InitRoutes env (go_json zone wording)
        (NewAPI h (NewTaskService l (NewTaskRepository db) TaskCache_port)) (render gs))
      (bytes_request ''POST'' (tasks_path gs) bd) (new_writer None) s = (w1, s1)"
  shows "\<exists>i. rw_status w1 = Some StatusOK \<and> rw_body w1 = json_text (created_json \<lparr>c_ID = i\<rparr>) \<and>
    TaskCache_Get i (w_cache s1) = Some ((NewTask (clock env (tick s)) name body)\<lparr>ID := i\<rparr>)"
proof -
  let ?codec = "go_json zone wording" and ?svc = "NewTaskService l (NewTaskRepository db) TaskCache_port"
  let ?t = "NewTask (clock env (tick s)) name body" and ?s0 = "s\<lparr>tick := Suc (tick s)\<rparr>"
  obtain s' i where s': "TaskService_Create env ?svc ?t ?s0 = (s', Inr i)" "TaskCache_Get i (w_cache s') = Some (?t\<lparr>ID := i\<rparr>)"
    using Create_cached [of n ?s0 env l ?t] assms(2,3) by auto
  let ?b = "BCreated \<lparr>c_ID = i\<rparr>"
  have send: "SendSuccessResponse env ?codec h StatusOK ?b (new_writer None) s' = (w1, s1)"
    using assms(4,5) s'(1) endpoint_tasks [of gs]
    by (simp add: serve_routes [OF assms(1)] bytes_request_def API_CreateTask_def NewAPI_def time_Now_def Let_def)
  have "json_Marshal ?codec ?b = Inr (json_text (created_json \<lparr>c_ID = i\<rparr>))" by (simp add: go_json_def go_Marshal_def)
  from SendSuccess_text [OF this, of env h StatusOK s'] have "rw_status w1 = Some StatusOK"
    "rw_body w1 = json_text (created_json \<lparr>c_ID = i\<rparr>)" using send by simp_all
  moreover have "w_cache s1 = w_cache s'"
    using SendSuccess_more [of env ?codec h StatusOK ?b "new_writer None" s'] send world_more(2) [of s1 s'] by simp
  ultimately show ?thesis using s'(2) by auto
qed

end

lemma get_cached:
  assumes "group_ok gs" and "TaskCache_Get i (w_cache s) = Some ((NewTask now name body)\<lparr>ID := i\<rparr>)"
    and "time_json zone now = Inr created"
    and "Router_ServeHTTP (API_InitRoutes env (go_json zone wording)
        (NewAPI h (NewTaskService l (NewTaskRepository db) TaskCache_port)) (render gs))
      (bytes_request ''GET'' (task_path gs i) bd) (new_writer None) s = (w1, s1)"
  shows "rw_status w1 = Some StatusOK \<and> rw_body w1 = json_text (new_task_json i name body created)"
proof -
  let ?codec = "go_json zone wording" and ?t = "(NewTask now name body)\<lparr>ID := i\<rparr>"
  obtain s' where s': "TaskService_Get env (NewTaskService l (NewTaskRepository db) TaskCache_port) i s = (s', Inr ?t)"
    using Get_cached [OF assms(2)] by blast
  have "parsePathID (with_id (show_uint64 i) (bytes_request ''GET'' (task_path gs i) bd)) = Inr i"
    using show_nat_digits [of "unat i"] by (simp add: parsePathID_with_id show_uint64_def [of i])
      (simp flip: show_uint64_def)
  then have send: "SendSuccessResponse env ?codec h StatusOK (BTask (taskFromDomain ?t)) (new_writer None) s' = (w1, s1)"
    using assms(4) s' endpoint_task [OF assms(1), of i]
    by (simp add: serve_routes [OF assms(1)] bytes_request_def API_GetTask_def NewAPI_def Let_def)
  have "json_Marshal ?codec (BTask (taskFromDomain ?t)) = Inr (json_text (new_task_json i name body created))"
    using assms(3)
    by (simp add: go_json_def go_Marshal_def task_json_def taskFromDomain_def NewTask_def new_task_json_def
        TaskStatus_String_def TaskStatusNew_def)
  from SendSuccess_text [OF this, of env h StatusOK s'] show ?thesis using send by simp
qed

subsection \<open>Texts of times\<close>

lemma ascii_valid: "list_all is_ascii s \<Longrightarrow> to_valid s = s"
  by (induction s) simp_all

lemma digit_ascii: "is_digit c \<Longrightarrow> is_ascii c"
  by (auto simp: is_digit_def is_ascii_def)

lemma pad_ascii: "list_all is_ascii (pad w n)"
proof -
  have "is_ascii (CHR ''0'')" by (simp add: is_ascii_def)
  then show ?thesis using show_nat_digits [of "nat n"] digit_ascii by (auto simp: pad_def Let_def list_all_iff)
qed

lemma time_json_read_back:
  assumes "time_json zone t = Inr v"
  shows "read_back v = v"
proof -
  have lits: "is_ascii (CHR ''-'')" "is_ascii (CHR '':'')" "is_ascii (CHR ''T'')" "is_ascii (CHR ''.'')" "is_ascii (CHR ''Z'')"
    "is_ascii (CHR ''+'')" by (simp_all add: is_ascii_def)
  have nano: "list_all is_ascii (nano_text ns)" for ns
    using pad_ascii [of 9 ns] set_dropWhileD [of _ "\<lambda>c. c = CHR ''0''" "rev (pad 9 ns)"]
    by (auto simp: nano_text_def list_all_iff lits)
  have zone: "list_all is_ascii (zone_text z)" for z by (simp add: zone_text_def Let_def pad_ascii lits)
  obtain s where "v = JStr s" "list_all is_ascii s"
    using assms by (auto simp: time_json_def Let_def pad_ascii nano zone lits split: prod.splits if_splits)
  then show ?thesis by (simp add: ascii_valid)
qed

lemma parse_new_task:
  assumes "time_json zone now = Inr created" and "valid_utf8 name" and "valid_utf8 body"
  shows "parse_text (json_text (new_task_json i name body created)) = Inr (new_task_json i name body created, [TCut])"
proof -
  have flat: "depth (new_task_json i name body created) \<le> max_depth" "numbers_ok (new_task_json i name body created)"
    using time_json_flat [OF assms(1)] by (simp_all add: new_task_json_def uint_json_def show_uint64_number max_depth_def)
  have "list_all (\<lambda>k. to_valid k = k) [''id'', ''name'', ''body'', ''status'', ''NEW'', ''createdAt'', ''updatedAt'']" by code_simp
  then have "read_back (new_task_json i name body created) = new_task_json i name body created"
    using time_json_read_back [OF assms(1)] assms(2,3)
    by (simp add: new_task_json_def uint_json_def to_valid_id del: to_valid.simps)
  then show ?thesis using parse_json_text [OF flat(2,1), of "[]"] by (simp add: delimited_def)
qed

lemma parse_created: "parse_text (json_text (created_json \<lparr>c_ID = i\<rparr>)) = Inr (JObj [(''id'', uint_json i)], [TCut])"
proof -
  have "to_valid ''id'' = ''id''" by code_simp
  then show ?thesis
    using payload_text_parses [of zone "BCreated \<lparr>c_ID = i\<rparr>"] by (simp add: created_json_def uint_json_def del: to_valid.simps)
qed

subsection \<open>Bodies over the limit\<close>

definition too_large :: goerror where
  "too_large = Errorf ''decode body'' (ExtError ''http: request body too large'')"

lemma bind_cut:
  assumes "0 < limit" and "body_max bd = None" and "body_bytes bd = create_text name body"
    and "limit < int (length (create_text name body))"
  shows "BindJSON h (json_DecodeCreate (go_json zone wording)) PCreate (MaxBytesReader limit bd) = Inl too_large"
proof -
  let ?b = "MaxBytesReader limit bd" and ?k = "nat limit"
  have k: "?k < length (create_text name body)" using assms(1,4) by simp
  have av: "available ?b = take ?k (create_text name body)"
    using assms(2,3) by (simp add: available_def MaxBytesReader_def)
  have "length (take ?k (create_text name body)) \<noteq> length (create_text name body)" using k by simp
  then have "truncated ?b" using assms(2,3) av by (auto simp: truncated_def MaxBytesReader_def)
  from read_create_cut [OF av k this] show ?thesis
    by (simp add: BindJSON_def go_json_def go_Decode_def too_large_def)
qed

context reliable_table
begin

lemma run_cache_inv:
  assumes "NewTaskCache conv limit interval (NewTaskRepository db) d = (d', Inr c)" and "group_ok gs"
    and "http_run (API_InitRoutes env codec (NewAPI h (NewTaskService l (NewTaskRepository db) TaskCache_port)) (render gs))
       (\<lambda>ms c. snd (TaskCache_Run ms c)) es \<lparr>tick = n, sent = q, stderr = k, w_repo = d', w_cache = c\<rparr> = (s, ws)"
  shows "cache_inv u64 (w_cache s)"
  using svc.http_run_trace [OF started_sound(1) [OF assms(1)] assms(2,3)] by (simp add: svc.sound_def)

end

subsection \<open>A sample server\<close>

definition utc :: "time \<Rightarrow> int" where
  "utc t = 0"

definition bytes_handler :: ResponseHandler where
  "bytes_handler = NewResponseHandler sample_logger [WithValidation check_tags]"

definition bytes_api :: "(pg, TaskCache) API" where
  "bytes_api = NewAPI bytes_handler (NewTaskService sample_logger (NewTaskRepository pg_db) TaskCache_port)"

definition bytes_router :: "(pg, TaskCache) world Router" where
  "bytes_router = API_InitRoutes sample_env (go_json utc (\<lambda>e b. [])) bytes_api (render sample_group)"

definition bytes_world :: "(pg, TaskCache) world" where
  "bytes_world = \<lparr>tick = 0, sent = [], stderr = empty_sink, w_repo = pg_empty, w_cache = sample_cache\<rparr>"

lemma bytes_time: "time_json utc (clock sample_env (tick bytes_world)) = Inr (JStr ''2023-11-14T22:13:20.000000123Z'')"
  by code_simp

lemma bytes_second: "time_json utc (Truncate Second (clock sample_env (tick bytes_world))) = Inr (JStr ''2023-11-14T22:13:20Z'')"
  by code_simp

lemma bytes_group: "group_ok sample_group"
  by (simp add: group_ok_def sample_group_def plain_def)

subsection \<open>Properties\<close>



text \<open>
  C32. A body over the limit: behind \<open>MaxBodyBytes\<close> with a positive limit, a POST whose JSON text is longer
  than the limit is answered 400, not 413 as the comment of the middleware says, with an error body that
  names the cause; no task is stored and the cache stays as it is.
\<close>
theorem oversized_body_refused:
  assumes "group_ok gs" and "0 < max_bytes" and "body_max bd = None" and "body_bytes bd = create_text name body"
    and "max_bytes < int (length (create_text name body))"
    and "time_json zone (Truncate Second (clock env (tick s))) = Inr stamp_text"
    and "MaxBodyBytes max_bytes (Router_ServeHTTP (API_InitRoutes env (go_json zone wording) api (render gs)))
      (bytes_request ''POST'' (tasks_path gs) bd) (new_writer None) s = (w', s')"
  shows "rw_status w' = Some StatusBadRequest \<and>
    rw_body w' = json_text (JObj [(''errorMessage'', JStr ''incorrect request decode body: http: request body too large''),
      (''status'', JNum ''400''), (''timestamp'', stamp_text)]) \<and>
    w_repo s' = w_repo s \<and> w_cache s' = w_cache s"
proof -
  let ?codec = "go_json zone wording" and ?h = "api_responseHandler api" and ?now = "clock env (tick s)"
  have bind: "BindJSON ?h (json_DecodeCreate ?codec) PCreate (MaxBytesReader max_bytes bd) = Inl too_large"
    by (rule bind_cut [OF assms(2-5)])
  have send: "SendErrorResponse env ?codec ?h StatusBadRequest (Some too_large) (new_writer None) s = (w', s')"
    using assms(2,7) endpoint_tasks [of gs] bind
    by (simp add: MaxBodyBytes_def bytes_request_def serve_routes [OF assms(1)] API_CreateTask_def Let_def)
  have msg: "error_message env StatusBadRequest (Some too_large) = ''incorrect request decode body: http: request body too large''"
  proof -
    have "flattenError env (Some too_large) = ''decode body: http: request body too large''"
      by (simp add: flattenError_def too_large_def)
    moreover have "TrimSpace ''incorrect request decode body: http: request body too large''
        = ''incorrect request decode body: http: request body too large''" by code_simp
    ultimately show ?thesis by (simp add: error_message_def status_codes incorrectRequestErrMsg_def)
  qed
  have "show_int StatusBadRequest = ''400''" by code_simp
  then have "json_Marshal ?codec (BException \<lparr>x_ErrorMessage = error_message env StatusBadRequest (Some too_large),
      x_Status = StatusBadRequest, x_Timestamp = Truncate Second ?now\<rparr>) =
    Inr (json_text (JObj [(''errorMessage'', JStr ''incorrect request decode body: http: request body too large''),
      (''status'', JNum ''400''), (''timestamp'', stamp_text)]))"
    using assms(6) by (simp add: go_json_def go_Marshal_def exception_json_def msg)
  moreover have "w_repo s' = w_repo s" "w_cache s' = w_cache s"
    using SendError_more [of env ?codec ?h StatusBadRequest "Some too_large" "new_writer None" s] send world_more [of s' s] by simp_all
  ultimately show ?thesis
    using send by (auto simp: SendErrorResponse_def Let_def time_Now_def send_body_body new_writer_def fresh_writer_def)
qed

theorem oversized_body_refused_witness:
  "let (w', s') = MaxBodyBytes 5 (Router_ServeHTTP bytes_router)
     (bytes_request ''POST'' (tasks_path sample_group) \<lparr>body_bytes = create_text ''x'' ''y'', body_max = None\<rparr>) (new_writer None) bytes_world
   in rw_status w' = Some 400 \<and> w_repo s' = pg_empty"
proof -
  let ?bd = "\<lparr>body_bytes = create_text ''x'' ''y'', body_max = None\<rparr>"
  obtain w' s' where run: "MaxBodyBytes 5 (Router_ServeHTTP bytes_router)
     (bytes_request ''POST'' (tasks_path sample_group) ?bd) (new_writer None) bytes_world = (w', s')" by fastforce
  have "5 < int (length (create_text ''x'' ''y''))" by code_simp
  then show ?thesis
    using oversized_body_refused [OF bytes_group _ _ _ _ bytes_second run [unfolded bytes_router_def], of "''x''" "''y''"] run
    by (simp add: bytes_world_def status_codes)
qed

end
