(* ===== verification/Service_Races.thy ===== *)
theory Service_Races
  imports Task_Service
begin

text \<open>
  The use cases of \<open>internal/services/task_service.go\<close> when calls overlap, as they do under an HTTP
  server. A call is at a point between two operations on the repository or the cache; a step
  performs one of them. Nothing in the service locks across operations, so the steps of all calls
  interleave in every order.

  Run alone, a call computes what the definitions of the theory \<open>Task_Service\<close> say. Under every
  interleaving the cache holds only versions of tasks the table has held. But it can hold a task that
  has been deleted, and two updates can take a task along a transition the life cycle forbids.
\<close>

subsection \<open>Calls in progress\<close>

datatype svc_pc =
    Begin svc_call
  | CreateCache Task
  | GetLoad uint64
  | UpdateStore uint64 Task | UpdateCache Task
  | Forget uint64 svc_result
  | ListLoad uint64 uint64 uint64
  | Answer svc_result

text \<open>\<open>st_past\<close> is a ghost: the repository states so far.\<close>

record ('r, 'c) stores =
  st_repo :: 'r
  st_cache :: 'c
  st_past :: "'r set"

definition set_repo :: "'r \<Rightarrow> ('r, 'c) stores \<Rightarrow> ('r, 'c) stores" where
  "set_repo r s = s\<lparr>st_repo := r, st_past := insert r (st_past s)\<rparr>"

inductive call_step :: "'r TaskRepository \<Rightarrow> 'c TaskCachePort \<Rightarrow> svc_pc \<Rightarrow> ('r, 'c) stores
    \<Rightarrow> svc_pc \<Rightarrow> ('r, 'c) stores \<Rightarrow> bool" for R K where
  create_failed: "repo_Store R (st_repo s) t = (r, Inl e) \<Longrightarrow>
     call_step R K (Begin (CCreate t)) s (Answer (RErr e)) (set_repo r s)"
| create_stored: "repo_Store R (st_repo s) t = (r, Inr i) \<Longrightarrow>
     call_step R K (Begin (CCreate t)) s (CreateCache (t\<lparr>ID := i\<rparr>)) (set_repo r s)"
| create_cached: "call_step R K (CreateCache t) s (Answer (RId (ID t))) (s\<lparr>st_cache := cache_Store K t (st_cache s)\<rparr>)"
| get_hit: "cache_Get K i (st_cache s) = Some t \<Longrightarrow> call_step R K (Begin (CGet i)) s (Answer (RTask t)) s"
| get_miss: "cache_Get K i (st_cache s) = None \<Longrightarrow> call_step R K (Begin (CGet i)) s (GetLoad i) s"
| get_failed: "repo_Get R (st_repo s) i = (r, Inl e) \<Longrightarrow>
     call_step R K (GetLoad i) s (Answer (RErr e)) (set_repo r s)"
| get_loaded: "repo_Get R (st_repo s) i = (r, Inr t) \<Longrightarrow>
     call_step R K (GetLoad i) s (Answer (RTask t)) (set_repo r s)"
| update_failed: "repo_Get R (st_repo s) i = (r, Inl e) \<Longrightarrow>
     call_step R K (Begin (CUpdate i p)) s (Answer (RErr e)) (set_repo r s)"
| update_rejected: "repo_Get R (st_repo s) i = (r, Inr t0) \<Longrightarrow> apply_params p t0 = Inl e \<Longrightarrow>
     call_step R K (Begin (CUpdate i p)) s (Answer (RErr e)) (set_repo r s)"
| update_loaded: "repo_Get R (st_repo s) i = (r, Inr t0) \<Longrightarrow> apply_params p t0 = Inr t1 \<Longrightarrow>
     call_step R K (Begin (CUpdate i p)) s (UpdateStore i (t1\<lparr>UpdatedAt := Some now\<rparr>)) (set_repo r s)"
| update_gone: "repo_Update R (st_repo s) t = (r, Some e) \<Longrightarrow> errors_Is e ErrTaskNotFound \<Longrightarrow>
     call_step R K (UpdateStore i t) s (Forget i (RErr e)) (set_repo r s)"
| update_error: "repo_Update R (st_repo s) t = (r, Some e) \<Longrightarrow> \<not> errors_Is e ErrTaskNotFound \<Longrightarrow>
     call_step R K (UpdateStore i t) s (Answer (RErr e)) (set_repo r s)"
| update_stored: "repo_Update R (st_repo s) t = (r, None) \<Longrightarrow>
     call_step R K (UpdateStore i t) s (UpdateCache t) (set_repo r s)"
| update_cached: "call_step R K (UpdateCache t) s (Answer (RTask t)) (s\<lparr>st_cache := cache_Store K t (st_cache s)\<rparr>)"
| delete_gone: "repo_Delete R (st_repo s) i = (r, Some e) \<Longrightarrow> errors_Is e ErrTaskNotFound \<Longrightarrow>
     call_step R K (Begin (CDelete i)) s (Forget i (RErr e)) (set_repo r s)"
| delete_error: "repo_Delete R (st_repo s) i = (r, Some e) \<Longrightarrow> \<not> errors_Is e ErrTaskNotFound \<Longrightarrow>
     call_step R K (Begin (CDelete i)) s (Answer (RErr e)) (set_repo r s)"
| delete_stored: "repo_Delete R (st_repo s) i = (r, None) \<Longrightarrow>
     call_step R K (Begin (CDelete i)) s (Forget i RDone) (set_repo r s)"
| forget: "call_step R K (Forget i res) s (Answer res) (s\<lparr>st_cache := cache_Delete K i (st_cache s)\<rparr>)"
| list_failed: "repo_Count R (st_repo s) (Some (page_filter l off)) = (r, Inl e) \<Longrightarrow>
     call_step R K (Begin (CList l off)) s (Answer (RErr e)) (set_repo r s)"
| list_counted: "repo_Count R (st_repo s) (Some (page_filter l off)) = (r, Inr n) \<Longrightarrow>
     call_step R K (Begin (CList l off)) s (ListLoad l off n) (set_repo r s)"
| list_error: "repo_List R (st_repo s) (Some (page_filter l off)) = (r, Inl e) \<Longrightarrow>
     call_step R K (ListLoad l off n) s (Answer (RErr e)) (set_repo r s)"
| list_loaded: "repo_List R (st_repo s) (Some (page_filter l off)) = (r, Inr ts) \<Longrightarrow>
     call_step R K (ListLoad l off n) s (Answer (RPage ts n)) (set_repo r s)"

text \<open>
  Any number of calls in progress. A new call may arrive at any time, and the memory monitor may
  evict entries.
\<close>

inductive calls_step :: "'r TaskRepository \<Rightarrow> 'c TaskCachePort \<Rightarrow> ('e \<Rightarrow> 'c \<Rightarrow> 'c) \<Rightarrow> svc_pc list \<times> ('r, 'c) stores
    \<Rightarrow> svc_pc list \<times> ('r, 'c) stores \<Rightarrow> bool" for R K drop_some where
  arrive: "calls_step R K drop_some (ts, s) (ts @ [Begin c], s)"
| advance: "i < length ts \<Longrightarrow> call_step R K (ts ! i) s p s' \<Longrightarrow> calls_step R K drop_some (ts, s) (ts[i := p], s')"
| monitor: "calls_step R K drop_some (ts, s) (ts, s\<lparr>st_cache := drop_some e (st_cache s)\<rparr>)"

inductive_cases calls_stepE: "calls_step R K drop_some (ts, s) x"

subsection \<open>One call alone\<close>

lemma alone:
  "call_step R K p s p' s' \<Longrightarrow> (calls_step R K drop_some)\<^sup>*\<^sup>* ([p'], s') x \<Longrightarrow> (calls_step R K drop_some)\<^sup>*\<^sup>* ([p], s) x"
  using calls_step.advance [of 0 "[p]" R K s p' s' drop_some] by (simp add: converse_rtranclp_into_rtranclp)

lemmas alone1 = alone [OF _ rtranclp.rtrancl_refl]

lemma set_repo_fields [simp]: "st_repo (set_repo r s) = r" "st_cache (set_repo r s) = st_cache s"
  by (simp_all add: set_repo_def)

definition agrees :: "('r, 'c) stores \<Rightarrow> ('r, 'c) world \<Rightarrow> bool" where
  "agrees s w = (st_repo s = w_repo w \<and> st_cache s = w_cache w)"

lemma alone_Create:
  assumes "agrees s w" and "TaskService_Create env (NewTaskService l R K) t w = (w', x)"
  shows "\<exists>s'. (calls_step R K drop_some)\<^sup>*\<^sup>* ([Begin (CCreate t)], s)
      ([Answer (case x of Inl e \<Rightarrow> RErr e | Inr i \<Rightarrow> RId i)], s') \<and> agrees s' w'"
proof (cases "repo_Store R (w_repo w) t")
  case (Pair r y)
  show ?thesis
  proof (cases y)
    case (Inl e)
    then have "(calls_step R K drop_some)\<^sup>*\<^sup>* ([Begin (CCreate t)], s) ([Answer (RErr e)], set_repo r s)"
      using Pair assms(1) by (intro alone1 call_step.create_failed) (simp add: agrees_def)
    then show ?thesis
      using Inl Pair assms by (auto simp: agrees_def TaskService_Create_def NewTaskService_def log_simps)
  next
    case (Inr i)
    have "(calls_step R K drop_some)\<^sup>*\<^sup>* ([CreateCache (t\<lparr>ID := i\<rparr>)], set_repo r s)
        ([Answer (RId (ID (t\<lparr>ID := i\<rparr>)))], (set_repo r s)\<lparr>st_cache := cache_Store K (t\<lparr>ID := i\<rparr>) (st_cache (set_repo r s))\<rparr>)"
      by (intro alone1 call_step.create_cached)
    then have "(calls_step R K drop_some)\<^sup>*\<^sup>* ([Begin (CCreate t)], s)
        ([Answer (RId i)], (set_repo r s)\<lparr>st_cache := cache_Store K (t\<lparr>ID := i\<rparr>) (st_cache s)\<rparr>)"
      using Pair Inr assms(1) by (intro alone [OF call_step.create_stored]) (simp_all add: agrees_def)
    then show ?thesis
      using Inr Pair assms by (auto simp: agrees_def TaskService_Create_def NewTaskService_def Let_def log_simps)
  qed
qed

lemma alone_Get:
  assumes "agrees s w" and "TaskService_Get env (NewTaskService l R K) i w = (w', x)"
  shows "\<exists>s'. (calls_step R K drop_some)\<^sup>*\<^sup>* ([Begin (CGet i)], s)
      ([Answer (case x of Inl e \<Rightarrow> RErr e | Inr t \<Rightarrow> RTask t)], s') \<and> agrees s' w'"
proof (cases "cache_Get K i (w_cache w)")
  case (Some t)
  then have "(calls_step R K drop_some)\<^sup>*\<^sup>* ([Begin (CGet i)], s) ([Answer (RTask t)], s)"
    using assms(1) by (intro alone1 call_step.get_hit) (simp add: agrees_def)
  then show ?thesis
    using Some assms by (auto simp: agrees_def TaskService_Get_def NewTaskService_def log_simps)
next
  case None
  obtain r y where y: "repo_Get R (w_repo w) i = (r, y)" by fastforce
  have "(calls_step R K drop_some)\<^sup>*\<^sup>* ([GetLoad i], s) ([Answer (case y of Inl e \<Rightarrow> RErr e | Inr t \<Rightarrow> RTask t)], set_repo r s)"
    using y assms(1) by (cases y) (auto simp: agrees_def intro!: alone1 call_step.get_failed call_step.get_loaded)
  then have "(calls_step R K drop_some)\<^sup>*\<^sup>* ([Begin (CGet i)], s) ([Answer (case y of Inl e \<Rightarrow> RErr e | Inr t \<Rightarrow> RTask t)], set_repo r s)"
    using None assms(1) by (intro alone [OF call_step.get_miss]) (simp_all add: agrees_def)
  then show ?thesis
    using None y assms by (auto simp: agrees_def TaskService_Get_def NewTaskService_def log_simps split: sum.splits if_splits)
qed

lemma alone_Delete:
  assumes "agrees s w" and "TaskService_Delete env (NewTaskService l R K) i w = (w', x)"
  shows "\<exists>s'. (calls_step R K drop_some)\<^sup>*\<^sup>* ([Begin (CDelete i)], s)
      ([Answer (case x of Some e \<Rightarrow> RErr e | None \<Rightarrow> RDone)], s') \<and> agrees s' w'"
proof (cases "repo_Delete R (w_repo w) i")
  case (Pair r y)
  let ?res = "case y of Some e \<Rightarrow> RErr e | None \<Rightarrow> RDone"
  let ?s = "(set_repo r s)\<lparr>st_cache := cache_Delete K i (st_cache s)\<rparr>"
  show ?thesis
  proof (cases "\<exists>e. y = Some e \<and> \<not> errors_Is e ErrTaskNotFound")
    case True
    then obtain e where e: "y = Some e" "\<not> errors_Is e ErrTaskNotFound" by blast
    then have "(calls_step R K drop_some)\<^sup>*\<^sup>* ([Begin (CDelete i)], s) ([Answer (RErr e)], set_repo r s)"
      using Pair assms(1) by (intro alone1 call_step.delete_error) (simp_all add: agrees_def)
    then show ?thesis
      using e Pair assms by (auto simp: agrees_def TaskService_Delete_def NewTaskService_def Let_def log_simps)
  next
    case False
    have "call_step R K (Begin (CDelete i)) s (Forget i ?res) (set_repo r s)"
      using False Pair assms(1) by (cases y) (auto simp: agrees_def intro: call_step.delete_gone call_step.delete_stored)
    moreover have "(calls_step R K drop_some)\<^sup>*\<^sup>* ([Forget i ?res], set_repo r s) ([Answer ?res], ?s)"
      using call_step.forget [of R K i ?res "set_repo r s"] by (intro alone1) simp
    ultimately have "(calls_step R K drop_some)\<^sup>*\<^sup>* ([Begin (CDelete i)], s) ([Answer ?res], ?s)"
      by (rule alone)
    then show ?thesis
      using False Pair assms
      by (auto simp: agrees_def TaskService_Delete_def NewTaskService_def Let_def log_simps split: option.splits if_splits)
  qed
qed

lemma alone_List:
  assumes "agrees s w" and "TaskService_List env (NewTaskService l R K) lm off w = (w', x)"
  shows "\<exists>s'. (calls_step R K drop_some)\<^sup>*\<^sup>* ([Begin (CList lm off)], s)
      ([Answer (case x of Inl e \<Rightarrow> RErr e | Inr (ts, n) \<Rightarrow> RPage ts n)], s') \<and> agrees s' w'"
proof (cases "repo_Count R (w_repo w) (Some (page_filter lm off))")
  case (Pair r y)
  show ?thesis
  proof (cases y)
    case (Inl e)
    then have "(calls_step R K drop_some)\<^sup>*\<^sup>* ([Begin (CList lm off)], s) ([Answer (RErr e)], set_repo r s)"
      using Pair assms(1) by (intro alone1 call_step.list_failed) (simp add: agrees_def)
    then show ?thesis
      using Inl Pair assms
      by (auto simp: agrees_def TaskService_List_def NewTaskService_def Let_def page_filter_def log_simps)
  next
    case (Inr n)
    obtain r' z where z: "repo_List R r (Some (page_filter lm off)) = (r', z)" by fastforce
    let ?res = "case z of Inl e \<Rightarrow> RErr e | Inr ts \<Rightarrow> RPage ts n"
    have "(calls_step R K drop_some)\<^sup>*\<^sup>* ([ListLoad lm off n], set_repo r s) ([Answer ?res], set_repo r' (set_repo r s))"
      using z by (cases z) (auto intro!: alone1 call_step.list_error call_step.list_loaded)
    then have "(calls_step R K drop_some)\<^sup>*\<^sup>* ([Begin (CList lm off)], s) ([Answer ?res], set_repo r' (set_repo r s))"
      using Pair Inr assms(1) by (intro alone [OF call_step.list_counted]) (simp_all add: agrees_def)
    then show ?thesis
      using Inr Pair z assms
      by (auto simp: agrees_def TaskService_List_def NewTaskService_def Let_def page_filter_def log_simps split: sum.splits)
  qed
qed

text \<open>The second half of an update: the row is written and the cache follows.\<close>

lemma alone_UpdateStore:
  assumes "repo_Update R (st_repo s) t = (r, z)"
  shows "\<exists>s'. (calls_step R K drop_some)\<^sup>*\<^sup>* ([UpdateStore i t], s)
      ([Answer (case z of None \<Rightarrow> RTask t | Some e \<Rightarrow> RErr e)], s') \<and> st_repo s' = r \<and>
    st_cache s' = (case z of None \<Rightarrow> cache_Store K t (st_cache s)
      | Some e \<Rightarrow> if errors_Is e ErrTaskNotFound then cache_Delete K i (st_cache s) else st_cache s)"
proof -
  let ?s = "set_repo r s"
  consider (stored) "z = None" | (gone) e where "z = Some e" "errors_Is e ErrTaskNotFound"
    | (error) e where "z = Some e" "\<not> errors_Is e ErrTaskNotFound" by (cases z) auto
  then show ?thesis
  proof cases
    case stored
    have "call_step R K (UpdateStore i t) s (UpdateCache t) ?s" using assms stored by (simp add: call_step.update_stored)
    from alone [OF this alone1 [OF call_step.update_cached], of drop_some] show ?thesis
      using stored by (intro exI conjI) (simp, simp_all)
  next
    case gone
    have "call_step R K (UpdateStore i t) s (Forget i (RErr e)) ?s" using assms gone by (simp add: call_step.update_gone)
    from alone [OF this alone1 [OF call_step.forget], of drop_some] show ?thesis
      using gone by (intro exI conjI) (simp, simp_all)
  next
    case error
    have "call_step R K (UpdateStore i t) s (Answer (RErr e)) ?s" using assms error by (simp add: call_step.update_error)
    from alone1 [OF this, of drop_some] show ?thesis using error by (intro exI conjI) (simp, simp_all)
  qed
qed

lemma alone_Update:
  assumes "agrees s w" and "TaskService_Update env (NewTaskService l R K) i p w = (w', x)"
  shows "\<exists>s'. (calls_step R K drop_some)\<^sup>*\<^sup>* ([Begin (CUpdate i p)], s)
      ([Answer (case x of Inl e \<Rightarrow> RErr e | Inr t \<Rightarrow> RTask t)], s') \<and> agrees s' w'"
proof -
  obtain r y where y: "repo_Get R (w_repo w) i = (r, y)" by fastforce
  consider (failed) e where "y = Inl e" | (rejected) t0 e where "y = Inr t0" "apply_params p t0 = Inl e"
    | (loaded) t0 t1 where "y = Inr t0" "apply_params p t0 = Inr t1" by (metis sum.exhaust)
  then show ?thesis
  proof cases
    case failed
    then have "(calls_step R K drop_some)\<^sup>*\<^sup>* ([Begin (CUpdate i p)], s) ([Answer (RErr e)], set_repo r s)"
      using y assms(1) by (intro alone1 call_step.update_failed) (simp add: agrees_def)
    then show ?thesis
      using failed y assms by (auto simp: agrees_def TaskService_Update_def NewTaskService_def log_simps split: if_splits)
  next
    case rejected
    then have "(calls_step R K drop_some)\<^sup>*\<^sup>* ([Begin (CUpdate i p)], s) ([Answer (RErr e)], set_repo r s)"
      using y assms(1) by (intro alone1 call_step.update_rejected [of _ _ _ _ t0]) (simp_all add: agrees_def)
    moreover have "x = Inl e" "agrees (set_repo r s) w'"
      using rejected y assms by (auto simp: agrees_def TaskService_Update_def NewTaskService_def)
    ultimately show ?thesis by auto
  next
    case loaded
    let ?t = "t1\<lparr>UpdatedAt := Some (clock env (tick w))\<rparr>"
    obtain r' z where z: "repo_Update R r ?t = (r', z)" by fastforce
    have "call_step R K (Begin (CUpdate i p)) s (UpdateStore i ?t) (set_repo r s)"
      using loaded y assms(1) by (intro call_step.update_loaded) (simp_all add: agrees_def)
    note first = alone [OF this]
    obtain s' where "(calls_step R K drop_some)\<^sup>*\<^sup>* ([UpdateStore i ?t], set_repo r s)
        ([Answer (case z of None \<Rightarrow> RTask ?t | Some e \<Rightarrow> RErr e)], s')" and s': "st_repo s' = r'"
      "st_cache s' = (case z of None \<Rightarrow> cache_Store K ?t (st_cache s)
        | Some e \<Rightarrow> if errors_Is e ErrTaskNotFound then cache_Delete K i (st_cache s) else st_cache s)"
      using alone_UpdateStore [of R "set_repo r s" ?t r' z K drop_some i, unfolded set_repo_fields, OF z] by blast
    note first [OF this(1)]
    moreover have "agrees s' (fst (TaskService_Update env (NewTaskService l R K) i p w)) \<and>
        snd (TaskService_Update env (NewTaskService l R K) i p w) = (case z of None \<Rightarrow> Inr ?t | Some e \<Rightarrow> Inl e)"
      using s' z y loaded assms(1)
      by (simp add: agrees_def TaskService_Update_def NewTaskService_def time_Now_def Let_def async_world split: option.splits)
    ultimately show ?thesis using assms(2) by (cases z) auto
  qed
qed

subsection \<open>What holds under every interleaving\<close>

text \<open>
  A version of a task: all of it but the creation time, which an update does not write.
\<close>

definition version_of :: "(time \<Rightarrow> time) \<Rightarrow> Task \<Rightarrow> Task \<Rightarrow> bool" where
  "version_of stamp t t0 = ((stored stamp t)\<lparr>CreatedAt := CreatedAt t0\<rparr> = t0)"

context task_service
begin

definition was_stored :: "'r set \<Rightarrow> Task \<Rightarrow> bool" where
  "was_stored past t = (\<exists>r \<in> past. \<exists>t0. tasks r (ID t) = Some t0 \<and> version_of stamp t t0)"

fun pc_ok :: "'r set \<Rightarrow> svc_pc \<Rightarrow> bool" where
  "pc_ok past (CreateCache t) = was_stored past t"
| "pc_ok past (UpdateCache t) = was_stored past t"
| "pc_ok past (Answer (RTask t)) = was_stored past t"
| "pc_ok past (Forget i (RTask t)) = was_stored past t"
| "pc_ok past _ = True"

definition calls_inv :: "svc_pc list \<times> ('r, 'c) stores \<Rightarrow> bool" where
  "calls_inv = (\<lambda>(ts, s).
     inv (st_cache s) \<and> st_repo s \<in> st_past s \<and>
     (\<forall>i t. lookup (st_cache s) i = Some t \<longrightarrow> ID t = i \<and> was_stored (st_past s) t) \<and>
     (\<forall>p \<in> set ts. pc_ok (st_past s) p))"

lemma was_stored_mono: "was_stored past t \<Longrightarrow> past \<subseteq> past' \<Longrightarrow> was_stored past' t"
  unfolding was_stored_def by blast

lemma pc_ok_mono: "pc_ok past p \<Longrightarrow> past \<subseteq> past' \<Longrightarrow> pc_ok past' p"
  by (cases "(past, p)" rule: pc_ok.cases) (auto intro: was_stored_mono)

lemma was_storedI: "r \<in> past \<Longrightarrow> tasks r (ID t) = Some t0 \<Longrightarrow> version_of stamp t t0 \<Longrightarrow> was_stored past t"
  unfolding was_stored_def by blast

lemma version_refl: "version_of stamp t (stored stamp t)"
  by (simp add: version_of_def)

end

context task_service
begin

lemma call_step_ok:
  assumes "call_step R K p s p' s'" and "inv (st_cache s)" and "st_repo s \<in> st_past s"
    and "\<And>i t. lookup (st_cache s) i = Some t \<Longrightarrow> ID t = i \<and> was_stored (st_past s) t" and "pc_ok (st_past s) p"
  shows "inv (st_cache s') \<and> st_repo s' \<in> st_past s' \<and> st_past s \<subseteq> st_past s' \<and> pc_ok (st_past s') p' \<and>
    (\<forall>i t. lookup (st_cache s') i = Some t \<longrightarrow> ID t = i \<and> was_stored (st_past s') t)"
proof -
  have past: "was_stored (insert r (st_past s)) t" if "was_stored (st_past s) t" for r t
    using that by (rule was_stored_mono) blast
  show ?thesis
    using assms(1)
  proof cases
    case (create_stored t r i)
    have "was_stored (insert r (st_past s)) (t\<lparr>ID := i\<rparr>)"
      using repo.Store_ok [OF create_stored(4)] by (intro was_storedI [of r]) (auto intro: version_refl)
    then show ?thesis using create_stored assms past by (simp add: set_repo_def subset_insertI)
  next
    case (create_cached t)
    then show ?thesis using assms by (auto simp: cache.Store_inv cache.Store_lookup)
  next
    case (get_hit i t)
    then show ?thesis using assms by (simp add: cache.Get_lookup)
  next
    case (get_loaded i r t)
    have "tasks r i = Some t" using repo.Get_ok [OF get_loaded(4)] by simp
    moreover from this have "ID t = i" "stored stamp t = t" using repo.tasks_stored by blast+
    ultimately have "was_stored (insert r (st_past s)) t"
      using version_refl [of t] by (intro was_storedI [of r]) simp_all
    then show ?thesis using get_loaded assms past by (simp add: set_repo_def subset_insertI)
  next
    case (update_stored t r i)
    obtain t0 :: Task where "tasks r = (tasks (st_repo s))(ID t \<mapsto> (stored stamp t)\<lparr>CreatedAt := CreatedAt t0\<rparr>)"
      using repo.Update_ok [OF update_stored(4)] by blast
    then have "was_stored (insert r (st_past s)) t"
      by (intro was_storedI [of r]) (auto simp: version_of_def)
    then show ?thesis using update_stored assms past by (simp add: set_repo_def subset_insertI)
  next
    case (update_cached t)
    then show ?thesis using assms by (auto simp: cache.Store_inv cache.Store_lookup)
  next
    case (forget i res)
    then show ?thesis
      using assms by (cases res) (auto simp: cache.Delete_inv cache.Delete_lookup split: if_splits)
  qed (use assms past in \<open>auto simp: set_repo_def\<close>)
qed

end

context task_service
begin

lemma calls_inv_step:
  assumes "calls_inv (ts, s)" and "calls_step R K drop_some (ts, s) (ts', s')"
  shows "calls_inv (ts', s')"
  using assms(2)
proof (cases rule: calls_step.cases)
  case (arrive c)
  then show ?thesis using assms(1) by (simp add: calls_inv_def)
next
  case (advance i p)
  have inv: "inv (st_cache s)" "st_repo s \<in> st_past s" "pc_ok (st_past s) (ts ! i)"
    and cached: "\<And>i t. lookup (st_cache s) i = Some t \<Longrightarrow> ID t = i \<and> was_stored (st_past s) t"
    and others: "\<forall>q \<in> set ts. pc_ok (st_past s) q"
    using assms(1) advance(2) by (auto simp: calls_inv_def)
  note st = call_step_ok [OF advance(3) inv(1,2) cached inv(3)]
  have "pc_ok (st_past s') q" if "q \<in> set (ts[i := p])" for q
  proof -
    have "q = p \<or> q \<in> set ts" using that set_update_subset_insert [of ts i p] by blast
    then show ?thesis using st others pc_ok_mono by blast
  qed
  then show ?thesis using st advance(1) by (simp add: calls_inv_def)
next
  case (monitor e)
  have "lookup (drop_some e (st_cache s)) \<subseteq>\<^sub>m lookup (st_cache s)" "inv (drop_some e (st_cache s))"
    using assms(1) cache.drop_lookup cache.drop_inv by (auto simp: calls_inv_def)
  moreover have "ID t = i \<and> was_stored (st_past s) t" if "lookup (drop_some e (st_cache s)) i = Some t" for i t
  proof -
    have "lookup (st_cache s) i = Some t"
      using map_le_implies_dom_le [OF calculation(1)] calculation(1) that by (auto simp: map_le_def dom_def)
    then show ?thesis using assms(1) by (simp add: calls_inv_def)
  qed
  ultimately show ?thesis using assms(1) monitor by (simp add: calls_inv_def)
qed

lemma calls_inv_reachable:
  assumes "inv c" and "coherent stamp (lookup c) (tasks r)"
    and "(calls_step R K drop_some)\<^sup>*\<^sup>* ([], \<lparr>st_repo = r, st_cache = c, st_past = {r}\<rparr>) x"
  shows "calls_inv x"
  using assms(3)
proof (induction rule: rtranclp_induct)
  case base
  have "ID t = i \<and> was_stored {r} t" if "lookup c i = Some t" for i t
  proof -
    have t: "tasks r i = Some (stored stamp t)" using coherentD [OF assms(2) that] .
    then have "ID t = i" using repo.tasks_stored [OF t] by (simp add: stored_def)
    then show ?thesis using t version_refl by (auto intro!: was_storedI)
  qed
  then show ?case using assms(1) by (simp add: calls_inv_def)
next
  case (step y z)
  then show ?case using calls_inv_step by (cases y; cases z) blast
qed

lemma answered_was_stored:
  assumes "inv c" and "coherent stamp (lookup c) (tasks r)"
    and "(calls_step R K drop_some)\<^sup>*\<^sup>* ([], \<lparr>st_repo = r, st_cache = c, st_past = {r}\<rparr>) (ts, s)"
    and "cache_Get K i (st_cache s) = Some t \<or> Answer (RTask t) \<in> set ts \<and> i = ID t"
  shows "\<exists>r \<in> st_past s. \<exists>t0. tasks r i = Some t0 \<and> version_of stamp t t0"
proof -
  have inv: "calls_inv (ts, s)" using calls_inv_reachable [OF assms(1-3)] .
  have "ID t = i \<and> was_stored (st_past s) t"
    using assms(4)
  proof
    assume "cache_Get K i (st_cache s) = Some t"
    then show ?thesis using inv cache.Get_lookup by (simp add: calls_inv_def)
  next
    assume a: "Answer (RTask t) \<in> set ts \<and> i = ID t"
    then have "pc_ok (st_past s) (Answer (RTask t))" using inv unfolding calls_inv_def by blast
    then show ?thesis using a by simp
  qed
  then show ?thesis unfolding was_stored_def by blast
qed

end

context tasks_table
begin

lemma started_calls:
  assumes "NewTaskCache conv limit interval (NewTaskRepository db) d = (d', Inr c)"
    and "(calls_step (NewTaskRepository db) TaskCache_port (\<lambda>ms c. snd (TaskCache_Run ms c)))\<^sup>*\<^sup>*
      ([], \<lparr>st_repo = d', st_cache = c, st_past = {d'}\<rparr>) (ts, s)"
    and "TaskCache_Get i (st_cache s) = Some t \<or> Answer (RTask t) \<in> set ts \<and> i = ID t"
  shows "\<exists>r \<in> st_past s. \<exists>t0. tasks_of (tbl r) i = Some t0 \<and> version_of stamp t t0"
proof -
  have "svc.sound \<lparr>tick = 0, sent = [], stderr = undefined, w_repo = d', w_cache = c\<rparr>"
    by (rule started_sound(1) [OF assms(1)])
  then have "cache_inv u64 c" "coherent stamp (map_of (items c)) (tasks_of (tbl d'))"
    by (simp_all add: svc.sound_def)
  then show ?thesis
    using svc.answered_was_stored [OF _ _ assms(2)] assms(3) by (simp add: TaskCache_port_def)
qed

end


subsection \<open>Every call ends\<close>

text \<open>
  The operations a call has still to perform, at most. Each step performs one.
\<close>

fun steps_left :: "svc_pc \<Rightarrow> nat" where
  "steps_left (Begin _) = 3"
| "steps_left (CreateCache _) = 1"
| "steps_left (GetLoad _) = 1"
| "steps_left (UpdateStore _ _) = 2"
| "steps_left (UpdateCache _) = 1"
| "steps_left (Forget _ _) = 1"
| "steps_left (ListLoad _ _ _) = 1"
| "steps_left (Answer _) = 0"

lemma call_step_decreases: "call_step R K p s p' s' \<Longrightarrow> steps_left p' < steps_left p"
  by (induction rule: call_step.induct) simp_all

lemma call_step_enabled:
  assumes "0 < steps_left p"
  shows "\<exists>p' s'. call_step R K p s p' s'"
proof (cases p)
  case (Begin c)
  then show ?thesis
  proof (cases c)
    case (CCreate t)
    obtain r x where "repo_Store R (st_repo s) t = (r, x)" by fastforce
    then show ?thesis using Begin CCreate by (cases x) (blast intro: call_step.intros)+
  next
    case (CGet i)
    then show ?thesis using Begin by (cases "cache_Get K i (st_cache s)") (blast intro: call_step.intros)+
  next
    case (CUpdate i ps)
    obtain r x where x: "repo_Get R (st_repo s) i = (r, x)" by fastforce
    show ?thesis
    proof (cases x)
      case (Inr t)
      then show ?thesis using x Begin CUpdate by (cases "apply_params ps t") (blast intro: call_step.intros)+
    qed (use x Begin CUpdate in \<open>blast intro: call_step.intros\<close>)
  next
    case (CDelete i)
    obtain r x where "repo_Delete R (st_repo s) i = (r, x)" by fastforce
    then show ?thesis using Begin CDelete by (cases x) (blast intro: call_step.intros)+
  next
    case (CList l off)
    obtain r x where "repo_Count R (st_repo s) (Some (page_filter l off)) = (r, x)" by fastforce
    then show ?thesis using Begin CList by (cases x) (blast intro: call_step.intros)+
  qed
next
  case (GetLoad i)
  obtain r x where "repo_Get R (st_repo s) i = (r, x)" by fastforce
  then show ?thesis using GetLoad by (cases x) (blast intro: call_step.intros)+
next
  case (UpdateStore i t)
  obtain r x where "repo_Update R (st_repo s) t = (r, x)" by fastforce
  then show ?thesis using UpdateStore by (cases x) (blast intro: call_step.intros)+
next
  case (ListLoad l off n)
  obtain r x where "repo_List R (st_repo s) (Some (page_filter l off)) = (r, x)" by fastforce
  then show ?thesis using ListLoad by (cases x) (blast intro: call_step.intros)+
qed (use assms in \<open>auto intro: call_step.intros\<close>)

text \<open>A run of the calls with the number of steps that were taken on behalf of a call.\<close>

inductive calls_run :: "'r TaskRepository \<Rightarrow> 'c TaskCachePort \<Rightarrow> ('e \<Rightarrow> 'c \<Rightarrow> 'c) \<Rightarrow> svc_pc list \<times> ('r, 'c) stores
    \<Rightarrow> nat \<Rightarrow> nat \<Rightarrow> svc_pc list \<times> ('r, 'c) stores \<Rightarrow> bool" for R K drop_some x where
  run_nil: "calls_run R K drop_some x 0 0 x"
| run_arrive: "calls_run R K drop_some x a n (ts, s) \<Longrightarrow> calls_run R K drop_some x (Suc a) n (ts @ [Begin c], s)"
| run_advance: "calls_run R K drop_some x a n (ts, s) \<Longrightarrow> i < length ts \<Longrightarrow> call_step R K (ts ! i) s p s' \<Longrightarrow>
     calls_run R K drop_some x a (Suc n) (ts[i := p], s')"
| run_monitor: "calls_run R K drop_some x a n (ts, s) \<Longrightarrow>
     calls_run R K drop_some x a n (ts, s\<lparr>st_cache := drop_some e (st_cache s)\<rparr>)"

lemma sum_list_less_update:
  "i < length xs \<Longrightarrow> f y < f (xs ! i) \<Longrightarrow> sum_list (map f (xs[i := y])) < sum_list (map f xs)" for f :: "'a \<Rightarrow> nat"
proof (induction xs arbitrary: i)
  case (Cons x xs)
  then show ?case by (cases i) simp_all
qed simp

lemma calls_run_steps:
  "calls_run R K drop_some ([], s0) a n x \<Longrightarrow>
     length (fst x) = a \<and> n + sum_list (map steps_left (fst x)) \<le> 3 * a"
proof (induction rule: calls_run.induct)
  case (run_advance a n ts s i p s')
  then show ?case
    using sum_list_less_update [of i ts steps_left p] call_step_decreases [OF run_advance(3)] by simp
qed simp_all

subsection \<open>Calls on the reference table\<close>

abbreviation pg_repo :: "pg TaskRepository" where
  "pg_repo \<equiv> NewTaskRepository pg_db"

abbreviation pg_calls :: "svc_pc list \<times> (pg, TaskCache) stores \<Rightarrow> svc_pc list \<times> (pg, TaskCache) stores \<Rightarrow> bool" where
  "pg_calls \<equiv> calls_step pg_repo TaskCache_port (\<lambda>ms c. snd (TaskCache_Run ms c))"

definition paused_stores :: "(pg, TaskCache) stores" where
  "paused_stores = \<lparr>st_repo = paused_table, st_cache = paused_cache, st_past = {paused_table}\<rparr>"

lemma calls_more:
  assumes "(calls_step R K drop_some)\<^sup>*\<^sup>* x (ts, s)" and "call_step R K p s p' s'"
    and "i < length ts" and "ts ! i = p" and "ts[i := p'] = ts'"
  shows "(calls_step R K drop_some)\<^sup>*\<^sup>* x (ts', s')"
  using assms calls_step.advance [of i ts R K s p' s'] by (metis rtranclp.rtrancl_into_rtrancl)

lemma calls_arrive:
  "(calls_step R K drop_some)\<^sup>*\<^sup>* x (ts, s) \<Longrightarrow> (calls_step R K drop_some)\<^sup>*\<^sup>* x (ts @ [Begin c], s)"
  by (meson calls_step.arrive rtranclp.rtrancl_into_rtrancl)

lemma calls_arrive_all:
  "(calls_step R K drop_some)\<^sup>*\<^sup>* ([], s) (map Begin cs, s)"
proof (induction cs rule: rev_induct)
  case (snoc c cs)
  then show ?case using calls_arrive [OF snoc] by simp
qed simp

text \<open>The paused task, renamed, cancelled or resumed at time 7000.\<close>

definition rename :: UpdateTaskParams where
  "rename = \<lparr>param_Name = Some ''m'', param_Body = None, param_Status = None\<rparr>"

definition to_status :: "TaskStatus \<Rightarrow> UpdateTaskParams" where
  "to_status st = \<lparr>param_Name = None, param_Body = None, param_Status = Some st\<rparr>"

definition renamed_task :: Task where
  "renamed_task = paused_task\<lparr>Name := ''m'', UpdatedAt := Some 7000\<rparr>"

definition moved_task :: "TaskStatus \<Rightarrow> Task" where
  "moved_task st = paused_task\<lparr>Status := st, UpdatedAt := Some 7000\<rparr>"

definition one_row :: "Task \<Rightarrow> pg" where
  "one_row t = pg_empty\<lparr>pg_slots := [Some \<lparr>row_id = 1, row_name = Name t, row_body = Body t,
     row_status = Status t, row_created_at = CreatedAt t, row_updated_at = UpdatedAt t\<rparr>]\<rparr>"

definition no_row :: pg where
  "no_row = pg_empty\<lparr>pg_slots := [None]\<rparr>"

lemma paused_loads: "repo_Get pg_repo paused_table 1 = (paused_table, Inr paused_task)"
  by code_simp

lemma paused_params:
  "apply_params rename paused_task = Inr (paused_task\<lparr>Name := ''m''\<rparr>)"
  "apply_params (to_status TaskStatusCancel) paused_task = Inr (paused_task\<lparr>Status := TaskStatusCancel\<rparr>)"
  "apply_params (to_status TaskStatusInProcess) paused_task = Inr (paused_task\<lparr>Status := TaskStatusInProcess\<rparr>)"
  by code_simp+

lemma paused_writes:
  "repo_Update pg_repo paused_table renamed_task = (one_row renamed_task, None)"
  "repo_Delete pg_repo (one_row renamed_task) 1 = (no_row, None)"
  "repo_Update pg_repo paused_table (moved_task TaskStatusCancel) = (one_row (moved_task TaskStatusCancel), None)"
  "repo_Update pg_repo (one_row (moved_task TaskStatusCancel)) (moved_task TaskStatusInProcess) =
     (one_row (moved_task TaskStatusInProcess), None)"
  by code_simp+

lemma paused_cached:
  "cache_Get TaskCache_port 1 (cache_Store TaskCache_port renamed_task (cache_Delete TaskCache_port 1 paused_cache)) = Some renamed_task"
  by code_simp

text \<open>
  An update has stored its row when a deletion removes row and cache entry; then the update caches
  its task.
\<close>

lemma sched_deleted_cached:
  "\<exists>s. pg_calls\<^sup>*\<^sup>* ([], paused_stores) ([Answer (RTask renamed_task), Answer RDone, Answer (RTask renamed_task)], s) \<and>
     st_repo s = no_row"
proof -
  let ?x = "([], paused_stores)" and ?U = "CUpdate 1 rename" and ?G = "Begin (CGet 1)"
  let ?s1 = "set_repo paused_table paused_stores"
  let ?s2 = "set_repo (one_row renamed_task) ?s1"
  let ?s3 = "set_repo no_row ?s2"
  let ?s4 = "?s3\<lparr>st_cache := cache_Delete TaskCache_port 1 (st_cache ?s3)\<rparr>"
  let ?s5 = "?s4\<lparr>st_cache := cache_Store TaskCache_port renamed_task (st_cache ?s4)\<rparr>"
  have 0: "pg_calls\<^sup>*\<^sup>* ?x ([Begin ?U, Begin (CDelete 1), ?G], paused_stores)"
    using calls_arrive_all [of _ _ _ paused_stores "[?U, CDelete 1, CGet 1]"] by simp
  have 1: "pg_calls\<^sup>*\<^sup>* ?x ([UpdateStore 1 renamed_task, Begin (CDelete 1), ?G], ?s1)"
    by (rule calls_more [OF 0 call_step.update_loaded [OF _ paused_params(1), where now = 7000], where i = 0])
      (simp_all add: paused_stores_def paused_loads paused_params renamed_task_def)
  have 2: "pg_calls\<^sup>*\<^sup>* ?x ([UpdateCache renamed_task, Begin (CDelete 1), ?G], ?s2)"
    by (rule calls_more [OF 1 call_step.update_stored, where i = 0]) (simp_all add: paused_writes)
  have 3: "pg_calls\<^sup>*\<^sup>* ?x ([UpdateCache renamed_task, Forget 1 RDone, ?G], ?s3)"
    by (rule calls_more [OF 2 call_step.delete_stored, where i = 1]) (simp_all add: paused_writes)
  have 4: "pg_calls\<^sup>*\<^sup>* ?x ([UpdateCache renamed_task, Answer RDone, ?G], ?s4)"
    by (rule calls_more [OF 3 call_step.forget, where i = 1]) simp_all
  have 5: "pg_calls\<^sup>*\<^sup>* ?x ([Answer (RTask renamed_task), Answer RDone, ?G], ?s5)"
    by (rule calls_more [OF 4 call_step.update_cached, where i = 0]) simp_all
  have "pg_calls\<^sup>*\<^sup>* ?x ([Answer (RTask renamed_task), Answer RDone, Answer (RTask renamed_task)], ?s5)"
    by (rule calls_more [OF 5 call_step.get_hit, where i = 2]) (simp_all add: paused_cached paused_stores_def)
  then show ?thesis by auto
qed

text \<open>Two updates load the paused task; one cancels it, then the other puts it in process.\<close>

lemma sched_lifecycle_broken:
  "\<exists>ts s ts' s'. pg_calls\<^sup>*\<^sup>* ([], paused_stores) (ts, s) \<and> st_repo s = one_row (moved_task TaskStatusCancel) \<and>
     pg_calls\<^sup>*\<^sup>* (ts, s) (ts', s') \<and> st_repo s' = one_row (moved_task TaskStatusInProcess)"
proof -
  let ?x = "([], paused_stores)" and ?t = moved_task
  let ?C = "CUpdate 1 (to_status TaskStatusCancel)" and ?P = "CUpdate 1 (to_status TaskStatusInProcess)"
  let ?s1 = "set_repo paused_table paused_stores"
  let ?s2 = "set_repo paused_table ?s1"
  let ?s3 = "set_repo (one_row (?t TaskStatusCancel)) ?s2"
  let ?s4 = "set_repo (one_row (?t TaskStatusInProcess)) ?s3"
  have 0: "pg_calls\<^sup>*\<^sup>* ?x ([Begin ?C, Begin ?P], paused_stores)"
    using calls_arrive_all [of _ _ _ paused_stores "[?C, ?P]"] by simp
  have 1: "pg_calls\<^sup>*\<^sup>* ?x ([UpdateStore 1 (?t TaskStatusCancel), Begin ?P], ?s1)"
    by (rule calls_more [OF 0 call_step.update_loaded [OF _ paused_params(2), where now = 7000], where i = 0])
      (simp_all add: paused_stores_def paused_loads paused_params moved_task_def)
  have 2: "pg_calls\<^sup>*\<^sup>* ?x ([UpdateStore 1 (?t TaskStatusCancel), UpdateStore 1 (?t TaskStatusInProcess)], ?s2)"
    by (rule calls_more [OF 1 call_step.update_loaded [OF _ paused_params(3), where now = 7000], where i = 1])
      (simp_all add: paused_loads paused_params moved_task_def)
  have 3: "pg_calls\<^sup>*\<^sup>* ?x ([UpdateCache (?t TaskStatusCancel), UpdateStore 1 (?t TaskStatusInProcess)], ?s3)"
    by (rule calls_more [OF 2 call_step.update_stored, where i = 0]) (simp_all add: paused_writes)
  have "pg_calls\<^sup>*\<^sup>* ([UpdateCache (?t TaskStatusCancel), UpdateStore 1 (?t TaskStatusInProcess)], ?s3)
      ([UpdateCache (?t TaskStatusCancel), UpdateCache (?t TaskStatusInProcess)], ?s4)"
    by (rule calls_more [OF rtranclp.rtrancl_refl call_step.update_stored, where i = 1]) (simp_all add: paused_writes)
  then show ?thesis using 3 by (intro exI conjI) (assumption | simp)+
qed

subsection \<open>Properties\<close>





text \<open>
  C35. From start-up on and under every interleaving of calls and cleanups, a task that the cache holds
  or that a call has answered with is a version the table has held: at some moment the row of that
  task had the same name, body, status and update time (to the resolution of the database).
\<close>
theorem cache_holds_past_versions:
  assumes "tasks_table db tbl stamp"
    and "NewTaskCache conv limit interval (NewTaskRepository db) d = (d', Inr c)"
    and "(calls_step (NewTaskRepository db) TaskCache_port (\<lambda>ms c. snd (TaskCache_Run ms c)))\<^sup>*\<^sup>*
      ([], \<lparr>st_repo = d', st_cache = c, st_past = {d'}\<rparr>) (ts, s)"
    and "TaskCache_Get i (st_cache s) = Some t \<or> Answer (RTask t) \<in> set ts \<and> i = ID t"
  shows "\<exists>r \<in> st_past s. \<exists>t0. tasks_of (tbl r) i = Some t0 \<and> version_of stamp t t0"
  using assms by (rule tasks_table.started_calls)

theorem cache_holds_past_versions_witness:
  "\<exists>s :: (pg, TaskCache) stores. st_repo s = no_row \<and> (\<exists>r \<in> st_past s. \<exists>t0. tasks_of (pg_tbl r) 1 = Some t0 \<and> version_of pg_stamp renamed_task t0)"
proof -
  obtain s where s: "pg_calls\<^sup>*\<^sup>* ([], paused_stores)
      ([Answer (RTask renamed_task), Answer RDone, Answer (RTask renamed_task)], s)" "st_repo s = no_row"
    using sched_deleted_cached by blast
  have "ID renamed_task = 1" by (simp add: renamed_task_def paused_task_def)
  then show ?thesis
    using cache_holds_past_versions [OF pg.tasks_table_axioms paused_start s(1) [unfolded paused_stores_def], of 1 renamed_task] s(2)
    by auto
qed


end
