(* ===== verification/Cache_Races.thy ===== *)
theory Cache_Races
  imports Mem_Cache
begin

text \<open>
  The cache of \<open>pkg/cache/cache.go\<close> under concurrent use. A goroutine is at one of the points of the
  methods \<open>Store\<close>, \<open>Delete\<close>, \<open>Cleanup\<close> and \<open>List\<close>; a step performs one operation on the shared state: an
  operation of the \<open>sync.Map\<close>, of one of the atomic counters, or of the lock \<open>snapshotMu\<close>. \<open>Range\<close>
  visits each key at most once and, before it ends, every key that was there when it began (no key
  goes away meanwhile, because only holders of the lock remove keys). The steps of all goroutines
  interleave in every order.

  The invariant says by how much the counter \<open>len\<close> may differ from the number of entries; the
  reachable states at the end show that it does differ: it can be negative, which makes \<open>List\<close> panic,
  and an entry can stay uncounted for good.
\<close>

subsection \<open>Shared state and program points\<close>

text \<open>
  \<open>sh_writer\<close> and \<open>sh_readers\<close> are the lock. \<open>sh_lost\<close> is a ghost: how many entries the overwriting
  \<open>items.Store\<close> of \<open>Store\<close> put back after another goroutine had removed them.
\<close>

record ('k, 'v) shared =
  sh_items :: "'k \<rightharpoonup> 'v"
  sh_len :: int
  sh_first :: uint64
  sh_writer :: bool
  sh_readers :: nat
  sh_lost :: nat

datatype ('k, 'v) pc =
    Idle
  | StoreBegin 'k 'v | StoreCount 'k | StoreFirst 'k int | StoreSet 'k int uint64 | StoreOver 'k 'v
  | DelLock 'k | DelLoad 'k | DelCount 'k | DelCheck 'k | DelScan "'k set" "'k set" uint64
  | CleanLock | CleanCount | CleanMake int | CleanRange int "'k set" "'k list"
  | CleanDelete "'k list" uint64 | CleanDec "'k list" uint64
  | Unlock
  | ListLock | ListMake | ListRange "'k set" "'k set" "'v list" | ListFirst "'v list" | RUnlock "'v list" uint64
  | Panicked

text \<open>
  One step of a goroutine: from a point and the shared state to the next. A goroutine that has
  finished an operation begins any other.
\<close>

inductive go_step :: "('k::linorder \<Rightarrow> uint64) \<Rightarrow> ('k, 'v) pc \<Rightarrow> ('k, 'v) shared
    \<Rightarrow> ('k, 'v) pc \<Rightarrow> ('k, 'v) shared \<Rightarrow> bool" for u where
  call_store: "go_step u Idle s (StoreBegin k v) s"
| call_delete: "go_step u Idle s (DelLock k) s"
| call_cleanup: "go_step u Idle s CleanLock s"
| call_list: "go_step u Idle s ListLock s"
| store_new: "sh_items s k = None \<Longrightarrow>
    go_step u (StoreBegin k v) s (StoreCount k) (s\<lparr>sh_items := (sh_items s)(k \<mapsto> v)\<rparr>)"
| store_loaded: "sh_items s k \<noteq> None \<Longrightarrow> go_step u (StoreBegin k v) s (StoreOver k v) s"
| store_over: "go_step u (StoreOver k v) s Idle
    (s\<lparr>sh_items := (sh_items s)(k \<mapsto> v), sh_lost := sh_lost s + (if sh_items s k = None then 1 else 0)\<rparr>)"
| store_count: "go_step u (StoreCount k) s (StoreFirst k (sh_len s + 1)) (s\<lparr>sh_len := sh_len s + 1\<rparr>)"
| store_first: "go_step u (StoreFirst k n) s (StoreSet k n (sh_first s)) s"
| store_set: "go_step u (StoreSet k n first) s Idle
    (if n = 1 \<or> u k < first then s\<lparr>sh_first := u k\<rparr> else s)"
| del_lock: "\<not> sh_writer s \<Longrightarrow> sh_readers s = 0 \<Longrightarrow> go_step u (DelLock k) s (DelLoad k) (s\<lparr>sh_writer := True\<rparr>)"
| del_missing: "sh_items s k = None \<Longrightarrow> go_step u (DelLoad k) s Unlock s"
| del_load: "sh_items s k \<noteq> None \<Longrightarrow>
    go_step u (DelLoad k) s (DelCount k) (s\<lparr>sh_items := (sh_items s)(k := None)\<rparr>)"
| del_count: "go_step u (DelCount k) s (DelCheck k) (s\<lparr>sh_len := sh_len s - 1\<rparr>)"
| del_other: "u k \<noteq> sh_first s \<Longrightarrow> go_step u (DelCheck k) s Unlock s"
| del_first: "u k = sh_first s \<Longrightarrow> go_step u (DelCheck k) s (DelScan (dom (sh_items s)) {} 0) s"
| del_visit: "k \<in> dom (sh_items s) \<Longrightarrow> k \<notin> seen \<Longrightarrow>
    go_step u (DelScan must seen next) s (DelScan must (insert k seen) (if next = 0 \<or> u k < next then u k else next)) s"
| del_scanned: "must \<subseteq> seen \<Longrightarrow> go_step u (DelScan must seen next) s Unlock (s\<lparr>sh_first := next\<rparr>)"
| clean_lock: "\<not> sh_writer s \<Longrightarrow> sh_readers s = 0 \<Longrightarrow> go_step u CleanLock s CleanCount (s\<lparr>sh_writer := True\<rparr>)"
| clean_few: "fifth (sh_len s) \<le> 0 \<Longrightarrow> go_step u CleanCount s Unlock s"
| clean_count: "0 < fifth (sh_len s) \<Longrightarrow> go_step u CleanCount s (CleanMake (fifth (sh_len s))) s"
| clean_make: "0 \<le> sh_len s \<Longrightarrow> go_step u (CleanMake n) s (CleanRange n (dom (sh_items s)) []) s"
| clean_panic: "sh_len s < 0 \<Longrightarrow> go_step u (CleanMake n) s Panicked (s\<lparr>sh_writer := False\<rparr>)"
| clean_visit: "k \<in> dom (sh_items s) \<Longrightarrow> k \<notin> set keys \<Longrightarrow>
    go_step u (CleanRange n must keys) s (CleanRange n must (keys @ [k])) s"
| clean_none: "must \<subseteq> set keys \<Longrightarrow> keys = [] \<Longrightarrow> go_step u (CleanRange n must keys) s Unlock s"
| clean_keys: "must \<subseteq> set keys \<Longrightarrow> keys \<noteq> [] \<Longrightarrow> ks = sort keys \<Longrightarrow> m = min (nat n) (length ks) \<Longrightarrow>
    go_step u (CleanRange n must keys) s
      (CleanDelete (take m ks) (if m < length ks then u (ks ! m) else 0)) s"
| clean_delete: "go_step u (CleanDelete (k # ks) nf) s (CleanDec ks nf) (s\<lparr>sh_items := (sh_items s)(k := None)\<rparr>)"
| clean_dec: "go_step u (CleanDec ks nf) s (CleanDelete ks nf) (s\<lparr>sh_len := sh_len s - 1\<rparr>)"
| clean_first: "go_step u (CleanDelete [] nf) s Unlock (s\<lparr>sh_first := nf\<rparr>)"
| unlock: "go_step u Unlock s Idle (s\<lparr>sh_writer := False\<rparr>)"
| list_lock: "\<not> sh_writer s \<Longrightarrow> go_step u ListLock s ListMake (s\<lparr>sh_readers := sh_readers s + 1\<rparr>)"
| list_make: "0 \<le> sh_len s \<Longrightarrow> go_step u ListMake s (ListRange (dom (sh_items s)) {} []) s"
| list_panic: "sh_len s < 0 \<Longrightarrow> go_step u ListMake s Panicked (s\<lparr>sh_readers := sh_readers s - 1\<rparr>)"
| list_visit: "sh_items s k = Some v \<Longrightarrow> k \<notin> seen \<Longrightarrow>
    go_step u (ListRange must seen vs) s (ListRange must (insert k seen) (vs @ [v])) s"
| list_ranged: "must \<subseteq> seen \<Longrightarrow> go_step u (ListRange must seen vs) s (ListFirst vs) s"
| list_first: "go_step u (ListFirst vs) s (RUnlock vs (sh_first s)) s"
| list_unlock: "go_step u (RUnlock vs first) s Idle (s\<lparr>sh_readers := sh_readers s - 1\<rparr>)"

inductive race_step :: "('k::linorder \<Rightarrow> uint64) \<Rightarrow> ('k, 'v) pc list \<times> ('k, 'v) shared
    \<Rightarrow> ('k, 'v) pc list \<times> ('k, 'v) shared \<Rightarrow> bool" for u where
  "i < length ts \<Longrightarrow> go_step u (ts ! i) s p s' \<Longrightarrow> race_step u (ts, s) (ts[i := p], s')"

inductive_cases race_stepE: "race_step u (ts, s) x"

text \<open>The cache as \<open>New\<close> makes it, with \<open>n\<close> goroutines.\<close>

definition race_start :: "nat \<Rightarrow> ('k, 'v) pc list \<times> ('k, 'v) shared" where
  "race_start n =
     (replicate n Idle,
      \<lparr>sh_items = Map.empty, sh_len = 0, sh_first = 1, sh_writer = False, sh_readers = 0, sh_lost = 0\<rparr>)"

subsection \<open>Invariant\<close>

fun holds_lock :: "('k, 'v) pc \<Rightarrow> bool" where
  "holds_lock (DelLoad _) = True"
| "holds_lock (DelCount _) = True"
| "holds_lock (DelCheck _) = True"
| "holds_lock (DelScan _ _ _) = True"
| "holds_lock CleanCount = True"
| "holds_lock (CleanMake _) = True"
| "holds_lock (CleanRange _ _ _) = True"
| "holds_lock (CleanDelete _ _) = True"
| "holds_lock (CleanDec _ _) = True"
| "holds_lock Unlock = True"
| "holds_lock _ = False"

fun holds_rlock :: "('k, 'v) pc \<Rightarrow> bool" where
  "holds_rlock ListMake = True"
| "holds_rlock (ListRange _ _ _) = True"
| "holds_rlock (ListFirst _) = True"
| "holds_rlock (RUnlock _ _) = True"
| "holds_rlock _ = False"

text \<open>An entry is stored and not yet counted, or removed and still counted.\<close>

fun uncounted :: "('k, 'v) pc \<Rightarrow> bool" where
  "uncounted (StoreCount _) = True"
| "uncounted _ = False"

fun overcounted :: "('k, 'v) pc \<Rightarrow> bool" where
  "overcounted (DelCount _) = True"
| "overcounted (CleanDec _ _) = True"
| "overcounted _ = False"

text \<open>The keys a range has still to visit, or a cleanup has still to remove, are there.\<close>

fun keys_present :: "('k \<rightharpoonup> 'v) \<Rightarrow> ('k, 'v) pc \<Rightarrow> bool" where
  "keys_present m (CleanRange _ must ks) = (must \<subseteq> dom m \<and> distinct ks \<and> set ks \<subseteq> dom m)"
| "keys_present m (DelScan must _ _) = (must \<subseteq> dom m)"
| "keys_present m (ListRange must _ _) = (must \<subseteq> dom m)"
| "keys_present m (CleanDelete ks _) = (distinct ks \<and> set ks \<subseteq> dom m)"
| "keys_present m (CleanDec ks _) = (distinct ks \<and> set ks \<subseteq> dom m)"
| "keys_present m _ = True"

definition cnt :: "('a \<Rightarrow> bool) \<Rightarrow> 'a list \<Rightarrow> int" where
  "cnt P ts = int (length (filter P ts))"

definition race_inv :: "('k, 'v) pc list \<times> ('k, 'v) shared \<Rightarrow> bool" where
  "race_inv = (\<lambda>(ts, s).
     finite (dom (sh_items s)) \<and>
     cnt holds_lock ts = (if sh_writer s then 1 else 0) \<and>
     cnt holds_rlock ts = int (sh_readers s) \<and>
     (sh_writer s \<longrightarrow> sh_readers s = 0) \<and>
     (\<forall>p \<in> set ts. keys_present (sh_items s) p) \<and>
     sh_len s + cnt uncounted ts + int (sh_lost s) = int (card (dom (sh_items s))) + cnt overcounted ts)"

lemma cnt_update:
  "i < length ts \<Longrightarrow> cnt P (ts[i := p]) = cnt P ts - of_bool (P (ts ! i)) + of_bool (P p)"
proof (induction ts arbitrary: i)
  case (Cons t ts)
  then show ?case by (cases i) (auto simp: cnt_def)
qed simp

lemma cnt_pos: "i < length ts \<Longrightarrow> P (ts ! i) \<Longrightarrow> 0 < cnt P ts"
  by (auto simp: cnt_def filter_empty_conv intro!: bexI [of _ "ts ! i"])

lemma cnt_unique:
  assumes "cnt P ts \<le> 1" and "i < length ts" and "P (ts ! i)" and "p \<in> set (ts[i := q])" and "P p" and "\<not> P q"
  shows False
proof -
  obtain j where j: "j < length ts" "p = ts[i := q] ! j" using assms(4) by (auto simp: in_set_conv_nth)
  then have "0 < cnt P (ts[i := q])" using assms(5) by (intro cnt_pos) auto
  then show False using assms cnt_update [OF assms(2), of P q] by simp
qed

lemma keys_present_mono: "keys_present m p \<Longrightarrow> dom m \<subseteq> dom m' \<Longrightarrow> keys_present m' p"
  by (cases "(m, p)" rule: keys_present.cases) (auto simp: domIff subset_iff)

lemma locks_exclusive: "holds_lock p \<Longrightarrow> \<not> holds_rlock p"
  by (cases p) auto

lemma keys_present_lock: "\<not> holds_lock p \<Longrightarrow> \<not> holds_rlock p \<Longrightarrow> keys_present m p"
  by (cases "(m, p)" rule: keys_present.cases) auto

text \<open>A step keeps its own keys, and removes an entry only while it holds the lock.\<close>

lemma go_step_keys:
  assumes "go_step u p s p' s'" and "keys_present (sh_items s) p"
  shows "keys_present (sh_items s') p'"
    and "dom (sh_items s) \<subseteq> dom (sh_items s') \<or> holds_lock p \<and> holds_lock p'"
proof -
  show "keys_present (sh_items s') p'"
    using assms by cases (auto simp: domIff subset_iff dest: in_set_takeD)
  show "dom (sh_items s) \<subseteq> dom (sh_items s') \<or> holds_lock p \<and> holds_lock p'"
    using assms(1) by cases auto
qed

lemma go_step_counts:
  assumes "go_step u p s p' s'" and "finite (dom (sh_items s))" and "keys_present (sh_items s) p"
    and "holds_lock p \<longrightarrow> sh_writer s" and "holds_rlock p \<longrightarrow> 0 < sh_readers s"
  shows "finite (dom (sh_items s'))"
    and "sh_len s' - sh_len s + int (sh_lost s') - int (sh_lost s) - int (card (dom (sh_items s'))) + int (card (dom (sh_items s))) =
      of_bool (uncounted p) - of_bool (uncounted p') - of_bool (overcounted p) + of_bool (overcounted p')"
    and "of_bool (sh_writer s') - of_bool (sh_writer s) = (of_bool (holds_lock p') - of_bool (holds_lock p) :: int)"
    and "int (sh_readers s') - int (sh_readers s) = of_bool (holds_rlock p') - of_bool (holds_rlock p)"
    and "(sh_writer s \<longrightarrow> sh_readers s = 0) \<Longrightarrow> sh_writer s' \<longrightarrow> sh_readers s' = 0"
proof -
  show "(sh_writer s \<longrightarrow> sh_readers s = 0) \<Longrightarrow> sh_writer s' \<longrightarrow> sh_readers s' = 0"
    using assms(1) by cases auto
  show "finite (dom (sh_items s'))" using assms(1,2) by cases auto
  show "of_bool (sh_writer s') - of_bool (sh_writer s) = (of_bool (holds_lock p') - of_bool (holds_lock p) :: int)"
    using assms(1,4) by cases auto
  show "int (sh_readers s') - int (sh_readers s) = of_bool (holds_rlock p') - of_bool (holds_rlock p)"
    using assms(1,5) by cases auto
  have rem: "int (card (dom (sh_items s)) - Suc 0) = int (card (dom (sh_items s))) - 1" if "sh_items s k = Some v" for k v
  proof -
    have "0 < card (dom (sh_items s))" using that assms(2) by (auto simp: card_gt_0_iff)
    then show ?thesis by simp
  qed
  have ins: "insert k (dom (sh_items s)) = dom (sh_items s)" if "sh_items s k = Some v" for k v using that by auto
  show "sh_len s' - sh_len s + int (sh_lost s') - int (sh_lost s) - int (card (dom (sh_items s'))) + int (card (dom (sh_items s))) =
      of_bool (uncounted p) - of_bool (uncounted p') - of_bool (overcounted p) + of_bool (overcounted p')"
    using assms(1-3)
    by cases (auto simp: rem ins card_insert_if domIff)
qed

lemma race_inv_step:
  assumes "race_inv (ts, s)" and "race_step u (ts, s) (ts', s')"
  shows "race_inv (ts', s')"
proof -
  from assms(2) obtain i p where i: "i < length ts" "ts' = ts[i := p]" and step: "go_step u (ts ! i) s p s'"
    by (auto elim: race_stepE)
  let ?p = "ts ! i"
  have inv: "finite (dom (sh_items s))" "cnt holds_lock ts = (if sh_writer s then 1 else 0)"
    "cnt holds_rlock ts = int (sh_readers s)" "\<forall>p \<in> set ts. keys_present (sh_items s) p"
    "sh_writer s \<longrightarrow> sh_readers s = 0"
    "sh_len s + cnt uncounted ts + int (sh_lost s) = int (card (dom (sh_items s))) + cnt overcounted ts"
    using assms(1) by (simp_all add: race_inv_def)
  have own: "keys_present (sh_items s) ?p" using inv(4) i(1) by simp
  have locks: "holds_lock ?p \<longrightarrow> sh_writer s" "holds_rlock ?p \<longrightarrow> 0 < sh_readers s"
    using cnt_pos [OF i(1), of holds_lock] cnt_pos [OF i(1), of holds_rlock] inv(2,3) by (auto split: if_splits)
  note c = go_step_counts [OF step inv(1) own locks]
  note upd = cnt_update [OF i(1), where p = p]
  have "keys_present (sh_items s') q" if q: "q \<in> set (ts[i := p])" for q
  proof (cases "dom (sh_items s) \<subseteq> dom (sh_items s')")
    case True
    have "q = p \<or> q \<in> set ts" using q set_update_subset_insert [of ts i p] by blast
    then show ?thesis using go_step_keys(1) [OF step own] inv(4) keys_present_mono [OF _ True] by blast
  next
    case False
    then have hold: "holds_lock ?p" "holds_lock p" using go_step_keys(2) [OF step own] by auto
    show ?thesis
    proof (cases "holds_lock q")
      case True
      have "q = p"
      proof (rule ccontr)
        assume "q \<noteq> p"
        then have "q \<in> set (ts[i := Idle])" using q i(1) by (auto simp: in_set_conv_nth nth_list_update)
        then show False using cnt_unique [of holds_lock ts i q Idle] i(1) hold(1) True inv(2) by (auto split: if_splits)
      qed
      then show ?thesis using go_step_keys(1) [OF step own] by simp
    next
      case unlocked: False
      have "cnt holds_rlock (ts[i := p]) = 0"
        using locks(1) hold inv(3,5) upd [of holds_rlock] locks_exclusive [OF hold(1)] locks_exclusive [OF hold(2)] by auto
      then have "\<not> holds_rlock q" using q by (auto simp: cnt_def filter_empty_conv)
      then show ?thesis using unlocked by (rule keys_present_lock [rotated])
    qed
  qed
  then show ?thesis
    using c inv i(2) by (auto simp: race_inv_def upd of_bool_def split: if_splits)
qed

lemma race_inv_start: "race_inv (race_start n)"
  by (auto simp: race_inv_def race_start_def cnt_def filter_replicate)

lemma race_inv_reachable: "(race_step u)\<^sup>*\<^sup>* (race_start n) x \<Longrightarrow> race_inv x"
  by (induction rule: rtranclp_induct) (auto intro: race_inv_start race_inv_step)

subsection \<open>One goroutine alone\<close>

text \<open>Run alone, the steps of an operation compute what the operation does in one step.\<close>

definition shares :: "('k, 'v) Cache \<Rightarrow> ('k, 'v) shared \<Rightarrow> bool" where
  "shares c s =
     (sh_items s = map_of (items c) \<and> sh_len s = len c \<and> sh_first s = firstKey c \<and>
      \<not> sh_writer s \<and> sh_readers s = 0)"

fun op_start :: "('k, 'v) cache_op \<Rightarrow> ('k, 'v) pc" where
  "op_start (OpStore k v) = StoreBegin k v"
| "op_start (OpDelete k) = DelLock k"
| "op_start OpCleanup = CleanLock"

lemma solo:
  "go_step u p s p' s' \<Longrightarrow> (race_step u)\<^sup>*\<^sup>* ([p'], s') x \<Longrightarrow> (race_step u)\<^sup>*\<^sup>* ([p], s) x"
  using race_step.intros [of 0 "[p]" u s p' s'] by (simp add: converse_rtranclp_into_rtranclp)

lemmas solo_done = rtranclp.rtrancl_refl

lemma solo_Store:
  assumes "shares c s"
  shows "\<exists>s'. (race_step u)\<^sup>*\<^sup>* ([StoreBegin k v], s) ([Idle], s') \<and> shares (Cache_Store u k v c) s'"
proof (cases "map_of (items c) k")
  case None
  let ?s1 = "s\<lparr>sh_items := (sh_items s)(k \<mapsto> v), sh_len := sh_len s + 1\<rparr>"
  let ?s2 = "if sh_len s + 1 = 1 \<or> u k < sh_first s then ?s1\<lparr>sh_first := u k\<rparr> else ?s1"
  have "(race_step u)\<^sup>*\<^sup>* ([StoreBegin k v], s) ([Idle], ?s2)"
    using None assms go_step.store_set [of u k "sh_len s + 1" "sh_first s" ?s1]
    by (intro solo [OF go_step.store_new] solo [OF go_step.store_count] solo [OF go_step.store_first])
       (auto simp: shares_def intro: solo [OF _ solo_done])
  moreover have "shares (Cache_Store u k v c) ?s2"
    using None assms unfolding shares_def Store_lookup by (simp add: Cache_Store_def Let_def)
  ultimately show ?thesis by blast
next
  case (Some w)
  let ?s1 = "s\<lparr>sh_items := (sh_items s)(k \<mapsto> v), sh_lost := sh_lost s + (if sh_items s k = None then 1 else 0)\<rparr>"
  have "(race_step u)\<^sup>*\<^sup>* ([StoreBegin k v], s) ([Idle], ?s1)"
    using Some assms by (intro solo [OF go_step.store_loaded] solo [OF go_step.store_over solo_done]) (simp add: shares_def)
  moreover have "shares (Cache_Store u k v c) ?s1"
    using Some assms by (auto simp: shares_def Cache_Store_def update_conv')
  ultimately show ?thesis by blast
qed

lemma solo_scan:
  assumes "fst ` set xs \<subseteq> dom (sh_items s)" and "distinct (map fst xs)" and "seen \<inter> fst ` set xs = {}"
    and "(race_step u)\<^sup>*\<^sup>* ([DelScan must (seen \<union> fst ` set xs)
      (foldl (\<lambda>next (k, _). if next = 0 \<or> u k < next then u k else next) next xs)], s) x"
  shows "(race_step u)\<^sup>*\<^sup>* ([DelScan must seen next], s) x"
  using assms
proof (induction xs arbitrary: seen "next")
  case (Cons kv xs)
  obtain k v where kv: "kv = (k, v)" by fastforce
  let ?n = "if next = 0 \<or> u k < next then u k else next"
  have "(race_step u)\<^sup>*\<^sup>* ([DelScan must (insert k seen) ?n], s) x"
  proof (rule Cons.IH)
    show "fst ` set xs \<subseteq> dom (sh_items s)" "distinct (map fst xs)" using Cons.prems(1,2) by simp_all
    show "insert k seen \<inter> fst ` set xs = {}" using Cons.prems(2,3) kv by auto
    show "(race_step u)\<^sup>*\<^sup>* ([DelScan must (insert k seen \<union> fst ` set xs)
        (foldl (\<lambda>next (k, _). if next = 0 \<or> u k < next then u k else next) ?n xs)], s) x"
      using Cons.prems(4) by (simp add: kv)
  qed
  moreover have "go_step u (DelScan must seen next) s (DelScan must (insert k seen) ?n) s"
    using Cons.prems(1,3) kv by (intro go_step.del_visit) auto
  ultimately show ?case by (rule solo [rotated])
qed simp

lemma solo_Delete:
  assumes "shares c s" and "distinct (map fst (items c))"
  shows "\<exists>s'. (race_step u)\<^sup>*\<^sup>* ([DelLock k], s) ([Idle], s') \<and> shares (Cache_Delete u k c) s'"
proof (cases "map_of (items c) k")
  case None
  let ?s1 = "s\<lparr>sh_writer := True\<rparr>"
  have "(race_step u)\<^sup>*\<^sup>* ([DelLock k], s) ([Idle], ?s1\<lparr>sh_writer := False\<rparr>)"
    using None assms(1)
    by (intro solo [OF go_step.del_lock] solo [OF go_step.del_missing] solo [OF go_step.unlock solo_done])
       (simp_all add: shares_def)
  moreover have "shares (Cache_Delete u k c) (?s1\<lparr>sh_writer := False\<rparr>)"
    using None assms(1) by (simp add: shares_def Cache_Delete_def)
  ultimately show ?thesis by blast
next
  case (Some v)
  let ?xs = "AList.delete k (items c)"
  let ?s1 = "s\<lparr>sh_writer := True, sh_items := (sh_items s)(k := None), sh_len := sh_len s - 1\<rparr>"
  let ?s2 = "if u k = sh_first s then ?s1\<lparr>sh_first := scan_smallest u ?xs\<rparr> else ?s1"
  have dom: "dom (sh_items ?s1) = fst ` set ?xs"
    using assms(1) by (simp add: shares_def delete_conv' [symmetric] dom_map_of_conv_image_fst)
  have "(race_step u)\<^sup>*\<^sup>* ([DelCheck k], ?s1) ([Unlock], ?s2)"
  proof (cases "u k = sh_first s")
    case True
    have "(race_step u)\<^sup>*\<^sup>* ([DelScan (dom (sh_items ?s1)) {} 0], ?s1) ([Unlock], ?s2)"
    proof (rule solo_scan [of ?xs])
      show "(race_step u)\<^sup>*\<^sup>* ([DelScan (dom (sh_items ?s1)) ({} \<union> fst ` set ?xs)
          (foldl (\<lambda>next (k, _). if next = 0 \<or> u k < next then u k else next) 0 ?xs)], ?s1) ([Unlock], ?s2)"
        using True by (intro solo [OF go_step.del_scanned])
          (simp_all add: dom [simplified] scan_smallest_def [symmetric])
    qed (use dom assms(2) in \<open>simp_all add: distinct_delete\<close>)
    then show ?thesis using True by (intro solo [OF go_step.del_first]) simp_all
  next
    case False
    then show ?thesis by (simp add: solo [OF go_step.del_other solo_done])
  qed
  then have "(race_step u)\<^sup>*\<^sup>* ([DelCheck k], ?s1) ([Idle], ?s2\<lparr>sh_writer := False\<rparr>)"
    by (rule rtranclp_trans) (rule solo [OF go_step.unlock solo_done])
  then have "(race_step u)\<^sup>*\<^sup>* ([DelLock k], s) ([Idle], ?s2\<lparr>sh_writer := False\<rparr>)"
    using Some assms(1)
    by (intro solo [OF go_step.del_lock] solo [OF go_step.del_load] solo [OF go_step.del_count]) (simp_all add: shares_def)
  moreover have "shares (Cache_Delete u k c) (?s2\<lparr>sh_writer := False\<rparr>)"
    using Some assms(1) by (auto simp: shares_def Cache_Delete_def Let_def delete_conv')
  ultimately show ?thesis by blast
qed

lemma solo_keys:
  assumes "set ks \<subseteq> dom (sh_items s)" and "distinct ks" and "set keys \<inter> set ks = {}"
    and "(race_step u)\<^sup>*\<^sup>* ([CleanRange n must (keys @ ks)], s) x"
  shows "(race_step u)\<^sup>*\<^sup>* ([CleanRange n must keys], s) x"
  using assms
proof (induction ks arbitrary: keys)
  case (Cons k ks)
  have "(race_step u)\<^sup>*\<^sup>* ([CleanRange n must (keys @ [k])], s) x"
  proof (rule Cons.IH)
    show "set ks \<subseteq> dom (sh_items s)" "distinct ks" using Cons.prems(1,2) by simp_all
    show "set (keys @ [k]) \<inter> set ks = {}" using Cons.prems(2,3) by auto
    show "(race_step u)\<^sup>*\<^sup>* ([CleanRange n must ((keys @ [k]) @ ks)], s) x" using Cons.prems(4) by simp
  qed
  moreover have "go_step u (CleanRange n must keys) s (CleanRange n must (keys @ [k])) s"
    using Cons.prems(1,3) by (intro go_step.clean_visit) auto
  ultimately show ?case by (rule solo [rotated])
qed simp

lemma solo_remove:
  assumes "sh_items s = map_of (items c)" and "sh_len s = len c"
  shows "(race_step u)\<^sup>*\<^sup>* ([CleanDelete ks nf], s)
    ([Unlock], s\<lparr>sh_items := map_of (items (cleanup_loop ks c)), sh_len := len (cleanup_loop ks c), sh_first := nf\<rparr>)"
  using assms
proof (induction ks arbitrary: c s)
  case Nil
  then have "s\<lparr>sh_items := map_of (items c), sh_len := len c, sh_first := nf\<rparr> = s\<lparr>sh_first := nf\<rparr>" by simp
  then show ?case by (simp add: solo [OF go_step.clean_first solo_done])
next
  case (Cons k ks)
  let ?c = "c\<lparr>items := AList.delete k (items c), len := len c - 1\<rparr>"
  let ?s = "s\<lparr>sh_items := (sh_items s)(k := None), sh_len := sh_len s - 1\<rparr>"
  have "(race_step u)\<^sup>*\<^sup>* ([CleanDelete ks nf], ?s)
      ([Unlock], ?s\<lparr>sh_items := map_of (items (cleanup_loop ks ?c)), sh_len := len (cleanup_loop ks ?c), sh_first := nf\<rparr>)"
    using Cons.prems by (intro Cons.IH) (simp_all add: delete_conv')
  then have "(race_step u)\<^sup>*\<^sup>* ([CleanDelete (k # ks) nf], s)
      ([Unlock], ?s\<lparr>sh_items := map_of (items (cleanup_loop ks ?c)), sh_len := len (cleanup_loop ks ?c), sh_first := nf\<rparr>)"
    by (intro solo [OF go_step.clean_delete] solo [OF go_step.clean_dec]) simp
  then show ?case by simp
qed

lemma solo_Cleanup_locked:
  fixes c :: "('k::linorder, 'v) Cache"
  assumes "shares c s" and "distinct (map fst (items c))" and "0 \<le> len c"
  shows "\<exists>s2. (race_step u)\<^sup>*\<^sup>* ([CleanCount], s\<lparr>sh_writer := True\<rparr>) ([Unlock], s2) \<and>
    shares (Cache_Cleanup u c) (s2\<lparr>sh_writer := False\<rparr>)"
proof -
  let ?s1 = "s\<lparr>sh_writer := True\<rparr>" and ?n = "fifth (len c)" and ?keys = "map fst (items c)"
  have eq: "sh_items s = map_of (items c)" "sh_len s = len c" "sh_first s = firstKey c" "\<not> sh_writer s" "sh_readers s = 0"
    using assms(1) by (simp_all add: shares_def)
  have dom: "dom (sh_items s) = set ?keys" by (simp add: eq(1) dom_map_of_conv_image_fst)
  show ?thesis
  proof (cases "?n \<le> 0 \<or> items c = []")
    case True
    then have same: "Cache_Cleanup u c = c" by (auto simp: Cache_Cleanup_def Let_def)
    have "(race_step u)\<^sup>*\<^sup>* ([CleanCount], ?s1) ([Unlock], ?s1)"
    proof (cases "?n \<le> 0")
      case True
      then show ?thesis by (intro solo [OF go_step.clean_few solo_done]) (simp add: eq)
    next
      case False
      then have "items c = []" using True by simp
      then show ?thesis
        using False assms(3)
        by (intro solo [OF go_step.clean_count] solo [OF go_step.clean_make] solo [OF go_step.clean_none solo_done])
           (simp_all add: eq)
    qed
    moreover have "shares c (?s1\<lparr>sh_writer := False\<rparr>)" using eq by (simp add: shares_def)
    ultimately show ?thesis using same by auto
  next
    case False
    let ?ks = "sort ?keys" and ?m = "min (nat ?n) (length ?keys)"
    let ?nf = "if ?m < length ?keys then u (?ks ! ?m) else 0"
    let ?c1 = "cleanup_loop (take ?m ?ks) c"
    let ?s2 = "?s1\<lparr>sh_items := map_of (items ?c1), sh_len := len ?c1, sh_first := ?nf\<rparr>"
    have "(race_step u)\<^sup>*\<^sup>* ([CleanDelete (take ?m ?ks) ?nf], ?s1) ([Unlock], ?s2)"
      by (rule solo_remove) (simp_all add: eq)
    moreover have "go_step u (CleanRange ?n (dom (sh_items ?s1)) ([] @ ?keys)) ?s1 (CleanDelete (take ?m ?ks) ?nf) ?s1"
      using go_step.clean_keys [where keys = ?keys and ks = ?ks and m = ?m and n = ?n and u = u and s = ?s1] False dom
      by simp
    ultimately have "(race_step u)\<^sup>*\<^sup>* ([CleanRange ?n (dom (sh_items ?s1)) ([] @ ?keys)], ?s1) ([Unlock], ?s2)"
      by (rule solo [rotated])
    then have "(race_step u)\<^sup>*\<^sup>* ([CleanRange ?n (dom (sh_items ?s1)) []], ?s1) ([Unlock], ?s2)"
      by (rule solo_keys [where ks = ?keys and keys = "[]", rotated 3]) (use assms(2) dom in simp_all)
    then have "(race_step u)\<^sup>*\<^sup>* ([CleanCount], ?s1) ([Unlock], ?s2)"
      using False assms(3) by (intro solo [OF go_step.clean_count] solo [OF go_step.clean_make]) (simp_all add: eq)
    moreover have "?ks \<noteq> []" using False by (metis list.map_disc_iff sort_key_simps(1) length_0_conv length_sort)
    then have "shares (Cache_Cleanup u c) (?s2\<lparr>sh_writer := False\<rparr>)"
      using False eq by (simp add: shares_def Cache_Cleanup_def Let_def)
    ultimately show ?thesis by blast
  qed
qed

lemma solo_Cleanup:
  fixes c :: "('k::linorder, 'v) Cache"
  assumes "shares c s" and "distinct (map fst (items c))" and "0 \<le> len c"
  shows "\<exists>s'. (race_step u)\<^sup>*\<^sup>* ([CleanLock], s) ([Idle], s') \<and> shares (Cache_Cleanup u c) s'"
proof -
  let ?s1 = "s\<lparr>sh_writer := True\<rparr>"
  have eq: "\<not> sh_writer s" "sh_readers s = 0" using assms(1) by (simp_all add: shares_def)
  obtain s2 where run: "(race_step u)\<^sup>*\<^sup>* ([CleanCount], ?s1) ([Unlock], s2)"
    and sh: "shares (Cache_Cleanup u c) (s2\<lparr>sh_writer := False\<rparr>)"
    using solo_Cleanup_locked [OF assms] by blast
  have "(race_step u)\<^sup>*\<^sup>* ([CleanCount], ?s1) ([Idle], s2\<lparr>sh_writer := False\<rparr>)"
    using run by (rule rtranclp_trans) (rule solo [OF go_step.unlock solo_done])
  then have "(race_step u)\<^sup>*\<^sup>* ([CleanLock], s) ([Idle], s2\<lparr>sh_writer := False\<rparr>)"
    using eq by (intro solo [OF go_step.clean_lock]) simp_all
  then show ?thesis using sh by blast
qed

subsection \<open>Schedules\<close>

lemma race_more:
  assumes "(race_step u)\<^sup>*\<^sup>* x (ts, s)" and "go_step u p s p' s'" and "i < length ts" and "ts ! i = p"
    and "ts[i := p'] = ts'" and "s' = s''"
  shows "(race_step u)\<^sup>*\<^sup>* x (ts', s'')"
  using assms race_step.intros [of i ts u s p' s'] by (auto intro: rtranclp.rtrancl_into_rtrancl)

definition cache_with :: "(uint64 \<rightharpoonup> nat) \<Rightarrow> int \<Rightarrow> uint64 \<Rightarrow> (uint64, nat) shared" where
  "cache_with m n first =
     \<lparr>sh_items = m, sh_len = n, sh_first = first, sh_writer = False, sh_readers = 0, sh_lost = 0\<rparr>"

text \<open>Two goroutines and the cache after a complete \<open>Store\<close> of key 7.\<close>

lemma sched_stored:
  "(race_step u64)\<^sup>*\<^sup>* (race_start 2) ([Idle, Idle], cache_with [7 \<mapsto> 0] 1 7)"
proof -
  let ?x = "race_start 2" and ?s = "cache_with [7 \<mapsto> 0]"
  have 0: "(race_step u64)\<^sup>*\<^sup>* ?x ([Idle, Idle], cache_with Map.empty 0 1)"
    by (simp add: race_start_def cache_with_def numeral_eq_Suc)
  have 1: "(race_step u64)\<^sup>*\<^sup>* ?x ([StoreBegin 7 0, Idle], cache_with Map.empty 0 1)"
    by (rule race_more [OF 0 go_step.call_store, where i = 0]) simp_all
  have 2: "(race_step u64)\<^sup>*\<^sup>* ?x ([StoreCount 7, Idle], ?s 0 1)"
    by (rule race_more [OF 1 go_step.store_new, where i = 0]) (simp_all add: cache_with_def)
  have 3: "(race_step u64)\<^sup>*\<^sup>* ?x ([StoreFirst 7 1, Idle], ?s 1 1)"
    by (rule race_more [OF 2 go_step.store_count, where i = 0]) (simp_all add: cache_with_def)
  have 4: "(race_step u64)\<^sup>*\<^sup>* ?x ([StoreSet 7 1 1, Idle], ?s 1 1)"
    by (rule race_more [OF 3 go_step.store_first, where i = 0]) (simp_all add: cache_with_def)
  show ?thesis
    by (rule race_more [OF 4 go_step.store_set, where i = 0]) (auto simp: cache_with_def u64_def)
qed

text \<open>
  Key 7 is stored and, before it is counted, deleted: the counter is at \<open>- 1\<close> when \<open>List\<close> runs.
\<close>

lemma sched_panic:
  "(race_step u64)\<^sup>*\<^sup>* (race_start 3) ([StoreCount 7, Idle, Panicked], cache_with Map.empty (- 1) 1)"
proof -
  let ?x = "race_start 3"
  have 0: "(race_step u64)\<^sup>*\<^sup>* ?x ([Idle, Idle, Idle], cache_with Map.empty 0 1)"
    by (simp add: race_start_def cache_with_def numeral_eq_Suc)
  have 1: "(race_step u64)\<^sup>*\<^sup>* ?x ([StoreBegin 7 0, Idle, Idle], cache_with Map.empty 0 1)"
    by (rule race_more [OF 0 go_step.call_store, where i = 0]) simp_all
  have 2: "(race_step u64)\<^sup>*\<^sup>* ?x ([StoreCount 7, Idle, Idle], cache_with [7 \<mapsto> 0] 0 1)"
    by (rule race_more [OF 1 go_step.store_new, where i = 0]) (simp_all add: cache_with_def)
  have 3: "(race_step u64)\<^sup>*\<^sup>* ?x ([StoreCount 7, DelLock 7, Idle], cache_with [7 \<mapsto> 0] 0 1)"
    by (rule race_more [OF 2 go_step.call_delete, where i = 1]) simp_all
  have 4: "(race_step u64)\<^sup>*\<^sup>* ?x ([StoreCount 7, DelLoad 7, Idle], (cache_with [7 \<mapsto> 0] 0 1)\<lparr>sh_writer := True\<rparr>)"
    by (rule race_more [OF 3 go_step.del_lock, where i = 1]) (simp_all add: cache_with_def)
  have 5: "(race_step u64)\<^sup>*\<^sup>* ?x ([StoreCount 7, DelCount 7, Idle], (cache_with Map.empty 0 1)\<lparr>sh_writer := True\<rparr>)"
    by (rule race_more [OF 4 go_step.del_load, where i = 1]) (simp_all add: cache_with_def fun_eq_iff)
  have 6: "(race_step u64)\<^sup>*\<^sup>* ?x ([StoreCount 7, DelCheck 7, Idle], (cache_with Map.empty (- 1) 1)\<lparr>sh_writer := True\<rparr>)"
    by (rule race_more [OF 5 go_step.del_count, where i = 1]) (simp_all add: cache_with_def)
  have 7: "(race_step u64)\<^sup>*\<^sup>* ?x ([StoreCount 7, Unlock, Idle], (cache_with Map.empty (- 1) 1)\<lparr>sh_writer := True\<rparr>)"
    by (rule race_more [OF 6 go_step.del_other, where i = 1]) (simp_all add: cache_with_def u64_def)
  have 8: "(race_step u64)\<^sup>*\<^sup>* ?x ([StoreCount 7, Idle, Idle], cache_with Map.empty (- 1) 1)"
    by (rule race_more [OF 7 go_step.unlock, where i = 1]) (simp_all add: cache_with_def)
  have 9: "(race_step u64)\<^sup>*\<^sup>* ?x ([StoreCount 7, Idle, ListLock], cache_with Map.empty (- 1) 1)"
    by (rule race_more [OF 8 go_step.call_list, where i = 2]) simp_all
  have 10: "(race_step u64)\<^sup>*\<^sup>* ?x ([StoreCount 7, Idle, ListMake], (cache_with Map.empty (- 1) 1)\<lparr>sh_readers := 1\<rparr>)"
    by (rule race_more [OF 9 go_step.list_lock, where i = 2]) (simp_all add: cache_with_def)
  show ?thesis
    by (rule race_more [OF 10 go_step.list_panic, where i = 2]) (simp_all add: cache_with_def)
qed

text \<open>
  Key 7 is stored, stored again and deleted, the deletion falling between the two map operations of
  the second store: the entry comes back and is not counted.
\<close>

lemma sched_uncounted:
  "(race_step u64)\<^sup>*\<^sup>* (race_start 2) ([Idle, Idle], (cache_with [7 \<mapsto> 1] 0 0)\<lparr>sh_lost := 1\<rparr>)"
proof -
  let ?x = "race_start 2"
  let ?w = "\<lambda>m n first. (cache_with m n first)\<lparr>sh_writer := True\<rparr>"
  have 1: "(race_step u64)\<^sup>*\<^sup>* ?x ([StoreBegin 7 1, Idle], cache_with [7 \<mapsto> 0] 1 7)"
    by (rule race_more [OF sched_stored go_step.call_store, where i = 0]) simp_all
  have 2: "(race_step u64)\<^sup>*\<^sup>* ?x ([StoreOver 7 1, Idle], cache_with [7 \<mapsto> 0] 1 7)"
    by (rule race_more [OF 1 go_step.store_loaded, where i = 0]) (simp_all add: cache_with_def)
  have 3: "(race_step u64)\<^sup>*\<^sup>* ?x ([StoreOver 7 1, DelLock 7], cache_with [7 \<mapsto> 0] 1 7)"
    by (rule race_more [OF 2 go_step.call_delete, where i = 1]) simp_all
  have 4: "(race_step u64)\<^sup>*\<^sup>* ?x ([StoreOver 7 1, DelLoad 7], ?w [7 \<mapsto> 0] 1 7)"
    by (rule race_more [OF 3 go_step.del_lock, where i = 1]) (simp_all add: cache_with_def)
  have 5: "(race_step u64)\<^sup>*\<^sup>* ?x ([StoreOver 7 1, DelCount 7], ?w Map.empty 1 7)"
    by (rule race_more [OF 4 go_step.del_load, where i = 1]) (simp_all add: cache_with_def fun_eq_iff)
  have 6: "(race_step u64)\<^sup>*\<^sup>* ?x ([StoreOver 7 1, DelCheck 7], ?w Map.empty 0 7)"
    by (rule race_more [OF 5 go_step.del_count, where i = 1]) (simp_all add: cache_with_def)
  have 7: "(race_step u64)\<^sup>*\<^sup>* ?x ([StoreOver 7 1, DelScan {} {} 0], ?w Map.empty 0 7)"
    by (rule race_more [OF 6 go_step.del_first, where i = 1]) (simp_all add: cache_with_def u64_def)
  have 8: "(race_step u64)\<^sup>*\<^sup>* ?x ([StoreOver 7 1, Unlock], ?w Map.empty 0 0)"
    by (rule race_more [OF 7 go_step.del_scanned, where i = 1]) (simp_all add: cache_with_def)
  have 9: "(race_step u64)\<^sup>*\<^sup>* ?x ([StoreOver 7 1, Idle], cache_with Map.empty 0 0)"
    by (rule race_more [OF 8 go_step.unlock, where i = 1]) (simp_all add: cache_with_def)
  show ?thesis
    by (rule race_more [OF 9 go_step.store_over, where i = 0]) (simp_all add: cache_with_def)
qed

subsection \<open>Properties\<close>

text \<open>
  C39. Under every interleaving of \<open>Store\<close>, \<open>Delete\<close>, \<open>Cleanup\<close> and \<open>List\<close>, the lock excludes: at most one
  goroutine is deleting or cleaning up, and none while one is listing. The counter is exactly the
  number of entries, less those stored and not yet counted, plus those removed and not yet
  discounted, less those an overwriting store has put back after a removal.
\<close>
theorem race_len_accounting:
  assumes "(race_step u)\<^sup>*\<^sup>* (race_start n) (ts, s)"
  shows "sh_len s = int (card (dom (sh_items s))) - cnt uncounted ts + cnt overcounted ts - int (sh_lost s) \<and>
    cnt holds_lock ts \<le> 1 \<and> (cnt holds_lock ts = 0 \<or> cnt holds_rlock ts = 0)"
  using race_inv_reachable [OF assms] by (auto simp: race_inv_def split: if_splits)

theorem race_len_accounting_witness:
  "sh_len ((cache_with [7 \<mapsto> 1] 0 0)\<lparr>sh_lost := 1\<rparr>) = 1 - cnt uncounted [Idle, Idle :: (uint64, nat) pc] +
     cnt overcounted [Idle, Idle :: (uint64, nat) pc] - 1"
  using race_len_accounting [OF sched_uncounted] by (simp add: cache_with_def)

text \<open>
  \<open>List\<close> sees no half of a deletion or cleanup: as long as its range runs, every entry that was
  there when it began is still there, so that the range can visit it.
\<close>
theorem list_sees_no_removal:
  assumes "(race_step u)\<^sup>*\<^sup>* (race_start n) (ts, s)" and "ListRange must seen vs \<in> set ts"
  shows "must \<subseteq> dom (sh_items s)"
proof -
  have "keys_present (sh_items s) (ListRange must seen vs)"
    using race_inv_reachable [OF assms(1)] assms(2) unfolding race_inv_def by blast
  then show ?thesis by simp
qed

theorem list_sees_no_removal_witness:
  "{7 :: uint64} \<subseteq> dom (sh_items ((cache_with [7 \<mapsto> 0] 1 7)\<lparr>sh_readers := 1\<rparr>))"
proof -
  have 1: "(race_step u64)\<^sup>*\<^sup>* (race_start 2) ([Idle, ListLock], cache_with [7 \<mapsto> 0] 1 7)"
    by (rule race_more [OF sched_stored go_step.call_list, where i = 1]) simp_all
  have 2: "(race_step u64)\<^sup>*\<^sup>* (race_start 2) ([Idle, ListMake], (cache_with [7 \<mapsto> 0] 1 7)\<lparr>sh_readers := 1\<rparr>)"
    by (rule race_more [OF 1 go_step.list_lock, where i = 1]) (simp_all add: cache_with_def)
  have 3: "(race_step u64)\<^sup>*\<^sup>* (race_start 2) ([Idle, ListRange {7} {} []], (cache_with [7 \<mapsto> 0] 1 7)\<lparr>sh_readers := 1\<rparr>)"
    by (rule race_more [OF 2 go_step.list_make, where i = 1]) (simp_all add: cache_with_def)
  show ?thesis by (rule list_sees_no_removal [OF 3]) simp
qed

text \<open>
  C40. The counter is not safe under concurrent use: a deletion between the two steps of a store takes
  it to \<open>- 1\<close>, and a \<open>List\<close> at that moment panics on a negative capacity; and with every goroutine idle
  again an entry can be in the cache that is not counted, so that cleanup does not see it.
\<close>
theorem race_breaks_len:
  "(\<exists>ts (s :: (uint64, nat) shared). (race_step u64)\<^sup>*\<^sup>* (race_start 3) (ts, s) \<and> sh_len s = - 1 \<and> Panicked \<in> set ts) \<and>
   (\<exists>s. (race_step u64)\<^sup>*\<^sup>* (race_start 2) ([Idle, Idle], s) \<and> sh_len s = 0 \<and> sh_items s = [7 \<mapsto> 1 :: nat])"
proof
  show "\<exists>ts (s :: (uint64, nat) shared). (race_step u64)\<^sup>*\<^sup>* (race_start 3) (ts, s) \<and> sh_len s = - 1 \<and> Panicked \<in> set ts"
    using sched_panic by (force simp: cache_with_def)
  show "\<exists>s. (race_step u64)\<^sup>*\<^sup>* (race_start 2) ([Idle, Idle], s) \<and> sh_len s = 0 \<and> sh_items s = [7 \<mapsto> 1 :: nat]"
    using sched_uncounted by (force simp: cache_with_def)
qed

text \<open>
  The step-by-step cache is the cache: an operation of a single goroutine, run to its end with no
  other in between, takes a shared state that holds a well-formed cache to one that holds the cache
  the operation computes, and leaves the lock free.
\<close>
theorem solo_operation:
  fixes op :: "('k::linorder, 'v) cache_op"
  assumes "cache_inv u c" and "shares c s"
  shows "\<exists>s'. (race_step u)\<^sup>*\<^sup>* ([op_start op], s) ([Idle], s') \<and> shares (apply_op u op c) s'"
proof (cases op)
  case (OpStore k v)
  then show ?thesis using solo_Store [OF assms(2)] by simp
next
  case (OpDelete k)
  then show ?thesis using solo_Delete [OF assms(2)] assms(1) by (simp add: cache_inv_def)
next
  case OpCleanup
  then show ?thesis using solo_Cleanup [OF assms(2)] assms(1) by (simp add: cache_inv_def)
qed

theorem solo_operation_witness:
  "\<exists>s'. (race_step u64)\<^sup>*\<^sup>* ([DelLock 7], cache_with [7 \<mapsto> 0] 1 7) ([Idle], s') \<and> sh_items s' = Map.empty \<and> sh_len s' = 0"
proof -
  let ?c = "\<lparr>items = [(7, 0)], len = 1, cleanupStartMB = 0, memoryMonitorInterval = 0, firstKey = 7\<rparr> :: (uint64, nat) Cache"
  have "cache_inv u64 ?c" "shares ?c (cache_with [7 \<mapsto> 0] 1 7)"
    by (simp_all add: cache_inv_def u64_def shares_def cache_with_def)
  from solo_operation [OF this, of "OpDelete 7"] show ?thesis
    by (auto simp: shares_def Cache_Delete_def u64_def scan_smallest_def)
qed

end
