(* ===== verification/Spec2Isabelle.thy ===== *)
theory Spec2Isabelle
  imports App_Root Http_Bytes Service_Races Cache_Races
begin

text \<open>
  A verification of the task service: a REST service in Go that keeps tasks in PostgreSQL behind an
  in-memory cache. This theory imports the whole development and holds the properties that span all
  of it.

  \<^bold>\<open>The program.\<close> \<open>cmd/main.go\<close> loads the configuration and hands it to \<open>internal/root\<close>, which opens the
  database pool (\<open>pkg/postgres\<close>), warms a task cache (\<open>internal/services/task_cache.go\<close> over the generic
  \<open>pkg/cache\<close>) from the repository (\<open>internal/adapters/repositories\<close>), builds the task service
  (\<open>internal/services/task_service.go\<close>), the REST API (\<open>internal/server\<close>) on its own router
  (\<open>pkg/http/server\<close>) behind a \<open>ServeMux\<close>, a rate limiter and a body limit (\<open>pkg/http/middleware\<close>), and
  registers jobs and stop handlers with a registrar (\<open>pkg/background\<close>). A request passes the body limit,
  the rate limiter, the mux, the router and a handler; the handler binds and validates the request
  (\<open>pkg/http/protocol\<close>, \<open>internal/server/dto\<close>), calls one method of the service, and answers. The service
  works on the repository and keeps the cache in step. All of it logs through \<open>pkg/logging\<close>.

  \<^bold>\<open>The theories,\<close> from the bottom to the top:
  \<^item> \<open>Prelude\<close>, \<open>Go_Std\<close>: Go's types, the parts of its language and standard library the program uses,
    shared lemmas and the collections \<open>cache_simps\<close>, \<open>log_simps\<close>, \<open>sql_simps\<close>;
  \<^item> \<open>Task_Domain\<close> (\<open>internal/domain/task.go\<close>): tasks, \<open>CanTransitionTo\<close>, \<open>Size\<close>. The transition table is
    the documented life cycle \<open>lifecycle\<close>, and what histories it admits;
  \<^item> \<open>Mem_Cache\<close> (\<open>pkg/cache/cache.go\<close>): every method on the record \<open>Cache\<close>. It refines a finite map,
    \<open>len\<close> and \<open>firstKey\<close> are exact, cleanup drops the lowest fifth, the single-precision threshold is
    exact, the monitor brings memory down;
  \<^item> \<open>Cache_Races\<close>: the methods of the cache as interleaved steps on the shared map, counters and lock;
    an exact account of the counter under every interleaving, and how it goes wrong;
  \<^item> \<open>Logging\<close> (\<open>pkg/logging\<close>): the loggers; the channel of the asynchronous one as a step relation that
    keeps every entry, and that blocks senders once its receiver has left;
  \<^item> \<open>Task_Repository\<close> (\<open>internal/ports/task_repository.go\<close> and the adapter): the statements as they are
    sent, and every operation with its error paths; the contract \<open>task_repository\<close> of the port.
    \<open>Reference_Table\<close>: a table that meets the assumptions, what is stored is read back, and pages cover
    the table;
  \<^item> \<open>Task_Cache\<close> (\<open>internal/services/task_cache.go\<close>): the cache of tasks and its warm-up with the newest
    tasks within the budget;
  \<^item> \<open>Task_Service\<close> (\<open>internal/services/task_service.go\<close>): the five use cases on a \<open>world\<close> of repository,
    cache, clock and log. They refine the map of tasks \<open>spec_call\<close>, the cache is never stale, statuses
    follow the life cycle, failures are the database's;
  \<^item> \<open>Service_Races\<close>: the same use cases as interleaved steps on repository and cache. A call alone does
    what its handler says, every call ends, cached tasks are past versions of rows; and the two
    guarantees that overlapping calls lose;
  \<^item> \<open>Http_Router\<close>, \<open>Http_Protocol\<close>, \<open>Task_API\<close> (\<open>pkg/http/server/router.go\<close>, \<open>pkg/http/protocol\<close>,
    \<open>internal/server\<close>): matching and dispatch, responses and binding, the handlers. Every request is one
    call of the specification or is refused (\<open>http_trace\<close>);
  \<^item> \<open>Validation\<close> (\<open>internal/server/dto/dto.go\<close>): the rules of the \<open>validate\<close> tags, and the bound on pages;
  \<^item> \<open>Utf8\<close>, \<open>Json\<close>, \<open>Dto_Codec\<close>: counting and repairing UTF-8, the encoder and decoder of \<open>encoding/json\<close>
    as Go has them (a body that is cut off by the limit included), and what the \<open>json\<close> tags of the
    request and response types make of them. What is encoded parses back (\<open>response_roundtrip\<close>);
  \<^item> \<open>Http_Bytes\<close>: the REST interface over bytes, with that codec: a task posted as JSON is the task read
    as JSON (\<open>posted_task_is_read\<close>), and bodies over the limit are answered 400;
  \<^item> \<open>Http_Middleware\<close> (\<open>pkg/http/middleware\<close>): the limiter's table and its collector, the client address,
    the body limit; the bound on admitted requests;
  \<^item> \<open>Http_Server\<close>, \<open>Postgres_Pool\<close>, \<open>Background_Jobs\<close> (\<open>pkg/http/server\<close>, \<open>pkg/postgres\<close>, \<open>pkg/background\<close>):
    the server value and the mux, the pool, and the registrar as a step relation with its parallel stop;
  \<^item> \<open>App_Config\<close> (\<open>internal/config\<close>): the configuration, its struct tags as a list of variables, and
    \<open>time.ParseDuration\<close>; what is loaded from an environment, and when nothing is;
  \<^item> \<open>App_Root\<close> (\<open>internal/root\<close>, \<open>cmd/main.go\<close>): start, handler chain, shutdown and exit
    status. The application refines the map of tasks (\<open>app_trace\<close>), and what a start, a failed start and
    a shutdown leave behind.

  \<^bold>\<open>How code is modelled.\<close> A struct is a record, a method a definition on it, with its calls in the order of
  the source; errors are values of \<open>goerror\<close> in a sum or an option; \<open>uint64\<close> is a word and wraps. Time and
  the driver's answers come from arguments (\<open>env\<close>, the database state), so a theorem holds for all of them.
  Sequential components compute on explicit states; what runs in parallel (logger channel, registrar,
  cache methods, overlapping calls) is an inductive step relation, and the theorems about it hold for
  every interleaving. Loops are structural recursion or have a termination proof; nothing uses fuel:
  the memory monitor and the job runner take the list of their events, or a schedule, as an argument.
  Integers without a width are those that count events in memory (\<open>len\<close>, at most one step per entry).

  \<^bold>\<open>What is assumed.\<close> Code outside the repository is a parameter with the laws of a locale, each
  interpreted: PostgreSQL and \<open>database/sql\<close> (\<open>tasks_table\<close>, and \<open>reliable_table\<close> while it answers; by
  \<open>Reference_Table\<close>), \<open>golang.org/x/time/rate\<close> (\<open>token_bucket\<close>, by a bucket of tokens), the validation
  package (\<open>tag_validator\<close>, by \<open>check_tags\<close>), the packages the root wires together (\<open>app_packages\<close>). The
  reading of struct tags by \<open>envconfig\<close> is the hypothesis \<open>reads_tags\<close>, that of decimal numbers \<open>reads_decimals\<close>.
  The handlers take the JSON codec as an argument without laws, so their theorems hold for any;
  \<open>go_json\<close> is the one of Go, with the offset of the local time zone and the wording of its syntax errors
  as arguments. The escaping of URLs, \<open>strconv.Quote\<close> and the documentation handler are parameters without
  laws about their results. The interfaces inside the program are locales too:
  \<open>Ordered_key\<close>, \<open>task_cache\<close> and \<open>evicting_cache\<close>, \<open>task_repository\<close>, \<open>task_service\<close>, \<open>stop_handlers\<close>.

  \<^bold>\<open>What the model shows to be wrong in the code.\<close> The cache's counter can become negative and \<open>List\<close> then
  panics (\<open>race_breaks_len\<close>); a deleted task can stay in the cache, and overlapping updates can leave the
  life cycle (\<open>overlap_breaks_guarantees\<close>); bodies over the limit are answered 400, not 413
  (\<open>oversized_body_refused\<close>); log calls block for ever after shutdown has begun
  (\<open>stopped_logger_blocks_senders\<close>); a start that fails at the warm-up leaves the pool open
  (\<open>startup_failure\<close>); the configured write timeout is ignored (\<open>startup_wiring\<close>).

  \<^bold>\<open>Not modelled.\<close> \<open>docs/docs.go\<close> is generated and has no behaviour. Tests, migrations and container files
  are not code of the service; the schema of the migration is what \<open>tasks_table\<close> describes. The
  network loop of \<open>net/http\<close> (accepting, timeouts, one goroutine per request) is outside the repository:
  requests reach the model one after the other, and the theories on races take up what happens when
  they overlap in the cache and in the service. What \<open>godotenv\<close> adds to the environment is a
  parameter. In \<open>Service_Races\<close> an operation of the cache or the repository is one step; the steps inside
  a cache operation are those of \<open>Cache_Races\<close>. The unused struct \<open>server.Config\<close> is left out.
\<close>

section \<open>Properties of the whole application\<close>

context tag_validator
begin

lemma app_trace_valid:
  assumes "app_trace stamp h codec gs url mb limiting m es ws m'" and "rh_validator h = Some v" and "valid_tasks m"
  shows "valid_tasks m'"
  using assms
proof (induction rule: app_trace.induct)
  case (served now req c m res m1 broken w es ws m')
  then show ?case using spec_call_valid [OF served(2) _ call_of_valid [OF _ served(1)]] by simp
qed simp_all

end

text \<open>
  C25. Only well-formed tasks reach the table: if the tasks in the table are well formed when the
  application starts, and the validation package does what it documents, then after any sequence of
  requests, memory cleanups and collections of the limiter table every task in it has a name of 1 to 255
  characters, a body of 1 to 10000 and one of the five statuses, and its size estimate is exact and
  at most 41142 bytes.
\<close>
theorem stored_tasks_valid:
  assumes "app_packages pk tbl stamp" and "tag_validator (pk_validate pk)"
    and "Root_New env pk cfg l s = (s', Inr r)" and "cfg_RouteGroup cfg = render gs" and "group_ok gs"
    and "app_run (root_handler env pk r) es
      (IPRateLimit_store (root_limits cfg),
       \<lparr>tick = n, sent = q, stderr = k, w_repo = ps_db s', w_cache = the (root_taskCache r)\<rparr>) = ((ls, w), ws)"
    and "valid_tasks (tasks_of (tbl (ps_db s)))" and "tasks_of (tbl (w_repo w)) i = Some t"
  shows "valid_task t \<and> unat (Size t) = task_bytes t \<and> Size t \<le> 41142"
proof -
  have "rh_validator (NewResponseHandler l [WithValidation (pk_validate pk)]) = Some (pk_validate pk)"
    by (simp add: NewResponseHandler_def WithValidation_def)
  then have "valid_tasks (tasks_of (tbl (w_repo w)))"
    using tag_validator.app_trace_valid [OF assms(2) app_packages.app_refines [OF assms(1,3-6)] _ assms(7)] by blast
  then have "valid_task t" using assms(8) by (simp add: valid_tasks_def)
  then show ?thesis using valid_task_Size by blast
qed

definition valid_requests :: "app_event list" where
  "valid_requests = [app_req ''POST'' ''/api/tasks'' ''x'', app_req ''PATCH'' ''/api/tasks/1'' ''CANCEL'']"

theorem stored_tasks_valid_witness:
  "\<exists>t. tasks_of (pg_tbl (w_repo (snd (fst (sample_app_run valid_requests))))) 1 = Some t \<and>
     Status t = TaskStatusCancel \<and> valid_task t \<and> Size t \<le> 41142"
proof -
  let ?run = "sample_app_run valid_requests"
  obtain t where t: "tasks_of (pg_tbl (w_repo (snd (fst ?run)))) 1 = Some t" "Status t = TaskStatusCancel"
  proof -
    have "map_option Status (tasks_of (pg_tbl (w_repo (snd (fst ?run)))) 1) = Some TaskStatusCancel" by code_simp
    then show ?thesis using that by auto
  qed
  have "tag_validator (pk_validate sample_packages)" by (simp add: sample_packages_def tags.tag_validator_axioms)
  moreover have "pg_tbl pg_empty j = None" for j by (auto simp: pg_tbl_def pg_empty_def)
  then have "valid_tasks (tasks_of (pg_tbl (ps_db pools0)))"
    by (simp add: valid_tasks_def pools0_def tasks_of_def)
  ultimately show ?thesis
    using stored_tasks_valid [OF sample.app_packages_axioms _ sample_New sample_api_group(2,1), of valid_requests 0 "[]"
      empty_sink "fst (fst ?run)" "snd (fst ?run)" "snd ?run" 1 t] t
    by (simp add: sample_app_run_def sample_root_def)
qed

end
